(* ===== verification/Prelude.thy ===== *)
theory Prelude
  imports Main "HOL-Library.Word"
begin

text \<open>
  Shared material of the development: Python exceptions as values, the result
  type of fallible code with its bind, assertion and loop combinators, the
  string helpers the sources use, and the generic list lemmas the component
  theories rest on.

  Strings are byte lists (UTF-8).  The sources only concatenate, compare,
  join, strip known prefixes and escape characters below 0x80, and each of
  these commutes with the UTF-8 encoding.
\<close>

named_theorems res_simps \<open>unfolding rules of the result combinators\<close>

subsection \<open>Exceptions as values\<close>

datatype py_error =
    AssertionError
  | ValueError
  | RuntimeError
  | IndexError
  | KeyError
  | TypeError
  | AttributeError
  | OverflowError
  | ZeroDivisionError
  | NotImplementedError
  | StopIteration

type_synonym 'a res = "py_error + 'a"

abbreviation Ok :: "'a \<Rightarrow> 'a res" where
  "Ok \<equiv> Inr"

abbreviation Err :: "py_error \<Rightarrow> 'a res" where
  "Err \<equiv> Inl"

definition bindE :: "'a res \<Rightarrow> ('a \<Rightarrow> 'b res) \<Rightarrow> 'b res" where
  "bindE m f = (case m of Inl e \<Rightarrow> Inl e | Inr x \<Rightarrow> f x)"

definition assertE :: "bool \<Rightarrow> unit res" where
  "assertE b = (if b then Ok () else Err AssertionError)"

lemma bindE_simps [simp, res_simps]:
  "bindE (Inl e) f = Inl e"
  "bindE (Inr x) f = f x"
  by (simp_all add: bindE_def)

lemma assertE_True [simp, res_simps]: "b \<Longrightarrow> assertE b = Ok ()"
  by (simp add: assertE_def)

lemma assertE_False [simp, res_simps]: "\<not> b \<Longrightarrow> assertE b = Err AssertionError"
  by (simp add: assertE_def)

lemma bindE_eq_Inr_iff: "bindE m f = Inr y \<longleftrightarrow> (\<exists>x. m = Inr x \<and> f x = Inr y)"
  by (cases m) simp_all

lemma bindE_eq_Inl_iff:
  "bindE m f = Inl e \<longleftrightarrow> m = Inl e \<or> (\<exists>x. m = Inr x \<and> f x = Inl e)"
  by (cases m) simp_all

lemma assertE_eq_Inr_iff [simp]: "assertE b = Inr u \<longleftrightarrow> b"
  by (simp add: assertE_def)

lemma assertE_eq_Inl_iff [simp]: "assertE b = Inl e \<longleftrightarrow> \<not> b \<and> e = AssertionError"
  by (auto simp: assertE_def)

text \<open>A loop over a list whose body may raise: the state is threaded, the first
  exception ends the loop.\<close>

fun foldE :: "('a \<Rightarrow> 's \<Rightarrow> 's res) \<Rightarrow> 'a list \<Rightarrow> 's \<Rightarrow> 's res" where
  "foldE f [] s = Ok s"
| "foldE f (x # xs) s = bindE (f x s) (foldE f xs)"

fun mapE :: "('a \<Rightarrow> 'b res) \<Rightarrow> 'a list \<Rightarrow> 'b list res" where
  "mapE f [] = Ok []"
| "mapE f (x # xs) = bindE (f x) (\<lambda>y. bindE (mapE f xs) (\<lambda>ys. Ok (y # ys)))"

lemma foldE_append: "foldE f (xs @ ys) s = bindE (foldE f xs s) (foldE f ys)"
  by (induction xs arbitrary: s) (auto simp: bindE_def split: sum.splits)

lemma foldE_Ok: "(\<And>x s. x \<in> set xs \<Longrightarrow> f x s = Ok (g x s)) \<Longrightarrow> foldE f xs s = Ok (fold g xs s)"
  by (induction xs arbitrary: s) auto

lemma foldE_invariant:
  assumes "foldE f xs s = Ok s'" and "P s"
    and "\<And>x t t'. x \<in> set xs \<Longrightarrow> P t \<Longrightarrow> f x t = Ok t' \<Longrightarrow> P t'"
  shows "P s'"
  using assms by (induction xs arbitrary: s) (auto simp: bindE_eq_Inr_iff)

lemma mapE_Ok: "(\<And>x. x \<in> set xs \<Longrightarrow> f x = Ok (g x)) \<Longrightarrow> mapE f xs = Ok (map g xs)"
  by (induction xs) auto

lemma mapE_length: "mapE f xs = Ok ys \<Longrightarrow> length ys = length xs"
  by (induction xs arbitrary: ys) (auto simp: bindE_eq_Inr_iff)

lemma mapE_Err: "mapE f xs = Inl e \<Longrightarrow> \<exists>x \<in> set xs. f x = Inl e"
  by (induction xs) (auto simp: bindE_eq_Inl_iff)

lemma mapE_nth: "mapE f xs = Ok ys \<Longrightarrow> i < length xs \<Longrightarrow> f (xs ! i) = Ok (ys ! i)"
proof (induction xs arbitrary: ys i)
  case (Cons x xs)
  then show ?case by (cases i) (auto simp: bindE_eq_Inr_iff)
qed simp

subsection \<open>Optional values\<close>

text \<open>Python's \<open>x if x is not None else d\<close>.\<close>

definition or_default :: "'a \<Rightarrow> 'a option \<Rightarrow> 'a" where
  "or_default d x = (case x of None \<Rightarrow> d | Some v \<Rightarrow> v)"

lemma or_default_simps [simp]: "or_default d None = d" "or_default d (Some v) = v"
  by (simp_all add: or_default_def)

subsection \<open>Strings\<close>

fun starts_with :: "'a list \<Rightarrow> 'a list \<Rightarrow> bool" where
  "starts_with [] s = True"
| "starts_with (p # ps) [] = False"
| "starts_with (p # ps) (c # cs) = (p = c \<and> starts_with ps cs)"

lemma starts_with_iff: "starts_with p s \<longleftrightarrow> (\<exists>t. s = p @ t)"
  by (induction p s rule: starts_with.induct) auto

lemma starts_with_append [simp]: "starts_with p (p @ t)"
  by (auto simp: starts_with_iff)

fun py_join :: "string \<Rightarrow> string list \<Rightarrow> string" where
  "py_join sep [] = []"
| "py_join sep [s] = s"
| "py_join sep (s # ss) = s @ sep @ py_join sep ss"

lemma py_join_Cons: "ss \<noteq> [] \<Longrightarrow> py_join sep (s # ss) = s @ sep @ py_join sep ss"
  by (cases ss) auto

text \<open>Decimal printing of a natural number, \<open>str(n)\<close>.\<close>

fun digit_char :: "nat \<Rightarrow> char" where
  "digit_char d = char_of (48 + d)"

fun show_nat :: "nat \<Rightarrow> string" where
  "show_nat n = (if n < 10 then [digit_char n] else show_nat (n div 10) @ [digit_char (n mod 10)])"

declare show_nat.simps [simp del]

definition show_int :: "int \<Rightarrow> string" where
  "show_int i = (if i < 0 then ''-'' @ show_nat (nat (- i)) else show_nat (nat i))"

subsection \<open>Lists\<close>

lemma last_of_snoc_Cons [simp]: "last (x # xs @ [y]) = y"
  by simp

lemma distinct_Cons_snoc:
  "distinct (a # xs @ [b]) \<longleftrightarrow> a \<noteq> b \<and> a \<notin> set xs \<and> b \<notin> set xs \<and> distinct xs"
  by auto

lemma last_eq_nth: "length xs = Suc j \<Longrightarrow> xs \<noteq> [] \<and> last xs = xs ! j"
  by (cases xs rule: rev_cases) auto

lemma in_set_tlD: "x \<in> set (tl xs) \<Longrightarrow> x \<in> set xs"
  by (cases xs) auto

lemma in_set_last_or_butlast: "x \<in> set xs \<Longrightarrow> x = last xs \<or> x \<in> set (butlast xs)"
  by (induction xs) auto

lemma split_at_separator:
  "xs @ c # us = ys @ c # vs \<Longrightarrow> c \<notin> set xs \<Longrightarrow> c \<notin> set ys \<Longrightarrow> xs = ys \<and> us = vs"
proof (induction xs arbitrary: ys)
  case (Cons x xs)
  then show ?case by (cases ys) auto
next
  case Nil
  then show ?case by (cases ys) auto
qed

lemma take_Suc_last: "n < length xs \<Longrightarrow> take (Suc n) xs = take n xs @ [xs ! n]"
  by (rule take_Suc_conv_app_nth)

subsection \<open>Bytes\<close>

type_synonym bytes = "8 word list"

text \<open>\<^verbatim>\<open>int.from_bytes(b, "big")\<close> and \<^verbatim>\<open>n.to_bytes(k, "big", signed=False)\<close>, which
  raises \<^verbatim>\<open>OverflowError\<close> on a negative number or one that does not fit.\<close>

definition from_bytes_be :: "bytes \<Rightarrow> nat" where
  "from_bytes_be bs = foldl (\<lambda>acc b. acc * 256 + unat b) 0 bs"

fun digits_be :: "nat \<Rightarrow> nat \<Rightarrow> bytes" where
  "digits_be 0 n = []"
| "digits_be (Suc k) n = digits_be k (n div 256) @ [word_of_nat (n mod 256)]"

definition to_bytes_be :: "nat \<Rightarrow> int \<Rightarrow> bytes res" where
  "to_bytes_be k i = (if i < 0 \<or> i \<ge> 256 ^ k then Err OverflowError else Ok (digits_be k (nat i)))"

lemma length_digits_be [simp]: "length (digits_be k n) = k"
  by (induction k arbitrary: n) auto

lemma from_bytes_be_snoc [simp]: "from_bytes_be (bs @ [b]) = from_bytes_be bs * 256 + unat b"
  by (simp add: from_bytes_be_def)

lemma from_bytes_digits_be: "from_bytes_be (digits_be k n) = n mod 256 ^ k"
proof (induction k arbitrary: n)
  case 0
  then show ?case by (simp add: from_bytes_be_def)
next
  case (Suc k)
  have "unat (word_of_nat (n mod 256) :: 8 word) = n mod 256"
    by (simp add: unat_of_nat)
  then show ?case using Suc by (simp add: mod_mult2_eq)
qed

lemma from_bytes_be_bound: "from_bytes_be bs < 256 ^ length bs"
proof (induction bs rule: rev_induct)
  case (snoc b bs)
  have "unat b < 256" using unsigned_less [of b] by simp
  then have "from_bytes_be bs * 256 + unat b < (from_bytes_be bs + 1) * 256" by simp
  also have "\<dots> \<le> 256 ^ length bs * 256" using snoc by (intro mult_right_mono) auto
  finally show ?case by simp
qed (simp add: from_bytes_be_def)

subsection \<open>Python sequence indexing\<close>

text \<open>\<^verbatim>\<open>xs[i]\<close>: negative indices count from the end, and out of range raises.\<close>

definition py_index :: "'a list \<Rightarrow> int \<Rightarrow> 'a res" where
  "py_index xs i =
     (let j = (if i < 0 then int (length xs) + i else i)
      in if 0 \<le> j \<and> j < int (length xs) then Ok (xs ! nat j) else Err IndexError)"

lemma py_index_nat [simp]: "py_index xs (int k) = (if k < length xs then Ok (xs ! k) else Err IndexError)"
  by (simp add: py_index_def Let_def)

text \<open>\<^verbatim>\<open>xs[a:b]\<close> for natural bounds.\<close>

definition slice :: "nat \<Rightarrow> nat \<Rightarrow> 'a list \<Rightarrow> 'a list" where
  "slice a b xs = take (b - a) (drop a xs)"

lemma length_slice: "b \<le> length xs \<Longrightarrow> length (slice a b xs) = b - a"
  by (simp add: slice_def)

lemma slice_extend: "b \<le> c \<Longrightarrow> a \<le> b \<Longrightarrow> slice a b xs @ slice b c xs = slice a c xs"
proof -
  assume "b \<le> c" "a \<le> b"
  then have "c - a = (b - a) + (c - b)" by simp
  then have "slice a c xs = take (b - a) (drop a xs) @ take (c - b) (drop (b - a) (drop a xs))"
    unfolding slice_def by (simp only: take_add)
  then show ?thesis using \<open>a \<le> b\<close> by (simp add: slice_def)
qed

lemma slice_0: "slice 0 b xs = take b xs"
  by (simp add: slice_def)

lemma slice_prefix: "b \<le> length xs \<Longrightarrow> slice a b (xs @ ys) = slice a b xs"
  by (simp add: slice_def)

text \<open>\<^verbatim>\<open>range(a, b, s)\<close> and \<^verbatim>\<open>slice(a, b, s).indices(n)\<close>.\<close>

definition py_range :: "int \<Rightarrow> int \<Rightarrow> int \<Rightarrow> int list" where
  "py_range a b s =
     (let n = (if s > 0 then (b - a + s - 1) div s else (a - b - s - 1) div (- s))
      in map (\<lambda>k. a + int k * s) [0..<nat n])"

definition slice_bound :: "int \<Rightarrow> int \<Rightarrow> int \<Rightarrow> int \<Rightarrow> int option \<Rightarrow> int" where
  "slice_bound n lower upper none_val x =
     (case x of None \<Rightarrow> none_val | Some v \<Rightarrow> if v < 0 then max (v + n) lower else min v upper)"

definition slice_indices ::
  "int option \<Rightarrow> int option \<Rightarrow> int option \<Rightarrow> nat \<Rightarrow> (int \<times> int \<times> int) res" where
  "slice_indices a b s n =
     (let st = or_default 1 s;
          lower = (if st > 0 then 0 else -1);
          upper = (if st > 0 then int n else int n - 1)
      in if st = 0 then Err ValueError
         else Ok (slice_bound (int n) lower upper (if st < 0 then upper else lower) a,
                  slice_bound (int n) lower upper (if st < 0 then lower else upper) b, st))"

subsection \<open>Dictionaries\<close>

text \<open>A Python dictionary remembers insertion order, so it is an association list with
  distinct keys.  Assigning to a present key keeps its position.\<close>

type_synonym ('k, 'v) dict = "('k \<times> 'v) list"

abbreviation dict_get :: "('k, 'v) dict \<Rightarrow> 'k \<Rightarrow> 'v option" where
  "dict_get \<equiv> map_of"

abbreviation dict_keys :: "('k, 'v) dict \<Rightarrow> 'k list" where
  "dict_keys d \<equiv> map fst d"

fun dict_set :: "'k \<Rightarrow> 'v \<Rightarrow> ('k, 'v) dict \<Rightarrow> ('k, 'v) dict" where
  "dict_set k v [] = [(k, v)]"
| "dict_set k v ((k', v') # d) = (if k = k' then (k, v) # d else (k', v') # dict_set k v d)"

definition dict_setdefault :: "'k \<Rightarrow> 'v \<Rightarrow> ('k, 'v) dict \<Rightarrow> ('k, 'v) dict" where
  "dict_setdefault k v d = (if k \<in> set (dict_keys d) then d else d @ [(k, v)])"

definition dict_pop :: "'k \<Rightarrow> ('k, 'v) dict \<Rightarrow> ('k, 'v) dict" where
  "dict_pop k d = filter (\<lambda>(k', _). k' \<noteq> k) d"

lemma dict_get_set [simp]: "dict_get (dict_set k v d) = (dict_get d)(k \<mapsto> v)"
  by (induction d) auto

lemma dict_set_new: "k \<notin> fst ` set d \<Longrightarrow> dict_set k v d = d @ [(k, v)]"
  by (induction d) auto

lemma dict_get_setdefault:
  "dict_get (dict_setdefault k v d) = (case dict_get d k of None \<Rightarrow> (dict_get d)(k \<mapsto> v) | Some _ \<Rightarrow> dict_get d)"
  by (cases "dict_get d k")
    (auto simp: dict_setdefault_def map_of_eq_None_iff [symmetric] fun_eq_iff map_add_def split: option.splits)

lemma dict_get_pop: "dict_get (dict_pop k d) = (dict_get d)(k := None)"
  by (induction d) (auto simp: dict_pop_def)

lemma set_dict_keys: "set (dict_keys d) = dom (dict_get d)"
  by (simp add: dom_map_of_conv_image_fst)

lemma dict_get_key: "k \<in> fst ` set d \<Longrightarrow> \<exists>v. dict_get d k = Some v"
  by (metis domD set_dict_keys set_map)

lemma keys_dict_set [simp]: "fst ` set (dict_set k v d) = insert k (fst ` set d)"
proof (induction d)
  case (Cons kv d)
  obtain k' v' where "kv = (k', v')" by (cases kv)
  then show ?case using Cons by (cases "k = k'") auto
qed simp

lemma distinct_dict_set [simp]: "distinct (dict_keys (dict_set k v d)) = distinct (dict_keys d)"
proof (induction d)
  case (Cons kv d)
  obtain k' v' where "kv = (k', v')" by (cases kv)
  then show ?case using Cons by (cases "k = k'") auto
qed simp

lemma distinct_dict_setdefault [simp]: "distinct (dict_keys (dict_setdefault k v d)) = distinct (dict_keys d)"
  by (auto simp: dict_setdefault_def)

subsection \<open>Decimal numerals\<close>

lemma show_nat_digits: "c \<in> set (show_nat n) \<Longrightarrow> c \<in> set ''0123456789''"
proof (induction n rule: show_nat.induct)
  case (1 n)
  have "\<forall>d \<in> set [0..<10]. digit_char d \<in> set ''0123456789''"
    by code_simp
  then have "digit_char n \<in> set ''0123456789''" if "n < 10" "digit_char (n mod 10) \<in> set ''0123456789''"
    using that by simp
  moreover have "digit_char (n mod 10) \<in> set ''0123456789''"
    using \<open>\<forall>d \<in> set [0..<10]. digit_char d \<in> set ''0123456789''\<close> by simp
  moreover have "c \<in> set (if n < 10 then [digit_char n] else show_nat (n div 10) @ [digit_char (n mod 10)])"
    using "1.prems" by (subst (asm) show_nat.simps)
  ultimately show ?case using "1.IH" by (simp del: digit_char.simps split: if_splits) blast
qed

lemma show_nat_ne [simp]: "show_nat n \<noteq> []"
  by (subst show_nat.simps) simp

lemma digit_char_inj: "a < 10 \<Longrightarrow> b < 10 \<Longrightarrow> digit_char a = digit_char b \<longleftrightarrow> a = b"
  by (auto dest: arg_cong [where f = "of_char :: char \<Rightarrow> nat"])

lemma show_nat_inj: "show_nat m = show_nat n \<Longrightarrow> m = n"
proof (induction m arbitrary: n rule: show_nat.induct)
  case (1 m)
  have r: "show_nat k = (if k < 10 then [digit_char k] else show_nat (k div 10) @ [digit_char (k mod 10)])" for k
    by (rule show_nat.simps)
  show ?case
  proof (cases "m < 10 \<longleftrightarrow> n < 10")
    case True
    show ?thesis
    proof (cases "m < 10")
      case m: True
      then show ?thesis using True "1.prems" digit_char_inj [of m n] by (simp add: r [of m] r [of n])
    next
      case m: False
      then have "show_nat (m div 10) = show_nat (n div 10)" "digit_char (m mod 10) = digit_char (n mod 10)"
        using True "1.prems" r [of m] r [of n] by (simp_all del: digit_char.simps)
      then have "m div 10 = n div 10" "m mod 10 = n mod 10"
        using "1.IH" [OF m] digit_char_inj [of "m mod 10" "n mod 10"] by auto
      then show ?thesis by (metis div_mult_mod_eq)
    qed
  qed (use "1.prems" r [of m] r [of n] show_nat_ne [of "m div 10"] show_nat_ne [of "n div 10"] in
      \<open>auto simp del: digit_char.simps show_nat_ne split: if_splits\<close>)
qed

text \<open>A separator that is no digit makes a numbered prefix unambiguous.\<close>

lemma show_nat_sep:
  assumes "show_nat m @ c # xs = show_nat n @ c # ys" and "c \<notin> set ''0123456789''"
  shows "m = n \<and> xs = ys"
proof -
  have "c \<notin> set (show_nat m)" "c \<notin> set (show_nat n)" using assms(2) show_nat_digits by blast+
  then have "show_nat m = show_nat n \<and> xs = ys"
    using assms(1) split_at_separator by metis
  then show ?thesis using show_nat_inj by blast
qed

end
