(* ===== verification/Block_Queue.thy ===== *)
theory Block_Queue
  imports Prelude
begin

text \<open>
  The KV-cache block metadata and the free-block queue of
  \<^verbatim>\<open>overlay/vllm/v1/core/kv_cache_utils.py\<close> (classes \<^verbatim>\<open>KVCacheBlock\<close> and
  \<^verbatim>\<open>FreeKVCacheBlockQueue\<close>).

  The queue is a doubly linked list threaded through the block objects, with a
  fake head and a fake tail.  Python object identity is an address, the heap is
  a function from addresses to block records, and every pointer assignment of
  the source is one heap update, in the order of the source.  Two layers are
  proved to agree: the pointer operations, and the list of block addresses in
  eviction order.  The locale \<open>free_queue\<close> is the contract the block pool
  relies on; its interpretation on the pointer operations is at the end.
\<close>

section \<open>Block objects\<close>

text \<open>The object identities: the two sentinels of the queue and the real blocks.\<close>

datatype addr = Fake_Head | Fake_Tail | Block nat

type_synonym block_hash_with_group_id = bytes

record kv_cache_block =
  block_id :: int
  ref_cnt :: int
  block_hash :: "block_hash_with_group_id option"
  block_hash_num_tokens :: "int option"
  prev_free_block :: "addr option"
  next_free_block :: "addr option"
  is_null :: bool

definition new_block :: "int \<Rightarrow> kv_cache_block" where
  "new_block bid = \<lparr>block_id = bid, ref_cnt = 0, block_hash = None,
     block_hash_num_tokens = None, prev_free_block = None, next_free_block = None,
     is_null = False\<rparr>"

definition set_block_hash ::
  "kv_cache_block \<Rightarrow> block_hash_with_group_id \<Rightarrow> int option \<Rightarrow> kv_cache_block res" where
  "set_block_hash b h n =
     bindE (assertE (block_hash b = None \<and> block_hash_num_tokens b = None)) (\<lambda>_.
     Ok (b\<lparr>block_hash := Some h, block_hash_num_tokens := n\<rparr>))"

definition reset_hash :: "kv_cache_block \<Rightarrow> kv_cache_block" where
  "reset_hash b = b\<lparr>block_hash := None, block_hash_num_tokens := None\<rparr>"

section \<open>The heap and the pointer assignments\<close>

type_synonym heap = "addr \<Rightarrow> kv_cache_block"

abbreviation nxt :: "heap \<Rightarrow> addr \<Rightarrow> addr option" where
  "nxt h a \<equiv> next_free_block (h a)"

abbreviation prv :: "heap \<Rightarrow> addr \<Rightarrow> addr option" where
  "prv h a \<equiv> prev_free_block (h a)"

definition set_next :: "addr \<Rightarrow> addr option \<Rightarrow> heap \<Rightarrow> heap" where
  "set_next a p h = h(a := (h a)\<lparr>next_free_block := p\<rparr>)"

definition set_prev :: "addr \<Rightarrow> addr option \<Rightarrow> heap \<Rightarrow> heap" where
  "set_prev a p h = h(a := (h a)\<lparr>prev_free_block := p\<rparr>)"

record queue =
  heap :: heap
  num_free_blocks :: int

section \<open>The queue operations\<close>

text \<open>\<^verbatim>\<open>__init__\<close>: the index loop that links consecutive blocks, then the two
  sentinels, created as fresh objects.\<close>

definition link_step :: "addr list \<Rightarrow> nat \<Rightarrow> heap \<Rightarrow> heap" where
  "link_step bs i h =
     (let h1 = (if i > 0 then set_prev (bs ! i) (Some (bs ! (i - 1))) h else h)
      in if i < length bs - 1 then set_next (bs ! i) (Some (bs ! (i + 1))) h1 else h1)"

definition queue_init :: "heap \<Rightarrow> addr list \<Rightarrow> queue" where
  "queue_init h bs =
     (let h1 = fold (link_step bs) [0..<length bs] h;
          h2 = h1(Fake_Head := new_block (-1), Fake_Tail := new_block (-1));
          h3 = (if length bs > 0
                then set_next (last bs) (Some Fake_Tail)
                      (set_prev Fake_Tail (Some (last bs))
                      (set_prev (hd bs) (Some Fake_Head)
                      (set_next Fake_Head (Some (hd bs)) h2)))
                else set_prev Fake_Tail (Some Fake_Head)
                      (set_next Fake_Head (Some Fake_Tail) h2))
      in \<lparr>heap = h3, num_free_blocks = int (length bs)\<rparr>)"

definition popleft :: "queue \<Rightarrow> (addr \<times> queue) res" where
  "popleft q =
     (let h = heap q in
      case nxt h Fake_Head of
        None \<Rightarrow> bindE (assertE (num_free_blocks q = 0)) (\<lambda>_. Err ValueError)
      | Some first \<Rightarrow>
          if first = Fake_Tail
          then bindE (assertE (num_free_blocks q = 0)) (\<lambda>_. Err ValueError)
          else (case nxt h first of
                  None \<Rightarrow> Err RuntimeError
                | Some second \<Rightarrow>
                    (let h1 = set_next Fake_Head (Some second) h;
                         h2 = set_prev second (Some Fake_Head) h1;
                         h3 = set_next first None (set_prev first None h2)
                     in Ok (first, q\<lparr>heap := h3, num_free_blocks := num_free_blocks q - 1\<rparr>))))"

text \<open>The loop of \<^verbatim>\<open>popleft_n\<close>: \<open>k\<close> iterations left, the cursor, what was popped.\<close>

fun popleft_n_loop ::
  "nat \<Rightarrow> heap \<Rightarrow> addr option \<Rightarrow> addr list \<Rightarrow> (heap \<times> addr option \<times> addr list) res" where
  "popleft_n_loop 0 h cur ret = Ok (h, cur, ret)"
| "popleft_n_loop (Suc k) h cur ret =
     (case cur of
        None \<Rightarrow> Err AssertionError
      | Some c \<Rightarrow> popleft_n_loop k (set_next c None (set_prev c None h)) (nxt h c) (ret @ [c]))"

definition popleft_n :: "nat \<Rightarrow> queue \<Rightarrow> (addr list \<times> queue) res" where
  "popleft_n n q =
     (if n = 0 then Ok ([], q)
      else bindE (assertE (num_free_blocks q \<ge> int n)) (\<lambda>_.
           bindE (popleft_n_loop n (heap q) (nxt (heap q) Fake_Head) []) (\<lambda>(h, cur, ret).
           let h' = (case cur of
                       None \<Rightarrow> h
                     | Some c \<Rightarrow> set_prev c (Some Fake_Head) (set_next Fake_Head (Some c) h))
           in Ok (ret, q\<lparr>heap := h', num_free_blocks := num_free_blocks q - int n\<rparr>))))"

definition remove_block :: "addr \<Rightarrow> queue \<Rightarrow> queue res" where
  "remove_block b q =
     (let h = heap q in
      case (prv h b, nxt h b) of
        (Some p, Some n) \<Rightarrow>
          (let h1 = set_next p (Some n) h;
               h2 = set_prev n (Some p) h1;
               h3 = set_next b None (set_prev b None h2)
           in Ok (q\<lparr>heap := h3, num_free_blocks := num_free_blocks q - 1\<rparr>))
      | _ \<Rightarrow> Err RuntimeError)"

definition append_block :: "addr \<Rightarrow> queue \<Rightarrow> queue res" where
  "append_block b q =
     (let h = heap q in
      case prv h Fake_Tail of
        None \<Rightarrow> Err RuntimeError
      | Some l \<Rightarrow>
          (let h1 = set_next l (Some b) h;
               h2 = set_prev b (Some l) h1;
               h3 = set_next b (Some Fake_Tail) h2;
               h4 = set_prev Fake_Tail (Some b) h3
           in Ok (q\<lparr>heap := h4, num_free_blocks := num_free_blocks q + 1\<rparr>)))"

text \<open>The shared loop of \<^verbatim>\<open>prepend_n\<close> and \<^verbatim>\<open>append_n\<close>: thread the blocks after the
  cursor, returning the heap and the last block linked.\<close>

fun thread_blocks :: "addr list \<Rightarrow> addr \<Rightarrow> heap \<Rightarrow> heap \<times> addr" where
  "thread_blocks [] p h = (h, p)"
| "thread_blocks (b # bs) p h = thread_blocks bs b (set_next p (Some b) (set_prev b (Some p) h))"

definition prepend_n :: "addr list \<Rightarrow> queue \<Rightarrow> queue res" where
  "prepend_n bs q =
     (if bs = [] then Ok q
      else case nxt (heap q) Fake_Head of
        None \<Rightarrow> Err AssertionError
      | Some first \<Rightarrow>
          (let (h1, p) = thread_blocks bs Fake_Head (heap q);
               h2 = set_prev first (Some p) (set_next p (Some first) h1)
           in Ok (q\<lparr>heap := h2, num_free_blocks := num_free_blocks q + int (length bs)\<rparr>)))"

definition append_n :: "addr list \<Rightarrow> queue \<Rightarrow> queue res" where
  "append_n bs q =
     (if bs = [] then Ok q
      else case prv (heap q) Fake_Tail of
        None \<Rightarrow> Err AssertionError
      | Some last_block \<Rightarrow>
          (let (h1, l) = thread_blocks bs last_block (heap q);
               h2 = set_prev Fake_Tail (Some l) (set_next l (Some Fake_Tail) h1)
           in Ok (q\<lparr>heap := h2, num_free_blocks := num_free_blocks q + int (length bs)\<rparr>)))"

text \<open>The two traversals.  Each is a \<^verbatim>\<open>while\<close> loop that a cyclic list would not
  leave, so not returning is the value \<open>None\<close>.\<close>

partial_function (option) free_blocks_loop :: "heap \<Rightarrow> addr \<Rightarrow> addr list \<Rightarrow> addr list option" where
  "free_blocks_loop h cur ret =
     (case nxt h cur of
        None \<Rightarrow> Some ret
      | Some n \<Rightarrow> free_blocks_loop h n (ret @ [cur]))"

definition get_all_free_blocks :: "queue \<Rightarrow> addr list res option" where
  "get_all_free_blocks q =
     (case nxt (heap q) Fake_Head of
        None \<Rightarrow> Some (Err RuntimeError)
      | Some c \<Rightarrow> map_option Ok (free_blocks_loop (heap q) c []))"

partial_function (option) iter_blocks_loop :: "heap \<Rightarrow> addr option \<Rightarrow> addr list \<Rightarrow> addr list option" where
  "iter_blocks_loop h cur ret =
     (case cur of
        None \<Rightarrow> Some ret
      | Some c \<Rightarrow> if c = Fake_Tail then Some ret
                  else iter_blocks_loop h (nxt h c) (ret @ [c]))"

definition iter_blocks_after :: "queue \<Rightarrow> addr option \<Rightarrow> addr list option" where
  "iter_blocks_after q cursor =
     (case cursor of
        None \<Rightarrow> iter_blocks_loop (heap q) (nxt (heap q) Fake_Head) []
      | Some c \<Rightarrow> iter_blocks_loop (heap q) (nxt (heap q) c) [])"

section \<open>The representation invariant\<close>

text \<open>\<open>linked h ps\<close>: consecutive addresses of \<open>ps\<close> point at each other.\<close>

fun linked :: "heap \<Rightarrow> addr list \<Rightarrow> bool" where
  "linked h (a # b # ps) = (nxt h a = Some b \<and> prv h b = Some a \<and> linked h (b # ps))"
| "linked h ps = True"

definition chain :: "addr list \<Rightarrow> addr list" where
  "chain xs = Fake_Head # xs @ [Fake_Tail]"

text \<open>\<open>repr q xs\<close>: the queue holds exactly the blocks \<open>xs\<close>, in eviction order.  A block
  outside the queue has both pointers cleared, which is what makes \<^verbatim>\<open>remove\<close> reject it.\<close>

definition repr :: "queue \<Rightarrow> addr list \<Rightarrow> bool" where
  "repr q xs \<longleftrightarrow>
     linked (heap q) (chain xs) \<and> distinct xs \<and> Fake_Head \<notin> set xs \<and> Fake_Tail \<notin> set xs \<and>
     prv (heap q) Fake_Head = None \<and> nxt (heap q) Fake_Tail = None \<and>
     (\<forall>b. b \<notin> set (chain xs) \<longrightarrow> prv (heap q) b = None \<and> nxt (heap q) b = None) \<and>
     num_free_blocks q = int (length xs)"

text \<open>The payload of a block, which no queue operation may touch.\<close>

definition payload :: "kv_cache_block \<Rightarrow> kv_cache_block" where
  "payload b = b\<lparr>prev_free_block := None, next_free_block := None\<rparr>"

subsection \<open>Pointer lemmas\<close>

lemma set_next_sel [simp]:
  "nxt (set_next a p h) b = (if b = a then p else nxt h b)"
  "prv (set_next a p h) b = prv h b"
  by (simp_all add: set_next_def)

lemma set_prev_sel [simp]:
  "prv (set_prev a p h) b = (if b = a then p else prv h b)"
  "nxt (set_prev a p h) b = nxt h b"
  by (simp_all add: set_prev_def)

lemma payload_set [simp]:
  "payload (set_next a p h b) = payload (h b)"
  "payload (set_prev a p h b) = payload (h b)"
  by (simp_all add: payload_def set_next_def set_prev_def)

lemma linked_cong:
  assumes "\<And>a. a \<in> set (butlast ps) \<Longrightarrow> nxt h' a = nxt h a"
    and "\<And>a. a \<in> set (tl ps) \<Longrightarrow> prv h' a = prv h a"
  shows "linked h' ps = linked h ps"
  using assms by (induction h ps rule: linked.induct) auto

lemma linked_append:
  "linked h (xs @ a # ys) \<longleftrightarrow> linked h (xs @ [a]) \<and> linked h (a # ys)"
proof (induction xs)
  case (Cons x xs)
  then show ?case by (cases xs) auto
qed simp

lemma linked_snoc2:
  "linked h (xs @ [a, b]) \<longleftrightarrow> linked h (xs @ [a]) \<and> nxt h a = Some b \<and> prv h b = Some a"
  using linked_append [of h xs a "[b]"] by simp

lemma linked_tl: "linked h (a # ps) \<Longrightarrow> linked h ps"
  by (cases ps) auto

text \<open>The frame rules in the two shapes the operations need: a list segment that ends
  in, and one that starts with, the address whose outer pointer changes.\<close>

lemma linked_frame_left:
  assumes "\<And>x. x \<in> set ps \<Longrightarrow> nxt h' x = nxt h x"
    and "\<And>x. x \<in> set (ps @ [a]) \<Longrightarrow> prv h' x = prv h x"
  shows "linked h' (ps @ [a]) = linked h (ps @ [a])"
  by (rule linked_cong) (use assms in \<open>auto dest: in_set_tlD\<close>)

lemma linked_frame_right:
  assumes "\<And>x. x \<in> set (c # qs) \<Longrightarrow> nxt h' x = nxt h x"
    and "\<And>x. x \<in> set qs \<Longrightarrow> prv h' x = prv h x"
  shows "linked h' (c # qs) = linked h (c # qs)"
  by (rule linked_cong) (use assms in \<open>auto dest: in_set_butlastD split: if_splits\<close>)

subsection \<open>Unlinking and inserting\<close>

definition unlink :: "addr \<Rightarrow> addr \<Rightarrow> addr \<Rightarrow> heap \<Rightarrow> heap" where
  "unlink a b c h =
     set_next b None (set_prev b None (set_prev c (Some a) (set_next a (Some c) h)))"

lemma unlink_sel:
  "nxt (unlink a b c h) x = (if x = b then None else if x = a then Some c else nxt h x)"
  "prv (unlink a b c h) x = (if x = b then None else if x = c then Some a else prv h x)"
  by (simp_all add: unlink_def)

lemma unlink_payload [simp]: "payload (unlink a b c h x) = payload (h x)"
  by (simp add: unlink_def)

lemma linked_unlink:
  assumes "linked h (ps @ a # b # c # qs)" and "distinct (ps @ a # b # c # qs)"
  shows "linked (unlink a b c h) (ps @ a # c # qs)"
proof -
  have l: "linked h (ps @ [a])" and r: "linked h (c # qs)"
    using assms(1) linked_append [of h ps a "b # c # qs"] by auto
  have "linked (unlink a b c h) (ps @ [a]) = linked h (ps @ [a])"
    by (rule linked_frame_left) (use assms(2) in \<open>auto simp: unlink_sel\<close>)
  moreover have "linked (unlink a b c h) (c # qs) = linked h (c # qs)"
    by (rule linked_frame_right) (use assms(2) in \<open>auto simp: unlink_sel\<close>)
  ultimately show ?thesis
    using l r assms(2) linked_append [of "unlink a b c h" ps a "c # qs"] by (auto simp: unlink_sel)
qed

lemma thread_blocks_last: "thread_blocks bs p h = (h', l) \<Longrightarrow> l = last (p # bs)"
  by (induction bs arbitrary: p h) auto

lemma thread_blocks_frame:
  assumes "thread_blocks bs p h = (h', l)"
  shows "x \<notin> set (p # bs) \<Longrightarrow> nxt h' x = nxt h x"
    and "x \<notin> set bs \<Longrightarrow> prv h' x = prv h x"
    and "payload (h' x) = payload (h x)"
  using assms by (induction bs arbitrary: p h) auto

lemma thread_blocks_linked:
  assumes "thread_blocks bs p h = (h', l)" and "distinct (p # bs)"
  shows "linked h' (p # bs)"
  using assms
proof (induction bs arbitrary: p h)
  case (Cons b bs)
  let ?h = "set_next p (Some b) (set_prev b (Some p) h)"
  have t: "thread_blocks bs b ?h = (h', l)" using Cons.prems by simp
  have "nxt h' p = Some b" "prv h' b = Some p"
    using thread_blocks_frame(1) [OF t, of p] thread_blocks_frame(2) [OF t, of b] Cons.prems(2)
    by auto
  then show ?case using Cons.IH [OF t] Cons.prems(2) by simp
qed simp

lemma linked_insert:
  assumes lk: "linked h (ps @ a # c # qs)" and d: "distinct (ps @ a # bs @ c # qs)"
    and t: "thread_blocks bs a h = (h1, l)"
    and h2: "h2 = set_prev c (Some l) (set_next l (Some c) h1)"
  shows "linked h2 (ps @ a # bs @ c # qs)"
proof -
  have last: "l = last (a # bs)" using thread_blocks_last [OF t] .
  then have l_in: "l \<in> set (a # bs)" using last_in_set by blast
  then have l_out: "l \<notin> set ps" "l \<notin> set (c # qs)" "l \<noteq> c" "c \<notin> set (a # bs)"
    using d by auto
  have split: "a # bs = butlast (a # bs) @ [l]" using last by simp
  then have l_last: "l \<notin> set (butlast (a # bs))"
    using d by (metis distinct_append distinct.simps(2) append_Cons not_distinct_conv_prefix)
  note fr = thread_blocks_frame [OF t]
  have "linked h2 (ps @ [a]) = linked h (ps @ [a])"
    by (rule linked_frame_left) (use d l_out in \<open>auto simp: h2 disjoint_iff intro!: fr(1,2)\<close>)
  moreover have "linked h2 (butlast (a # bs) @ [l]) = linked h1 (butlast (a # bs) @ [l])"
  proof (rule linked_frame_left)
    show "nxt h2 x = nxt h1 x" if "x \<in> set (butlast (a # bs))" for x
      using that l_last by (metis h2 set_next_sel(1) set_prev_sel(2))
    show "prv h2 x = prv h1 x" if "x \<in> set (butlast (a # bs) @ [l])" for x
      using that l_out(4) by (metis split h2 set_next_sel(2) set_prev_sel(1))
  qed
  moreover have "linked h2 (c # qs) = linked h (c # qs)"
    by (rule linked_frame_right) (use d l_out in \<open>auto simp: h2 disjoint_iff intro!: fr(1,2)\<close>)
  moreover have "linked h1 (a # bs)" using thread_blocks_linked [OF t] d by auto
  moreover have "nxt h2 l = Some c" "prv h2 c = Some l" using l_out by (simp_all add: h2)
  moreover have "linked h (ps @ [a])" "linked h (c # qs)"
    using lk linked_append [of h ps a "c # qs"] by auto
  ultimately show ?thesis
    using linked_append [of h2 ps a "bs @ c # qs"]
      linked_append [of h2 "butlast (a # bs)" l "c # qs"] split
    by (metis append.assoc append_Cons append_Nil linked.simps(1))
qed

subsection \<open>Each operation on a represented queue\<close>

lemma reprD:
  assumes "repr q xs"
  shows "linked (heap q) (chain xs)" "distinct (chain xs)" "distinct xs"
    "Fake_Head \<notin> set xs" "Fake_Tail \<notin> set xs"
    "prv (heap q) Fake_Head = None" "nxt (heap q) Fake_Tail = None"
    "\<And>b. b \<notin> set (chain xs) \<Longrightarrow> prv (heap q) b = None \<and> nxt (heap q) b = None"
    "num_free_blocks q = int (length xs)"
  using assms by (auto simp: repr_def chain_def)

lemma repr_head: "repr q xs \<Longrightarrow> nxt (heap q) Fake_Head = Some (hd (xs @ [Fake_Tail]))"
  by (cases xs) (auto simp: repr_def chain_def)

lemma repr_tail: "repr q xs \<Longrightarrow> prv (heap q) Fake_Tail = Some (last (Fake_Head # xs))"
proof -
  assume r: "repr q xs"
  have "chain xs = butlast (Fake_Head # xs) @ [last (Fake_Head # xs), Fake_Tail]"
    using append_butlast_last_id [of "Fake_Head # xs"] by (simp add: chain_def)
  then show ?thesis using reprD(1) [OF r] linked_snoc2 by metis
qed

lemma chain_cut:
  obtains ps a c qs where "a = last (Fake_Head # xs)" "c = hd (ys @ [Fake_Tail])"
    "Fake_Head # xs = ps @ [a]" "ys @ [Fake_Tail] = c # qs"
    "\<And>ms. chain (xs @ ms @ ys) = ps @ a # ms @ c # qs"
proof -
  let ?ps = "butlast (Fake_Head # xs)" and ?a = "last (Fake_Head # xs)"
  let ?c = "hd (ys @ [Fake_Tail])" and ?qs = "tl (ys @ [Fake_Tail])"
  have l: "Fake_Head # xs = ?ps @ [?a]" and r: "ys @ [Fake_Tail] = ?c # ?qs"
    by (simp, cases ys, simp_all)
  have "chain (xs @ ms @ ys) = ?ps @ ?a # ms @ ?c # ?qs" for ms
    unfolding chain_def using l r by (metis append.assoc append_Cons append_Nil)
  then show thesis using that l r by blast
qed

lemma repr_unlink:
  assumes r: "repr q (xs @ b # ys)"
  shows "repr (q\<lparr>heap := unlink (last (Fake_Head # xs)) b (hd (ys @ [Fake_Tail])) (heap q),
                num_free_blocks := num_free_blocks q - 1\<rparr>) (xs @ ys)"
proof -
  obtain ps a c qs where ac: "a = last (Fake_Head # xs)" "c = hd (ys @ [Fake_Tail])"
    and cut: "Fake_Head # xs = ps @ [a]" "ys @ [Fake_Tail] = c # qs"
    and ch: "\<And>ms. chain (xs @ ms @ ys) = ps @ a # ms @ c # qs"
    using chain_cut [of xs ys] by metis
  have "linked (unlink a b c (heap q)) (chain (xs @ ys))"
    using linked_unlink [of "heap q" ps a b c qs] reprD(1,2) [OF r] ch [of "[b]"] ch [of "[]"] by simp
  moreover have "a \<in> set (Fake_Head # xs)" "c \<in> set (ys @ [Fake_Tail])"
    by (simp_all only: cut list.set_intros set_append, simp)
  moreover note reprD [OF r]
  ultimately show ?thesis
    unfolding repr_def ac [symmetric] by (auto simp: unlink_sel chain_def)
qed

lemma repr_insert:
  assumes r: "repr q (xs @ ys)" and d: "distinct (xs @ bs @ ys)"
    and s: "Fake_Head \<notin> set bs" "Fake_Tail \<notin> set bs"
    and t: "thread_blocks bs (last (Fake_Head # xs)) (heap q) = (h1, l)"
    and h2: "h2 = set_prev (hd (ys @ [Fake_Tail])) (Some l) (set_next l (Some (hd (ys @ [Fake_Tail]))) h1)"
  shows "repr (q\<lparr>heap := h2, num_free_blocks := num_free_blocks q + int (length bs)\<rparr>) (xs @ bs @ ys)"
proof -
  obtain ps a c qs where ac: "a = last (Fake_Head # xs)" "c = hd (ys @ [Fake_Tail])"
    and cut: "Fake_Head # xs = ps @ [a]" "ys @ [Fake_Tail] = c # qs"
    and ch: "\<And>ms. chain (xs @ ms @ ys) = ps @ a # ms @ c # qs"
    using chain_cut [of xs ys] by metis
  note t' = t [folded ac] and h2' = h2 [folded ac]
  have dn: "distinct (chain (xs @ bs @ ys))"
    using d s reprD(4,5) [OF r] by (auto simp: chain_def)
  have lk: "linked h2 (chain (xs @ bs @ ys))"
    using linked_insert [OF _ _ t' h2', of ps qs] reprD(1) [OF r] dn ch [of bs] ch [of "[]"] by simp
  have a: "a \<in> set (Fake_Head # xs)" and c: "c \<in> set (ys @ [Fake_Tail])"
    by (simp_all only: cut list.set_intros set_append, simp)
  have l: "l \<in> set (a # bs)" using thread_blocks_last [OF t'] last_in_set by blast
  note fr = thread_blocks_frame(1,2) [OF t']
  have "prv h2 b = None \<and> nxt h2 b = None" if "b \<notin> set (chain (xs @ bs @ ys))" for b
    using that a c l fr [of b] reprD(8) [OF r, of b] by (auto simp: h2' chain_def)
  moreover have "prv h2 Fake_Head = None"
    using fr(2) [of Fake_Head] s c reprD(4,6) [OF r] by (auto simp: h2')
  moreover have "nxt h2 Fake_Tail = None"
    using fr(1) [of Fake_Tail] s a l reprD(5,7) [OF r] by (auto simp: h2')
  ultimately show ?thesis
    unfolding repr_def using lk d s reprD(4,5,9) [OF r] by auto
qed

subsubsection \<open>Popping\<close>

lemma popleft_Nil: "repr q [] \<Longrightarrow> popleft q = Err ValueError"
  using repr_head [of q "[]"] reprD(9) [of q "[]"] by (simp add: popleft_def Let_def)

lemma popleft_Cons:
  assumes r: "repr q (x # xs)"
  shows "\<exists>q'. popleft q = Ok (x, q') \<and> repr q' xs"
proof -
  let ?c = "hd (xs @ [Fake_Tail])"
  have "nxt (heap q) Fake_Head = Some x" "nxt (heap q) x = Some ?c" "x \<noteq> Fake_Tail"
    using reprD(1,5) [OF r] by (cases xs; auto simp: chain_def)+
  then have "popleft q = Ok (x, q\<lparr>heap := unlink Fake_Head x ?c (heap q),
      num_free_blocks := num_free_blocks q - 1\<rparr>)"
    by (simp add: popleft_def Let_def unlink_def)
  with repr_unlink [of q "[]" x xs] r show ?thesis by simp
qed

definition clear_links :: "addr list \<Rightarrow> heap \<Rightarrow> heap" where
  "clear_links = fold (\<lambda>c h. set_next c None (set_prev c None h))"

lemma clear_links_Cons:
  "clear_links (c # cs) h = clear_links cs (set_next c None (set_prev c None h))"
  by (simp add: clear_links_def)

lemma clear_links_sel:
  "nxt (clear_links bs h) x = (if x \<in> set bs then None else nxt h x)"
  "prv (clear_links bs h) x = (if x \<in> set bs then None else prv h x)"
  "payload (clear_links bs h x) = payload (h x)"
  by (induction bs arbitrary: h) (auto simp: clear_links_Cons, simp_all add: clear_links_def)

lemma popleft_n_loop_linked:
  assumes "linked h (ys @ [Fake_Tail])" and "distinct (ys @ [Fake_Tail])" and "k \<le> length ys"
  shows "popleft_n_loop k h (Some (hd (ys @ [Fake_Tail]))) ret =
           Ok (clear_links (take k ys) h, Some (hd (drop k ys @ [Fake_Tail])), ret @ take k ys)"
  using assms
proof (induction k arbitrary: ys h ret)
  case 0
  then show ?case by (simp add: clear_links_def)
next
  case (Suc k)
  then obtain y zs where ys: "ys = y # zs" by (cases ys) auto
  let ?h = "set_next y None (set_prev y None h)"
  have "linked ?h (zs @ [Fake_Tail]) = linked h (zs @ [Fake_Tail])"
    by (rule linked_frame_left) (use Suc.prems(2) ys in auto)
  then have l: "linked ?h (zs @ [Fake_Tail])" using Suc.prems(1) linked_tl [of h y] ys by simp
  have "nxt h y = Some (hd (zs @ [Fake_Tail]))" using Suc.prems(1) ys by (cases zs) auto
  then show ?case using Suc.IH [OF l] Suc.prems ys by (simp add: clear_links_Cons)
qed

lemma popleft_n_enough:
  assumes r: "repr q xs" and n: "n \<le> length xs"
  shows "\<exists>q'. popleft_n n q = Ok (take n xs, q') \<and> repr q' (drop n xs)"
proof (cases "n = 0")
  case False
  obtain c qs where qs: "drop n xs @ [Fake_Tail] = c # qs" by (cases "drop n xs") auto
  then have c: "hd (drop n xs @ [Fake_Tail]) = c" by simp
  let ?hc = "clear_links (take n xs) (heap q)"
  let ?h = "set_prev c (Some Fake_Head) (set_next Fake_Head (Some c) ?hc)"
  let ?q = "q\<lparr>heap := ?h, num_free_blocks := num_free_blocks q - int n\<rparr>"
  note R = reprD [OF r]
  have l: "linked (heap q) (xs @ [Fake_Tail])"
    using R(1) linked_tl [of _ Fake_Head] by (simp add: chain_def)
  have pop: "popleft_n n q = Ok (take n xs, ?q)"
    using popleft_n_loop_linked [OF l _ n] R(2,9) n False repr_head [OF r] c
    by (simp add: popleft_n_def chain_def Let_def)
  have ds: "distinct (drop n xs)" "Fake_Tail \<notin> set (drop n xs)" "Fake_Head \<notin> set (drop n xs)"
    using R(3-5) by (auto dest: in_set_dropD)
  have disj: "x \<notin> set (take n xs)" "x \<noteq> Fake_Head" if "x \<in> set (c # qs)" for x
    using that R(3,5) ds(3) set_take_disj_set_drop_if_distinct [of xs n n]
    unfolding qs [symmetric] by (auto dest: in_set_takeD)
  have d: "distinct (c # qs)" using ds by (simp flip: qs)
  have "linked ?h (c # qs) = linked (heap q) (c # qs)"
    by (rule linked_frame_right) (use disj d in \<open>auto simp: clear_links_sel\<close>)
  moreover have "linked (heap q) (c # qs)"
    using l linked_append [of "heap q" "take n xs" c qs] qs by (metis append.assoc append_take_drop_id)
  ultimately have lk: "linked ?h (chain (drop n xs))"
    using disj R(4) by (auto simp: chain_def qs clear_links_sel)
  have "set (c # qs) = insert Fake_Tail (set (drop n xs))" by (simp flip: qs)
  moreover have "x \<in> set xs \<longleftrightarrow> x \<in> set (take n xs) \<or> x \<in> set (drop n xs)" for x
    by (metis Un_iff append_take_drop_id set_append)
  ultimately have "repr ?q (drop n xs)"
    using lk ds R(4-9) n disj unfolding repr_def
    by (auto simp: clear_links_sel chain_def)
  with pop show ?thesis by blast
qed (use r in \<open>simp add: popleft_n_def\<close>)

lemma popleft_n_short:
  assumes r: "repr q xs" and n: "length xs < n"
  shows "popleft_n n q = Err AssertionError"
  using n reprD(9) [OF r] by (auto simp: popleft_n_def)

subsubsection \<open>Removing, appending, prepending\<close>

lemma repr_neighbours:
  assumes "repr q (xs @ b # ys)"
  shows "prv (heap q) b = Some (last (Fake_Head # xs))" "nxt (heap q) b = Some (hd (ys @ [Fake_Tail]))"
proof -
  obtain ps a c qs where ac: "a = last (Fake_Head # xs)" "c = hd (ys @ [Fake_Tail])"
    and ch: "\<And>ms. chain (xs @ ms @ ys) = ps @ a # ms @ c # qs"
    using chain_cut [of xs ys] by metis
  then have "linked (heap q) (a # b # c # qs)"
    using reprD(1) [OF assms] ch [of "[b]"] linked_append [of "heap q" ps a "b # c # qs"] by simp
  then show "prv (heap q) b = Some (last (Fake_Head # xs))"
    "nxt (heap q) b = Some (hd (ys @ [Fake_Tail]))" unfolding ac [symmetric] by simp_all
qed

lemma remove_block_member:
  assumes r: "repr q xs" and b: "b \<in> set xs"
  shows "\<exists>q'. remove_block b q = Ok q' \<and> repr q' (remove1 b xs)"
proof -
  obtain us vs where xs: "xs = us @ b # vs" "b \<notin> set us" using b split_list_first by metis
  have "remove_block b q = Ok (q\<lparr>heap := unlink (last (Fake_Head # us)) b (hd (vs @ [Fake_Tail])) (heap q),
      num_free_blocks := num_free_blocks q - 1\<rparr>)"
    using repr_neighbours [of q us b vs] r xs by (simp add: remove_block_def Let_def unlink_def)
  moreover have "remove1 b xs = us @ vs" using xs by (simp add: remove1_append)
  ultimately show ?thesis using repr_unlink r xs by metis
qed

lemma remove_block_absent:
  assumes r: "repr q xs" and b: "b \<notin> set xs"
  shows "remove_block b q = Err RuntimeError"
proof -
  have "prv (heap q) b = None \<or> nxt (heap q) b = None"
    using b reprD(6-8) [OF r] by (cases "b \<in> set (chain xs)") (auto simp: chain_def)
  then show ?thesis by (auto simp: remove_block_def Let_def split: option.splits)
qed

lemma append_n_repr:
  assumes r: "repr q xs" and d: "distinct (xs @ bs)"
    and s: "Fake_Head \<notin> set bs" "Fake_Tail \<notin> set bs"
  shows "\<exists>q'. append_n bs q = Ok q' \<and> repr q' (xs @ bs)"
proof (cases "bs = []")
  case False
  obtain h1 l where t: "thread_blocks bs (last (Fake_Head # xs)) (heap q) = (h1, l)"
    by (cases "thread_blocks bs (last (Fake_Head # xs)) (heap q)")
  let ?h = "set_prev Fake_Tail (Some l) (set_next l (Some Fake_Tail) h1)"
  have "append_n bs q = Ok (q\<lparr>heap := ?h, num_free_blocks := num_free_blocks q + int (length bs)\<rparr>)"
    using False repr_tail [OF r] t by (simp add: append_n_def)
  moreover have "repr (q\<lparr>heap := ?h, num_free_blocks := num_free_blocks q + int (length bs)\<rparr>) (xs @ bs)"
    using repr_insert [of q xs "[]" bs h1 l ?h] r d s t by simp
  ultimately show ?thesis by blast
qed (use r in \<open>simp add: append_n_def\<close>)

lemma append_block_is_append_n:
  "repr q xs \<Longrightarrow> append_block b q = append_n [b] q"
  using repr_tail [of q xs]
  by (auto simp: append_block_def append_n_def Let_def set_next_def set_prev_def fun_eq_iff)

lemma append_block_repr:
  "repr q xs \<Longrightarrow> b \<notin> set xs \<Longrightarrow> b \<noteq> Fake_Head \<Longrightarrow> b \<noteq> Fake_Tail \<Longrightarrow>
   \<exists>q'. append_block b q = Ok q' \<and> repr q' (xs @ [b])"
  using append_n_repr [of q xs "[b]"] append_block_is_append_n [of q xs b] reprD(3) [of q xs] by simp

lemma prepend_n_repr:
  assumes r: "repr q xs" and d: "distinct (bs @ xs)"
    and s: "Fake_Head \<notin> set bs" "Fake_Tail \<notin> set bs"
  shows "\<exists>q'. prepend_n bs q = Ok q' \<and> repr q' (bs @ xs)"
proof (cases "bs = []")
  case False
  obtain h1 l where t: "thread_blocks bs Fake_Head (heap q) = (h1, l)"
    by (cases "thread_blocks bs Fake_Head (heap q)")
  let ?c = "hd (xs @ [Fake_Tail])"
  let ?h = "set_prev ?c (Some l) (set_next l (Some ?c) h1)"
  have "prepend_n bs q = Ok (q\<lparr>heap := ?h, num_free_blocks := num_free_blocks q + int (length bs)\<rparr>)"
    using False repr_head [OF r] t by (simp add: prepend_n_def)
  moreover have "repr (q\<lparr>heap := ?h, num_free_blocks := num_free_blocks q + int (length bs)\<rparr>) (bs @ xs)"
    using repr_insert [of q "[]" xs bs h1 l ?h] r d s t by simp
  ultimately show ?thesis by blast
qed (use r in \<open>simp add: prepend_n_def\<close>)

subsubsection \<open>Traversals\<close>

lemma free_blocks_loop_linked:
  "linked h (ys @ [Fake_Tail]) \<Longrightarrow> nxt h Fake_Tail = None \<Longrightarrow>
   free_blocks_loop h (hd (ys @ [Fake_Tail])) ret = Some (ret @ ys)"
proof (induction ys arbitrary: ret)
  case (Cons y ys)
  have "nxt h y = Some (hd (ys @ [Fake_Tail]))" "linked h (ys @ [Fake_Tail])"
    using Cons.prems(1) by (cases ys; auto)+
  then show ?case using Cons.IH Cons.prems(2) by (simp add: free_blocks_loop.simps [of h y])
qed (simp add: free_blocks_loop.simps)

lemma get_all_free_blocks_repr: "repr q xs \<Longrightarrow> get_all_free_blocks q = Some (Ok xs)"
  using free_blocks_loop_linked [of "heap q" xs "[]"] linked_tl [of "heap q" Fake_Head]
    repr_head [of q xs] reprD(1,7) [of q xs]
  by (simp add: get_all_free_blocks_def chain_def)

lemma iter_blocks_loop_linked:
  "linked h (ys @ [Fake_Tail]) \<Longrightarrow> Fake_Tail \<notin> set ys \<Longrightarrow>
   iter_blocks_loop h (Some (hd (ys @ [Fake_Tail]))) ret = Some (ret @ ys)"
proof (induction ys arbitrary: ret)
  case (Cons y ys)
  have "nxt h y = Some (hd (ys @ [Fake_Tail]))" "linked h (ys @ [Fake_Tail])"
    using Cons.prems(1) by (cases ys; auto)+
  then show ?case using Cons by (auto simp: iter_blocks_loop.simps [of h "Some y"])
qed (simp add: iter_blocks_loop.simps)

lemma iter_blocks_after_repr:
  assumes r: "repr q (xs @ b # ys)"
  shows "iter_blocks_after q (Some b) = Some ys"
proof -
  have "linked (heap q) ((Fake_Head # xs) @ b # ys @ [Fake_Tail])"
    using reprD(1) [OF r] by (simp add: chain_def)
  then have "linked (heap q) (ys @ [Fake_Tail])"
    using linked_append [of "heap q" "Fake_Head # xs" b "ys @ [Fake_Tail]"] linked_tl by blast
  then show ?thesis
    using iter_blocks_loop_linked repr_neighbours(2) [OF r] reprD(5) [OF r]
    by (simp add: iter_blocks_after_def)
qed

lemma iter_blocks_after_start: "repr q xs \<Longrightarrow> iter_blocks_after q None = Some xs"
  using iter_blocks_loop_linked [of "heap q" xs "[]"] linked_tl [of "heap q" Fake_Head]
    repr_head [of q xs] reprD(1,5) [of q xs]
  by (simp add: iter_blocks_after_def chain_def)

subsubsection \<open>Construction\<close>

lemma linked_nth:
  "linked h ps \<longleftrightarrow>
   (\<forall>i. Suc i < length ps \<longrightarrow> nxt h (ps ! i) = Some (ps ! Suc i) \<and> prv h (ps ! Suc i) = Some (ps ! i))"
proof (induction h ps rule: linked.induct)
  case (1 h a b ps)
  show ?case
    unfolding linked.simps 1 by (auto simp: nth_Cons split: nat.splits)
qed auto

lemma link_step_sel:
  "nxt (link_step bs i h) x =
     (if x = bs ! i \<and> i < length bs - 1 then Some (bs ! (i + 1)) else nxt h x)"
  "prv (link_step bs i h) x =
     (if x = bs ! i \<and> i > 0 then Some (bs ! (i - 1)) else prv h x)"
  "payload (link_step bs i h x) = payload (h x)"
  by (auto simp: link_step_def Let_def)

lemma link_fold_sel:
  assumes "distinct bs" and "k \<le> length bs" and "i < length bs"
  shows "nxt (fold (link_step bs) [0..<k] h) (bs ! i) =
           (if i < k \<and> i < length bs - 1 then Some (bs ! Suc i) else nxt h (bs ! i))"
    and "prv (fold (link_step bs) [0..<k] h) (bs ! i) =
           (if i < k \<and> 0 < i then Some (bs ! (i - 1)) else prv h (bs ! i))"
  using assms(2)
  by (induction k) (auto simp: link_step_sel nth_eq_iff_index_eq assms(1,3) less_Suc_eq)

lemma link_fold_frame:
  assumes "x \<notin> set bs" and "k \<le> length bs"
  shows "nxt (fold (link_step bs) [0..<k] h) x = nxt h x"
    and "prv (fold (link_step bs) [0..<k] h) x = prv h x"
  using assms(2) by (induction k) (use assms(1) in \<open>auto simp: link_step_sel\<close>)

text \<open>On freshly created blocks (cleared pointers) the constructor represents its argument.\<close>

lemma queue_init_repr:
  assumes d: "distinct bs" and s: "Fake_Head \<notin> set bs" "Fake_Tail \<notin> set bs"
    and fresh: "\<And>b. b \<noteq> Fake_Head \<Longrightarrow> b \<noteq> Fake_Tail \<Longrightarrow> prv h b = None \<and> nxt h b = None"
  shows "repr (queue_init h bs) bs"
proof (cases "bs = []")
  case True
  then show ?thesis
    using fresh by (auto simp: repr_def queue_init_def Let_def chain_def new_block_def)
next
  case False
  let ?n = "length bs"
  let ?h1 = "fold (link_step bs) [0..<?n] h"
  let ?q = "queue_init h bs"
  have n: "hd bs = bs ! 0" "last bs = bs ! (?n - 1)" "0 < ?n"
    using False by (simp_all add: hd_conv_nth last_conv_nth)
  have inj: "bs ! i = bs ! j \<longleftrightarrow> i = j" if "i < ?n" "j < ?n" for i j
    using d that by (simp add: nth_eq_iff_index_eq)
  have ends: "bs ! i \<noteq> Fake_Head" "bs ! i \<noteq> Fake_Tail" if "i < ?n" for i
    using s that nth_mem by metis+
  have hq: "nxt (heap ?q) x = (if x = last bs then Some Fake_Tail else if x = Fake_Head then Some (hd bs)
        else if x = Fake_Tail then None else nxt ?h1 x)"
      "prv (heap ?q) x = (if x = Fake_Tail then Some (last bs) else if x = hd bs then Some Fake_Head
        else if x = Fake_Head then None else prv ?h1 x)" for x
    using False s last_in_set [OF False] hd_in_set [OF False]
    by (auto simp: queue_init_def Let_def new_block_def)
  have ne: "last bs \<noteq> Fake_Head" "hd bs \<noteq> Fake_Tail"
    using s last_in_set [OF False] hd_in_set [OF False] by metis+
  note fold_sel = link_fold_sel [OF d, of ?n, OF le_refl]
  have nx: "nxt (heap ?q) (bs ! i) = Some ((bs @ [Fake_Tail]) ! Suc i)"
    and pv: "prv (heap ?q) (bs ! i) = Some ((Fake_Head # bs) ! i)" if "i < ?n" for i
    using that n inj ends fold_sel by (auto simp: hq nth_append nth_Cons' less_Suc_eq)
  have "nxt (heap ?q) Fake_Head = Some (bs ! 0)" "prv (heap ?q) Fake_Tail = Some (bs ! (?n - 1))"
    using ne n(1,2) by (auto simp: hq)
  then have "linked (heap ?q) (chain bs)"
    unfolding linked_nth chain_def using nx pv n(3)
    by (auto simp: nth_append nth_Cons' less_Suc_eq)
  moreover have "prv (heap ?q) Fake_Head = None" "nxt (heap ?q) Fake_Tail = None"
    using s hd_in_set [OF False] last_in_set [OF False] by (auto simp: hq)
  moreover have "prv (heap ?q) b = None \<and> nxt (heap ?q) b = None" if "b \<notin> set (chain bs)" for b
    using that fresh link_fold_frame [of b bs ?n h] hd_in_set [OF False] last_in_set [OF False]
    by (auto simp: hq chain_def)
  moreover have "num_free_blocks ?q = int ?n" by (simp add: queue_init_def Let_def)
  ultimately show ?thesis unfolding repr_def using d s by blast
qed

section \<open>The contract of the free queue\<close>

text \<open>What a block pool may rely on.  \<open>holds q xs\<close> says that the queue contains the
  blocks \<open>xs\<close> in eviction order; \<open>real\<close> tells blocks from sentinels.\<close>

locale free_queue =
  fixes holds :: "'q \<Rightarrow> 'b list \<Rightarrow> bool"
    and real_block :: "'b \<Rightarrow> bool"
    and pop :: "'q \<Rightarrow> ('b \<times> 'q) res"
    and pop_n :: "nat \<Rightarrow> 'q \<Rightarrow> ('b list \<times> 'q) res"
    and rem :: "'b \<Rightarrow> 'q \<Rightarrow> 'q res"
    and app :: "'b \<Rightarrow> 'q \<Rightarrow> 'q res"
    and app_n :: "'b list \<Rightarrow> 'q \<Rightarrow> 'q res"
    and pre_n :: "'b list \<Rightarrow> 'q \<Rightarrow> 'q res"
  assumes holds_distinct: "holds q xs \<Longrightarrow> distinct xs"
    and holds_real: "holds q xs \<Longrightarrow> x \<in> set xs \<Longrightarrow> real_block x"
    and pop_Nil: "holds q [] \<Longrightarrow> pop q = Err ValueError"
    and pop_Cons: "holds q (x # xs) \<Longrightarrow> \<exists>q'. pop q = Ok (x, q') \<and> holds q' xs"
    and pop_n_ok: "holds q xs \<Longrightarrow> n \<le> length xs \<Longrightarrow>
      \<exists>q'. pop_n n q = Ok (take n xs, q') \<and> holds q' (drop n xs)"
    and pop_n_err: "holds q xs \<Longrightarrow> length xs < n \<Longrightarrow> pop_n n q = Err AssertionError"
    and rem_ok: "holds q xs \<Longrightarrow> b \<in> set xs \<Longrightarrow> \<exists>q'. rem b q = Ok q' \<and> holds q' (remove1 b xs)"
    and rem_err: "holds q xs \<Longrightarrow> b \<notin> set xs \<Longrightarrow> rem b q = Err RuntimeError"
    and app_ok: "holds q xs \<Longrightarrow> b \<notin> set xs \<Longrightarrow> real_block b \<Longrightarrow>
      \<exists>q'. app b q = Ok q' \<and> holds q' (xs @ [b])"
    and app_n_ok: "holds q xs \<Longrightarrow> distinct (xs @ bs) \<Longrightarrow> (\<And>b. b \<in> set bs \<Longrightarrow> real_block b) \<Longrightarrow>
      \<exists>q'. app_n bs q = Ok q' \<and> holds q' (xs @ bs)"
    and pre_n_ok: "holds q xs \<Longrightarrow> distinct (bs @ xs) \<Longrightarrow> (\<And>b. b \<in> set bs \<Longrightarrow> real_block b) \<Longrightarrow>
      \<exists>q'. pre_n bs q = Ok q' \<and> holds q' (bs @ xs)"
begin

text \<open>Giving popped blocks back at the front undoes the allocation.\<close>

lemma pop_prepend_restores:
  assumes h: "holds q xs" and n: "n \<le> length xs"
  shows "\<exists>q1 q2. pop_n n q = Ok (take n xs, q1) \<and> pre_n (take n xs) q1 = Ok q2 \<and> holds q2 xs"
proof -
  obtain q1 where q1: "pop_n n q = Ok (take n xs, q1)" "holds q1 (drop n xs)"
    using pop_n_ok [OF h n] by blast
  have "\<exists>q2. pre_n (take n xs) q1 = Ok q2 \<and> holds q2 (take n xs @ drop n xs)"
    by (rule pre_n_ok [OF q1(2)]) (use holds_distinct [OF h] holds_real [OF h] in \<open>auto dest: in_set_takeD\<close>)
  with q1(1) show ?thesis by auto
qed

text \<open>Freed blocks are evicted after every block that was already free, in the order given.\<close>

lemma freed_last:
  assumes h: "holds q xs" and d: "distinct (xs @ bs)" and rb: "\<And>b. b \<in> set bs \<Longrightarrow> real_block b"
  shows "\<exists>q1 q2 q3. app_n bs q = Ok q1 \<and> pop_n (length xs) q1 = Ok (xs, q2) \<and>
           pop_n (length bs) q2 = Ok (bs, q3) \<and> holds q3 []"
proof -
  obtain q1 where q1: "app_n bs q = Ok q1" "holds q1 (xs @ bs)" using app_n_ok [OF h d rb] by blast
  obtain q2 where q2: "pop_n (length xs) q1 = Ok (xs, q2)" "holds q2 bs"
    using pop_n_ok [OF q1(2), of "length xs"] by auto
  show ?thesis using pop_n_ok [OF q2(2), of "length bs"] q1 q2 by auto
qed

text \<open>A block taken out of the middle and freed again becomes the most recently used.\<close>

lemma touch_refreshes:
  assumes h: "holds q xs" and b: "b \<in> set xs"
  shows "\<exists>q1 q2. rem b q = Ok q1 \<and> app b q1 = Ok q2 \<and> holds q2 (remove1 b xs @ [b])"
proof -
  obtain q1 where q1: "rem b q = Ok q1" "holds q1 (remove1 b xs)" using rem_ok [OF h b] by blast
  then show ?thesis using app_ok [OF q1(2), of b] holds_distinct [OF h] holds_real [OF h b] by auto
qed

end

definition is_real :: "addr \<Rightarrow> bool" where
  "is_real b \<longleftrightarrow> b \<noteq> Fake_Head \<and> b \<noteq> Fake_Tail"

interpretation fbq: free_queue repr is_real popleft popleft_n remove_block append_block append_n prepend_n
proof
  fix q xs x assume "repr q xs" "x \<in> set xs"
  then show "is_real x" using reprD(4,5) by (auto simp: is_real_def)
qed (use popleft_Nil popleft_Cons popleft_n_enough popleft_n_short remove_block_member
      remove_block_absent append_block_repr append_n_repr prepend_n_repr reprD(3)
    in \<open>(auto simp: is_real_def; metis)\<close>)+

section \<open>A pool of blocks over the queue\<close>

text \<open>The states a pool can reach: it starts with every block free, takes blocks with
  \<^verbatim>\<open>popleft\<close>, \<^verbatim>\<open>popleft_n\<close> or (on a prefix-cache hit) \<^verbatim>\<open>remove\<close>, and gives back only
  blocks it holds.\<close>

inductive pool_reach :: "heap \<Rightarrow> addr list \<Rightarrow> queue \<Rightarrow> addr set \<Rightarrow> bool" for h bs where
  start: "pool_reach h bs (queue_init h bs) {}"
| take_one: "pool_reach h bs q held \<Longrightarrow> popleft q = Ok (b, q') \<Longrightarrow> pool_reach h bs q' (insert b held)"
| take_many: "pool_reach h bs q held \<Longrightarrow> popleft_n n q = Ok (ys, q') \<Longrightarrow>
    pool_reach h bs q' (set ys \<union> held)"
| touch: "pool_reach h bs q held \<Longrightarrow> remove_block b q = Ok q' \<Longrightarrow> pool_reach h bs q' (insert b held)"
| free_one: "pool_reach h bs q held \<Longrightarrow> b \<in> held \<Longrightarrow> append_block b q = Ok q' \<Longrightarrow>
    pool_reach h bs q' (held - {b})"
| free_many: "pool_reach h bs q held \<Longrightarrow> set ys \<subseteq> held \<Longrightarrow> distinct ys \<Longrightarrow> append_n ys q = Ok q' \<Longrightarrow>
    pool_reach h bs q' (held - set ys)"
| free_front: "pool_reach h bs q held \<Longrightarrow> set ys \<subseteq> held \<Longrightarrow> distinct ys \<Longrightarrow> prepend_n ys q = Ok q' \<Longrightarrow>
    pool_reach h bs q' (held - set ys)"

definition pool_inv :: "addr list \<Rightarrow> queue \<Rightarrow> addr set \<Rightarrow> bool" where
  "pool_inv bs q held \<longleftrightarrow>
     (\<exists>xs. repr q xs \<and> set xs \<inter> held = {} \<and> set xs \<union> held = set bs)"

text \<open>No queue operation writes anything but the two link fields.\<close>

lemma payload_popleft: "popleft q = Ok (b, q') \<Longrightarrow> payload (heap q' x) = payload (heap q x)"
  by (auto simp: popleft_def Let_def bindE_eq_Inr_iff split: option.splits if_splits)

lemma payload_popleft_n_loop:
  "popleft_n_loop k h c ret = Ok (h', c', ret') \<Longrightarrow> payload (h' x) = payload (h x)"
  by (induction k h c ret rule: popleft_n_loop.induct) (auto split: option.splits)

lemma payload_popleft_n: "popleft_n n q = Ok (ys, q') \<Longrightarrow> payload (heap q' x) = payload (heap q x)"
  by (auto simp: popleft_n_def Let_def bindE_eq_Inr_iff dest!: payload_popleft_n_loop [where x = x]
      split: option.splits if_splits)

lemma payload_remove: "remove_block b q = Ok q' \<Longrightarrow> payload (heap q' x) = payload (heap q x)"
  by (auto simp: remove_block_def Let_def split: option.splits)

lemma payload_append: "append_block b q = Ok q' \<Longrightarrow> payload (heap q' x) = payload (heap q x)"
  by (auto simp: append_block_def Let_def split: option.splits)

lemma payload_append_n: "append_n ys q = Ok q' \<Longrightarrow> payload (heap q' x) = payload (heap q x)"
  by (auto simp: append_n_def Let_def thread_blocks_frame(3) split: option.splits if_splits prod.splits)

lemma payload_prepend_n: "prepend_n ys q = Ok q' \<Longrightarrow> payload (heap q' x) = payload (heap q x)"
  by (auto simp: prepend_n_def Let_def thread_blocks_frame(3) split: option.splits if_splits prod.splits)

lemma payload_queue_init:
  assumes "is_real x" shows "payload (heap (queue_init h bs) x) = payload (h x)"
proof -
  have "payload (fold (link_step bs) is g x) = payload (g x)" for "is" g
    by (induction "is" arbitrary: g) (auto simp: link_step_sel(3))
  then show ?thesis using assms by (simp add: queue_init_def Let_def is_real_def)
qed

lemmas payload_ops = payload_popleft payload_popleft_n payload_remove payload_append
  payload_append_n payload_prepend_n

lemma pool_reach_payload:
  "pool_reach h bs q held \<Longrightarrow> is_real x \<Longrightarrow> payload (heap q x) = payload (h x)"
  by (induction rule: pool_reach.induct) (auto simp: payload_queue_init payload_ops)

lemma pool_invD: "pool_inv bs q held \<Longrightarrow> (\<And>xs. repr q xs \<Longrightarrow> set xs \<inter> held = {} \<Longrightarrow>
    set xs \<union> held = set bs \<Longrightarrow> thesis) \<Longrightarrow> thesis"
  by (auto simp: pool_inv_def)

lemma pool_inv_popleft:
  assumes "pool_inv bs q held" and "popleft q = Ok (b, q')"
  shows "pool_inv bs q' (insert b held)"
proof -
  obtain xs where xs: "repr q xs" "set xs \<inter> held = {}" "set xs \<union> held = set bs"
    using pool_invD [OF assms(1)] by blast
  then obtain y ys where ys: "xs = y # ys" using assms(2) popleft_Nil by (cases xs) auto
  then have "b = y" "repr q' ys" using popleft_Cons [of q y ys] xs(1) assms(2) by auto
  then show ?thesis unfolding pool_inv_def using xs ys reprD(3) [OF xs(1)] by (intro exI [of _ ys]) auto
qed

lemma pool_inv_popleft_n:
  assumes "pool_inv bs q held" and "popleft_n n q = Ok (ys, q')"
  shows "pool_inv bs q' (set ys \<union> held)"
proof -
  obtain xs where xs: "repr q xs" "set xs \<inter> held = {}" "set xs \<union> held = set bs"
    using pool_invD [OF assms(1)] by blast
  have n: "n \<le> length xs" using popleft_n_short [OF xs(1), of n] assms(2) by (cases "n \<le> length xs") auto
  have ys: "ys = take n xs" "repr q' (drop n xs)" using popleft_n_enough [OF xs(1) n] assms(2) by auto
  have "set xs = set (take n xs) \<union> set (drop n xs)" by (metis append_take_drop_id set_append)
  moreover have "set (take n xs) \<inter> set (drop n xs) = {}"
    using set_take_disj_set_drop_if_distinct [OF reprD(3) [OF xs(1)]] by blast
  ultimately show ?thesis unfolding pool_inv_def using xs(2,3) ys by (intro exI [of _ "drop n xs"]) auto
qed

lemma pool_inv_remove:
  assumes "pool_inv bs q held" and "remove_block b q = Ok q'"
  shows "pool_inv bs q' (insert b held)"
proof -
  obtain xs where xs: "repr q xs" "set xs \<inter> held = {}" "set xs \<union> held = set bs"
    using pool_invD [OF assms(1)] by blast
  have b: "b \<in> set xs" using remove_block_absent [OF xs(1)] assms(2) by fastforce
  have "repr q' (remove1 b xs)" using remove_block_member [OF xs(1) b] assms(2) by auto
  then show ?thesis unfolding pool_inv_def using xs b reprD(3) [OF xs(1)]
    by (intro exI [of _ "remove1 b xs"]) (auto simp: set_remove1_eq)
qed

lemma pool_inv_give_back:
  assumes "pool_inv bs q held" and "set ys \<subseteq> held" and "distinct ys" and "\<forall>b\<in>set bs. is_real b"
  shows "append_n ys q = Ok q' \<Longrightarrow> pool_inv bs q' (held - set ys)"
    and "prepend_n ys q = Ok q' \<Longrightarrow> pool_inv bs q' (held - set ys)"
    and "ys = [b] \<Longrightarrow> append_block b q = Ok q' \<Longrightarrow> pool_inv bs q' (held - set ys)"
proof -
  obtain xs where xs: "repr q xs" "set xs \<inter> held = {}" "set xs \<union> held = set bs"
    using pool_invD [OF assms(1)] by blast
  have d: "distinct (xs @ ys)" "distinct (ys @ xs)" and s: "Fake_Head \<notin> set ys" "Fake_Tail \<notin> set ys"
    using assms(2-4) xs reprD(3) [OF xs(1)] by (auto simp: is_real_def)
  have inv: "pool_inv bs q' (held - set ys)" if "repr q' zs" "set zs = set xs \<union> set ys" for zs
    unfolding pool_inv_def using that xs(2,3) assms(2) d by (intro exI [of _ zs]) auto
  show *: "pool_inv bs q' (held - set ys)" if "append_n ys q = Ok q'"
    using append_n_repr [OF xs(1) d(1) s] that inv by auto
  show "pool_inv bs q' (held - set ys)" if "prepend_n ys q = Ok q'"
    using prepend_n_repr [OF xs(1) d(2) s] that inv [of "ys @ xs"] by (auto simp: Un_commute)
  show "pool_inv bs q' (held - set ys)" if "ys = [b]" "append_block b q = Ok q'"
    using * append_block_is_append_n [OF xs(1)] that by simp
qed

lemma pool_reach_inv:
  assumes "pool_reach h bs q held" and "distinct bs" and "\<forall>b\<in>set bs. is_real b"
    and "\<forall>b. is_real b \<longrightarrow> prv h b = None \<and> nxt h b = None"
  shows "pool_inv bs q held"
  using assms(1)
proof (induction rule: pool_reach.induct)
  case start
  have "repr (queue_init h bs) bs"
    by (rule queue_init_repr) (use assms(2-4) in \<open>auto simp: is_real_def\<close>)
  then show ?case by (auto simp: pool_inv_def)
next
  case (free_one q held b q')
  then show ?case using pool_inv_give_back(3) [of bs q held "[b]" b q'] assms(3) by simp
qed (auto intro: pool_inv_popleft pool_inv_popleft_n pool_inv_remove
      pool_inv_give_back(1,2) [OF _ _ _ assms(3)])

section \<open>Properties\<close>

text \<open>Three fresh blocks, the concrete pool of the witnesses.\<close>

definition demo_heap :: heap where
  "demo_heap a = new_block (case a of Block n \<Rightarrow> int n | _ \<Rightarrow> -1)"

definition demo_blocks :: "addr list" where
  "demo_blocks = [Block 0, Block 1, Block 2]"

lemma demo_fresh: "prv demo_heap b = None" "nxt demo_heap b = None"
  by (simp_all add: demo_heap_def new_block_def)

lemma demo_blocks_ok: "distinct demo_blocks" "\<forall>b\<in>set demo_blocks. is_real b"
  by (simp_all add: demo_blocks_def is_real_def)

lemma demo_repr: "repr (queue_init demo_heap demo_blocks) demo_blocks"
  by (rule queue_init_repr) (auto simp: demo_fresh demo_blocks_def)

text \<open>C6: no block is ever lost, duplicated or handed out twice.  In every state a pool
  reaches by taking blocks and giving back held ones, the traversal of the free list
  terminates and returns a duplicate-free list that partitions the pool's blocks with the
  held ones; the counter equals its length; and no block's id, reference count, hash or
  null flag was touched.\<close>

theorem pool_partition:
  assumes "pool_reach h bs q held" and "distinct bs" and "\<forall>b\<in>set bs. is_real b"
    and "\<forall>b. is_real b \<longrightarrow> prv h b = None \<and> nxt h b = None"
  shows "\<exists>xs. get_all_free_blocks q = Some (Ok xs) \<and> distinct xs \<and> set xs \<inter> held = {} \<and>
           set xs \<union> held = set bs \<and> num_free_blocks q = int (length xs) \<and>
           (\<forall>x. is_real x \<longrightarrow> payload (heap q x) = payload (h x))"
proof -
  obtain xs where xs: "repr q xs" "set xs \<inter> held = {}" "set xs \<union> held = set bs"
    using pool_reach_inv [OF assms] pool_invD by blast
  then show ?thesis
    using get_all_free_blocks_repr [OF xs(1)] reprD(3,9) [OF xs(1)] pool_reach_payload [OF assms(1)]
    by blast
qed

theorem pool_partition_witness:
  "\<exists>q q'. popleft_n 2 (queue_init demo_heap demo_blocks) = Ok ([Block 0, Block 1], q) \<and>
     append_block (Block 0) q = Ok q' \<and>
     (\<exists>xs. get_all_free_blocks q' = Some (Ok xs) \<and> set xs \<union> {Block 1} = set demo_blocks \<and>
        Block 1 \<notin> set xs)"
proof -
  obtain q where q: "popleft_n 2 (queue_init demo_heap demo_blocks) = Ok ([Block 0, Block 1], q)"
      "repr q [Block 2]"
    using popleft_n_enough [OF demo_repr, of 2] by (auto simp: demo_blocks_def)
  obtain q' where q': "append_block (Block 0) q = Ok q'"
    using append_block_repr [OF q(2), of "Block 0"] by auto
  have "pool_reach demo_heap demo_blocks q {Block 0, Block 1}"
    using pool_reach.take_many [OF pool_reach.start q(1)] by simp
  then have "pool_reach demo_heap demo_blocks q' ({Block 0, Block 1} - {Block 0})"
    by (rule pool_reach.free_one [OF _ _ q']) simp
  then have "pool_reach demo_heap demo_blocks q' {Block 1}" by (simp add: insert_Diff_if)
  from pool_partition [OF this] have "\<exists>xs. get_all_free_blocks q' = Some (Ok xs) \<and>
      set xs \<union> {Block 1} = set demo_blocks \<and> Block 1 \<notin> set xs"
    using demo_blocks_ok demo_fresh by auto
  with q(1) q' show ?thesis by blast
qed

text \<open>C24: \<^verbatim>\<open>popleft_n\<close> hands out exactly the \<open>n\<close> least recently used blocks, in eviction
  order, and leaves the others in place; with fewer than \<open>n\<close> free blocks it raises and with
  none left \<^verbatim>\<open>popleft\<close> raises \<^verbatim>\<open>ValueError\<close>.\<close>

theorem popleft_n_takes_lru:
  assumes "repr q xs"
  shows "if n \<le> length xs
         then \<exists>q'. popleft_n n q = Ok (take n xs, q') \<and> repr q' (drop n xs) \<and>
                   (n = length xs \<longrightarrow> popleft q' = Err ValueError)
         else popleft_n n q = Err AssertionError"
  using popleft_n_enough [OF assms, of n] popleft_n_short [OF assms, of n] popleft_Nil by auto

theorem popleft_n_takes_lru_witness:
  "(\<exists>q'. popleft_n 2 (queue_init demo_heap demo_blocks) = Ok ([Block 0, Block 1], q') \<and> repr q' [Block 2]) \<and>
   popleft_n 4 (queue_init demo_heap demo_blocks) = Err AssertionError"
  using popleft_n_takes_lru [OF demo_repr, of 2] popleft_n_takes_lru [OF demo_repr, of 4]
  by (simp add: demo_blocks_def)

text \<open>C25: \<^verbatim>\<open>remove\<close> takes a free block out of the middle in constant time without disturbing
  the order of the others, and rejects every block that is not in the queue, the sentinels
  included.\<close>

theorem remove_block_exact:
  assumes "repr q xs"
  shows "if b \<in> set xs then \<exists>q'. remove_block b q = Ok q' \<and> repr q' (remove1 b xs)
         else remove_block b q = Err RuntimeError"
  using remove_block_member [OF assms] remove_block_absent [OF assms] by simp

theorem remove_block_exact_witness:
  "(\<exists>q'. remove_block (Block 1) (queue_init demo_heap demo_blocks) = Ok q' \<and>
      repr q' [Block 0, Block 2]) \<and>
   remove_block Fake_Head (queue_init demo_heap demo_blocks) = Err RuntimeError"
  using remove_block_exact [OF demo_repr, of "Block 1"] remove_block_exact [OF demo_repr, of Fake_Head]
  by (simp add: demo_blocks_def)

text \<open>Eviction order.  Blocks freed with \<^verbatim>\<open>append_n\<close> are evicted after every block that
  was free before, and among themselves in the order given.\<close>

theorem freed_blocks_evicted_last:
  assumes "repr q xs" and "distinct (xs @ bs)" and "\<forall>b\<in>set bs. is_real b"
  shows "\<exists>q1 q2 q3. append_n bs q = Ok q1 \<and> popleft_n (length xs) q1 = Ok (xs, q2) \<and>
           popleft_n (length bs) q2 = Ok (bs, q3) \<and> repr q3 []"
  by (rule fbq.freed_last [OF assms(1,2)]) (use assms(3) in blast)

theorem freed_blocks_evicted_last_witness:
  "\<exists>q1 q2 q3. append_n [Block 8, Block 7] (queue_init demo_heap demo_blocks) = Ok q1 \<and>
     popleft_n 3 q1 = Ok (demo_blocks, q2) \<and> popleft_n 2 q2 = Ok ([Block 8, Block 7], q3)"
  using freed_blocks_evicted_last [OF demo_repr, of "[Block 8, Block 7]"]
  by (auto simp: demo_blocks_def is_real_def numeral_3_eq_3 numeral_2_eq_2)

text \<open>C26: an allocation given back with \<^verbatim>\<open>prepend_n\<close> restores the queue exactly.\<close>

theorem popleft_n_prepend_n_restores:
  assumes "repr q xs" and "n \<le> length xs"
  shows "\<exists>q1 q2. popleft_n n q = Ok (take n xs, q1) \<and> prepend_n (take n xs) q1 = Ok q2 \<and> repr q2 xs"
  by (rule fbq.pop_prepend_restores [OF assms])

theorem popleft_n_prepend_n_restores_witness:
  "\<exists>q1 q2. popleft_n 2 (queue_init demo_heap demo_blocks) = Ok ([Block 0, Block 1], q1) \<and>
     prepend_n [Block 0, Block 1] q1 = Ok q2 \<and> repr q2 demo_blocks"
  using popleft_n_prepend_n_restores [OF demo_repr, of 2] by (simp add: demo_blocks_def)

end
