(* ===== verification/Block_Hash.thy ===== *)
theory Block_Hash
  imports Prelude "HOL-Library.Countable"
begin

text \<open>
  Prefix-cache block hashing of \<^verbatim>\<open>overlay/vllm/v1/core/kv_cache_utils.py\<close>: the packing of
  a hash with its group id, the seed of the first block, the extra keys of a block
  (LoRA name, multi-modal inputs, cache salt, prompt embeddings), the chained hasher
  \<^verbatim>\<open>get_request_block_hasher\<close>, and the coarser view \<^verbatim>\<open>BlockHashListWithBlockSize\<close>.

  The hash function is a parameter, as it is in the source.  So is \<open>digest\<close>, the
  \<^verbatim>\<open>hashlib.sha256(tensor_data(\<dots>)).digest()\<close> of a slice of embedding rows, whose
  tensor serialisation is code of another package.
\<close>

section \<open>Hash keys\<close>

type_synonym block_hash = bytes

definition make_block_hash_with_group_id :: "block_hash \<Rightarrow> int \<Rightarrow> bytes res" where
  "make_block_hash_with_group_id bh gid = bindE (to_bytes_be 4 gid) (\<lambda>g. Ok (bh @ g))"

definition get_block_hash :: "bytes \<Rightarrow> block_hash" where
  "get_block_hash key = take (length key - 4) key"

definition get_group_id :: "bytes \<Rightarrow> nat" where
  "get_group_id key = from_bytes_be (drop (length key - 4) key)"

datatype external_block_hash = ExtBytes bytes | ExtInt nat

definition maybe_convert_block_hash :: "bool \<Rightarrow> block_hash \<Rightarrow> external_block_hash" where
  "maybe_convert_block_hash use_int bh =
     (if \<not> use_int then ExtBytes bh else ExtInt (from_bytes_be bh mod 2 ^ 64))"

section \<open>What is hashed\<close>

text \<open>The elements of an extra-key tuple, by their Python type: strings (LoRA names and
  cache salts alike), pairs of a string and an int (multi-modal inputs), bytes (embedding
  digests).\<close>

datatype extra_key = KStr string | KPair string int | KBytes bytes

text \<open>The argument of the hash function: the seed string of \<^verbatim>\<open>init_none_hash\<close>, or the tuple
  of \<^verbatim>\<open>hash_block_tokens\<close>.\<close>

datatype hash_input = HSeed string | HBlock block_hash "int list" "extra_key list option"

type_synonym hash_fn = "hash_input \<Rightarrow> block_hash"

definition DEFAULT_NONE_HASH_SEED :: string where
  "DEFAULT_NONE_HASH_SEED = ''vllm-none-hash''"

text \<open>\<open>env_seed\<close> is \<^verbatim>\<open>os.getenv("PYTHONHASHSEED")\<close>, \<open>non_crypto\<close> says whether the hash
  function is in \<^verbatim>\<open>_NON_CRYPTO_HASH_FUNCTIONS\<close>, \<open>urandom\<close> is \<^verbatim>\<open>os.urandom(32).hex()\<close>.\<close>

definition resolve_none_hash_seed :: "string option \<Rightarrow> bool \<Rightarrow> string \<Rightarrow> string" where
  "resolve_none_hash_seed env_seed non_crypto urandom =
     (case env_seed of
        Some s \<Rightarrow> s
      | None \<Rightarrow> if non_crypto then urandom else DEFAULT_NONE_HASH_SEED)"

definition get_none_hash_seed :: "string option \<Rightarrow> string" where
  "get_none_hash_seed none_hash_seed = or_default DEFAULT_NONE_HASH_SEED none_hash_seed"

text \<open>The pair of module globals after \<^verbatim>\<open>init_none_hash\<close>: \<open>_NONE_HASH_SEED\<close> and \<open>NONE_HASH\<close>.\<close>

definition init_none_hash :: "hash_fn \<Rightarrow> string option \<Rightarrow> bool \<Rightarrow> string \<Rightarrow> string \<times> block_hash" where
  "init_none_hash hash env_seed non_crypto urandom =
     (let seed = resolve_none_hash_seed env_seed non_crypto urandom in (seed, hash (HSeed seed)))"

section \<open>Requests\<close>

record mm_feature =
  mm_identifier :: "string option"
  mm_offset :: nat
  mm_length :: nat

record 'e request =
  mm_features :: "mm_feature list"
  lora_name :: "string option"
  cache_salt :: "string option"
  prompt_embeds :: "'e list option"
  embeds_hashes :: "nat \<times> nat \<rightharpoonup> bytes"
  block_hashes :: "block_hash list"
  all_token_ids :: "int list"

abbreviation num_tokens :: "('e, 'z) request_scheme \<Rightarrow> nat" where
  "num_tokens r \<equiv> length (all_token_ids r)"

section \<open>Extra keys\<close>

abbreviation mm_end :: "mm_feature \<Rightarrow> nat" where
  "mm_end f \<equiv> mm_offset f + mm_length f"

text \<open>The \<^verbatim>\<open>while\<close> loop of \<^verbatim>\<open>_gen_mm_extra_hash_keys\<close>.\<close>

function mm_keys_loop ::
  "mm_feature list \<Rightarrow> nat \<Rightarrow> nat \<Rightarrow> nat \<Rightarrow> extra_key list \<Rightarrow> (extra_key list \<times> int) res" where
  "mm_keys_loop fs start_idx end_idx i keys =
     (if i < length fs then
        (let f = fs ! i in
         case mm_identifier f of
           None \<Rightarrow> Err AssertionError
         | Some ident \<Rightarrow>
             if end_idx > mm_offset f then
               (if start_idx \<ge> mm_end f then mm_keys_loop fs start_idx end_idx (Suc i) keys
                else
                  (let keys' = keys @ [KPair ident (int (mm_offset f) - int start_idx)] in
                   if end_idx \<ge> mm_end f then mm_keys_loop fs start_idx end_idx (Suc i) keys'
                   else Ok (keys', int i)))
             else Ok (keys, int i))
      else Ok (keys, int i))"
  by pat_completeness auto
termination
  by (relation "measure (\<lambda>(fs, s, e, i, keys). length fs - i)") auto

declare mm_keys_loop.simps [simp del]

definition gen_mm_extra_hash_keys ::
  "mm_feature list \<Rightarrow> nat \<Rightarrow> nat \<Rightarrow> int \<Rightarrow> (extra_key list \<times> int) res" where
  "gen_mm_extra_hash_keys fs start_idx end_idx start_mm_idx =
     (if fs = [] then Ok ([], start_mm_idx)
      else if mm_end (last fs) \<le> start_idx then Ok ([], start_mm_idx)
      else if start_mm_idx < 0 then
        bindE (assertE (- start_mm_idx \<le> int (length fs))) (\<lambda>_.
        mm_keys_loop fs start_idx end_idx (nat (int (length fs) + start_mm_idx)) [])
      else mm_keys_loop fs start_idx end_idx (nat start_mm_idx) [])"

definition gen_lora_extra_hash_keys :: "('e, 'z) request_scheme \<Rightarrow> extra_key list" where
  "gen_lora_extra_hash_keys r = (case lora_name r of None \<Rightarrow> [] | Some n \<Rightarrow> [KStr n])"

definition gen_prompt_embeds_extra_hash_keys ::
  "('e list \<Rightarrow> bytes) \<Rightarrow> ('e, 'z) request_scheme \<Rightarrow> nat \<Rightarrow> nat \<Rightarrow> extra_key list \<times> ('e, 'z) request_scheme" where
  "gen_prompt_embeds_extra_hash_keys digest r start_idx end_idx =
     (case prompt_embeds r of
        None \<Rightarrow> ([], r)
      | Some rows \<Rightarrow>
          (case embeds_hashes r (start_idx, end_idx) of
             Some h \<Rightarrow> ([KBytes h], r)
           | None \<Rightarrow>
               (let h = digest (slice start_idx end_idx rows)
                in ([KBytes h], r\<lparr>embeds_hashes := (embeds_hashes r)((start_idx, end_idx) \<mapsto> h)\<rparr>))))"

text \<open>An empty salt is falsy, so it adds no key.\<close>

definition cache_salt_keys :: "('e, 'z) request_scheme \<Rightarrow> nat \<Rightarrow> extra_key list" where
  "cache_salt_keys r start_idx =
     (case cache_salt r of
        Some s \<Rightarrow> if start_idx = 0 \<and> s \<noteq> [] then [KStr s] else []
      | None \<Rightarrow> [])"

definition generate_block_hash_extra_keys ::
  "('e list \<Rightarrow> bytes) \<Rightarrow> ('e, 'z) request_scheme \<Rightarrow> nat \<Rightarrow> nat \<Rightarrow> int \<Rightarrow>
     ((extra_key list option \<times> int) \<times> ('e, 'z) request_scheme) res" where
  "generate_block_hash_extra_keys digest r start_idx end_idx start_mm_idx =
     bindE (gen_mm_extra_hash_keys (mm_features r) start_idx end_idx start_mm_idx) (\<lambda>(mm_keys, mm_idx).
     let (embed_keys, r') = gen_prompt_embeds_extra_hash_keys digest r start_idx end_idx;
         keys = gen_lora_extra_hash_keys r @ mm_keys @ cache_salt_keys r start_idx @ embed_keys
     in Ok ((if keys = [] then None else Some keys, mm_idx), r'))"

section \<open>Hashing\<close>

text \<open>\<open>nh\<close> is the global \<^verbatim>\<open>NONE_HASH\<close>; a parent hash that is \<open>None\<close> or empty is falsy.\<close>

definition hash_block_tokens ::
  "hash_fn \<Rightarrow> block_hash \<Rightarrow> block_hash option \<Rightarrow> int list \<Rightarrow> extra_key list option \<Rightarrow> block_hash" where
  "hash_block_tokens hash nh parent toks keys =
     (let p = (case parent of None \<Rightarrow> nh | Some h \<Rightarrow> if h = [] then nh else h)
      in hash (HBlock p toks keys))"

text \<open>The \<^verbatim>\<open>while True\<close> loop of \<^verbatim>\<open>request_block_hasher\<close>; a hash block size of zero would not
  leave it, so not returning is the value \<open>None\<close>.\<close>

partial_function (option) hasher_loop ::
  "('e list \<Rightarrow> bytes) \<Rightarrow> hash_fn \<Rightarrow> block_hash \<Rightarrow> nat \<Rightarrow> ('e, 'z) request_scheme \<Rightarrow> nat \<Rightarrow> int \<Rightarrow>
     block_hash option \<Rightarrow> block_hash list \<Rightarrow> (block_hash list \<times> ('e, 'z) request_scheme) res option" where
  "hasher_loop digest hash nh bsz r start_idx mm_idx prev acc =
     (if start_idx + bsz > num_tokens r then Some (Ok (acc, r))
      else case generate_block_hash_extra_keys digest r start_idx (start_idx + bsz) mm_idx of
        Inl e \<Rightarrow> Some (Inl e)
      | Inr out \<Rightarrow>
          hasher_loop digest hash nh bsz (snd out) (start_idx + bsz) (snd (fst out))
            (Some (hash_block_tokens hash nh prev (slice start_idx (start_idx + bsz) (all_token_ids r)) (fst (fst out))))
            (acc @ [hash_block_tokens hash nh prev (slice start_idx (start_idx + bsz) (all_token_ids r)) (fst (fst out))]))"

definition request_block_hasher ::
  "('e list \<Rightarrow> bytes) \<Rightarrow> hash_fn \<Rightarrow> block_hash \<Rightarrow> nat \<Rightarrow> ('e, 'z) request_scheme \<Rightarrow>
     (block_hash list \<times> ('e, 'z) request_scheme) res option" where
  "request_block_hasher digest hash nh bsz r =
     (let start_idx = length (block_hashes r) * bsz in
      if start_idx + bsz > num_tokens r then Some (Ok ([], r))
      else hasher_loop digest hash nh bsz r start_idx (if start_idx > 0 then -1 else 0)
             (if block_hashes r = [] then None else Some (last (block_hashes r))) [])"

section \<open>Views at a coarser block size\<close>

record hash_view =
  view_hashes :: "block_hash list"
  scale_factor :: nat

definition hash_view_init :: "block_hash list \<Rightarrow> nat \<Rightarrow> nat \<Rightarrow> hash_view res" where
  "hash_view_init hs hash_bsz target_bsz =
     (if hash_bsz = 0 then Err ZeroDivisionError
      else bindE (assertE (target_bsz mod hash_bsz = 0)) (\<lambda>_.
           Ok \<lparr>view_hashes = hs, scale_factor = target_bsz div hash_bsz\<rparr>))"

definition view_len :: "hash_view \<Rightarrow> nat res" where
  "view_len v = (if scale_factor v = 0 then Err ZeroDivisionError
                 else Ok (length (view_hashes v) div scale_factor v))"

definition get_value_at :: "hash_view \<Rightarrow> int \<Rightarrow> block_hash res" where
  "get_value_at v idx = py_index (view_hashes v) ((idx + 1) * int (scale_factor v) - 1)"

datatype view_index = IdxInt int | IdxSlice "int option" "int option" "int option" | IdxOther

datatype view_item = OneHash block_hash | HashList "block_hash list"

definition view_getitem :: "hash_view \<Rightarrow> view_index \<Rightarrow> view_item res" where
  "view_getitem v idx =
     (case idx of
        IdxInt i \<Rightarrow> bindE (get_value_at v i) (\<lambda>h. Ok (OneHash h))
      | IdxSlice a b s \<Rightarrow>
          bindE (view_len v) (\<lambda>n.
          bindE (slice_indices a b s n) (\<lambda>(start, stop, step).
          bindE (mapE (get_value_at v) (py_range start stop step)) (\<lambda>hs. Ok (HashList hs))))
      | IdxOther \<Rightarrow> Err TypeError)"

definition view_iter :: "hash_view \<Rightarrow> block_hash list res" where
  "view_iter v = bindE (view_len v) (\<lambda>n. mapE (\<lambda>i. get_value_at v (int i)) [0..<n])"

datatype block_hash_list = RawHashes "block_hash list" | ViewHashes hash_view

definition resolve_block_hashes ::
  "block_hash_list \<Rightarrow> nat \<Rightarrow> nat \<Rightarrow> bool \<Rightarrow> nat option \<Rightarrow> block_hash_list res" where
  "resolve_block_hashes bhs hash_bsz bsz fine_grained alignment =
     (if bsz = hash_bsz then Ok bhs
      else case bhs of
        ViewHashes v \<Rightarrow>
          (if hash_bsz = 0 then Err ZeroDivisionError
           else bindE (assertE (scale_factor v = bsz div hash_bsz)) (\<lambda>_. Ok bhs))
      | RawHashes hs \<Rightarrow>
          (case alignment of
             Some a \<Rightarrow>
               if fine_grained \<and> a < bsz \<and> a = 0 then Err ZeroDivisionError
               else if fine_grained \<and> a < bsz \<and> bsz mod a = 0 then Ok bhs
               else if hash_bsz = 0 then Err ZeroDivisionError
               else bindE (assertE (bsz mod hash_bsz = 0)) (\<lambda>_.
                    bindE (hash_view_init hs hash_bsz bsz) (\<lambda>v. Ok (ViewHashes v)))
           | None \<Rightarrow>
               if hash_bsz = 0 then Err ZeroDivisionError
               else bindE (assertE (bsz mod hash_bsz = 0)) (\<lambda>_.
                    bindE (hash_view_init hs hash_bsz bsz) (\<lambda>v. Ok (ViewHashes v)))))"

section \<open>The extra keys a block should have\<close>

definition overlaps :: "nat \<Rightarrow> nat \<Rightarrow> mm_feature \<Rightarrow> bool" where
  "overlaps s e f \<longleftrightarrow> mm_offset f < e \<and> s < mm_end f"

definition mm_key :: "nat \<Rightarrow> mm_feature \<Rightarrow> extra_key" where
  "mm_key s f = KPair (the (mm_identifier f)) (int (mm_offset f) - int s)"

definition mm_keys :: "mm_feature list \<Rightarrow> nat \<Rightarrow> nat \<Rightarrow> extra_key list" where
  "mm_keys fs s e = map (mm_key s) (filter (overlaps s e) fs)"

text \<open>The multi-modal inputs of a request: identified, and in prompt order without overlap.\<close>

definition mm_ok :: "mm_feature list \<Rightarrow> bool" where
  "mm_ok fs \<longleftrightarrow> (\<forall>f\<in>set fs. mm_identifier f \<noteq> None) \<and>
     sorted_wrt (\<lambda>f g. mm_end f \<le> mm_offset g) fs"

definition memo_ok :: "('e list \<Rightarrow> bytes) \<Rightarrow> ('e, 'z) request_scheme \<Rightarrow> bool" where
  "memo_ok digest r \<longleftrightarrow>
     (\<forall>rows a b h. prompt_embeds r = Some rows \<longrightarrow> embeds_hashes r (a, b) = Some h \<longrightarrow>
        h = digest (slice a b rows))"

definition embed_keys :: "('e list \<Rightarrow> bytes) \<Rightarrow> ('e, 'z) request_scheme \<Rightarrow> nat \<Rightarrow> nat \<Rightarrow> extra_key list" where
  "embed_keys digest r s e =
     (case prompt_embeds r of None \<Rightarrow> [] | Some rows \<Rightarrow> [KBytes (digest (slice s e rows))])"

definition block_keys :: "('e list \<Rightarrow> bytes) \<Rightarrow> ('e, 'z) request_scheme \<Rightarrow> nat \<Rightarrow> nat \<Rightarrow> extra_key list option" where
  "block_keys digest r s e =
     (let ks = gen_lora_extra_hash_keys r @ mm_keys (mm_features r) s e @ cache_salt_keys r s @ embed_keys digest r s e
      in if ks = [] then None else Some ks)"

text \<open>What the loop needs of its cursor: every input the cursor has passed ends before the
  block.  \<open>-1\<close> stands for the last input.\<close>

definition idx_ok :: "mm_feature list \<Rightarrow> int \<Rightarrow> nat \<Rightarrow> bool" where
  "idx_ok fs i s \<longleftrightarrow>
     (if i < 0 then i = -1 \<and> (\<forall>f\<in>set (butlast fs). mm_end f \<le> s)
      else (\<forall>f\<in>set (take (nat i) fs). mm_end f \<le> s))"

lemma mm_ok_drop: "mm_ok fs \<Longrightarrow> mm_ok (drop i fs)"
  by (auto simp: mm_ok_def sorted_wrt_drop dest: in_set_dropD)

lemma mm_ok_later:
  assumes "mm_ok fs" and "i < length fs" and "g \<in> set (drop (Suc i) fs)"
  shows "mm_end (fs ! i) \<le> mm_offset g"
proof -
  have "sorted_wrt (\<lambda>f g. mm_end f \<le> mm_offset g) (fs ! i # drop (Suc i) fs)"
    using assms(1,2) sorted_wrt_drop [of _ fs i] by (simp add: mm_ok_def Cons_nth_drop_Suc)
  then show ?thesis using assms(3) by simp
qed

lemma mm_keys_none: "(\<And>f. f \<in> set fs \<Longrightarrow> \<not> overlaps s e f) \<Longrightarrow> mm_keys fs s e = []"
  by (simp add: mm_keys_def filter_empty_conv)

lemma mm_keys_append: "mm_keys (fs @ gs) s e = mm_keys fs s e @ mm_keys gs s e"
  by (simp add: mm_keys_def)

lemma mm_keys_drop_Suc:
  assumes "i < length fs"
  shows "mm_keys (drop i fs) s e =
    (if overlaps s e (fs ! i) then mm_key s (fs ! i) # mm_keys (drop (Suc i) fs) s e
     else mm_keys (drop (Suc i) fs) s e)"
  using assms by (simp add: mm_keys_def flip: Cons_nth_drop_Suc)

lemma mm_keys_loop_spec:
  assumes "mm_ok fs" and "s \<le> e" and "i \<le> length fs"
  shows "\<exists>i'. mm_keys_loop fs s e i keys = Ok (keys @ mm_keys (drop i fs) s e, int i') \<and>
           i \<le> i' \<and> i' \<le> length fs \<and> (\<forall>j. i \<le> j \<longrightarrow> j < i' \<longrightarrow> mm_end (fs ! j) \<le> e)"
  using assms
proof (induction fs s e i keys rule: mm_keys_loop.induct)
  case (1 fs s e i keys)
  show ?case
  proof (cases "i < length fs")
    case False
    then show ?thesis using "1.prems"(3) by (intro exI [of _ i]) (simp add: mm_keys_loop.simps mm_keys_def)
  next
    case i: True
    let ?f = "fs ! i"
    obtain ident where id: "mm_identifier ?f = Some ident" using "1.prems"(1) i by (fastforce simp: mm_ok_def)
    have later: "mm_end ?f \<le> mm_offset g" if "g \<in> set (drop (Suc i) fs)" for g
      using mm_ok_later [OF "1.prems"(1) i that] .
    note unf = mm_keys_loop.simps [of fs s e i keys] and ks = mm_keys_drop_Suc [OF i, of s e]
    have stop: "mm_keys (drop (Suc i) fs) s e = []" if "e \<le> mm_end ?f"
      using that later by (intro mm_keys_none) (fastforce simp: overlaps_def)
    have ext: "\<exists>i'. x = Ok (k, int i') \<and> i \<le> i' \<and> i' \<le> length fs \<and>
          (\<forall>j. i \<le> j \<longrightarrow> j < i' \<longrightarrow> mm_end (fs ! j) \<le> e)"
      if "mm_end ?f \<le> e \<and> (\<exists>i'. x = Ok (k, int i') \<and> Suc i \<le> i' \<and> i' \<le> length fs \<and>
          (\<forall>j. Suc i \<le> j \<longrightarrow> j < i' \<longrightarrow> mm_end (fs ! j) \<le> e))" for x :: "(extra_key list \<times> int) res" and k
      using that by (metis Suc_leD Suc_leI le_neq_implies_less)
    consider (before) "e \<le> mm_offset ?f" | (passed) "mm_offset ?f < e" "mm_end ?f \<le> s"
      | (ends) "mm_offset ?f < e" "s < mm_end ?f" "mm_end ?f \<le> e"
      | (inside) "mm_offset ?f < e" "s < mm_end ?f" "e < mm_end ?f"
      by linarith
    then show ?thesis
    proof cases
      case before
      then show ?thesis using i id stop ks by (simp add: unf overlaps_def)
    next
      case passed
      then have "mm_keys_loop fs s e i keys = mm_keys_loop fs s e (Suc i) keys"
        using i id by (simp add: unf)
      then show ?thesis
        using "1.IH"(1) [OF i refl id passed] "1.prems" i passed ks
        by (intro ext) (auto simp: overlaps_def)
    next
      case ends
      then have "mm_keys_loop fs s e i keys = mm_keys_loop fs s e (Suc i) (keys @ [mm_key s ?f])"
        using i id by (simp add: unf mm_key_def)
      then show ?thesis
        using "1.IH"(2) [OF i refl id _ _ refl] "1.prems" i ends ks id
        by (intro ext) (auto simp: overlaps_def mm_key_def)
    next
      case inside
      then show ?thesis using i id stop ks by (simp add: unf overlaps_def mm_key_def)
    qed
  qed
qed

lemma idx_ok_keys:
  assumes "mm_ok fs" and "idx_ok fs i s" and "fs \<noteq> []"
  shows "mm_keys (drop (nat (if i < 0 then int (length fs) + i else i)) fs) s e = mm_keys fs s e"
proof -
  let ?k = "nat (if i < 0 then int (length fs) + i else i)"
  have "mm_end f \<le> s" if "f \<in> set (take ?k fs)" for f
    using assms(2,3) that
    by (auto simp: idx_ok_def butlast_conv_take nat_diff_distrib' split: if_splits)
  then have "mm_keys (take ?k fs) s e = []"
    by (intro mm_keys_none) (auto simp: overlaps_def not_less)
  then show ?thesis using mm_keys_append [of "take ?k fs" "drop ?k fs" s e] by simp
qed

lemma gen_mm_extra_hash_keys_spec:
  assumes ok: "mm_ok fs" and se: "s \<le> e" and i: "idx_ok fs i s" and ub: "i \<le> int (length fs)"
  shows "\<exists>i'. gen_mm_extra_hash_keys fs s e i = Ok (mm_keys fs s e, i') \<and>
           idx_ok fs i' e \<and> i' \<le> int (length fs)"
proof (cases "fs = [] \<or> mm_end (last fs) \<le> s")
  case True
  have "mm_end f \<le> s" if "f \<in> set fs" for f
  proof -
    have "f = last fs \<or> f \<in> set (butlast fs)" using that by (rule in_set_last_or_butlast)
    moreover have "mm_end f \<le> mm_offset (last fs)" if "f \<in> set (butlast fs)"
    proof -
      obtain gs g where "fs = gs @ [g]" using \<open>f \<in> set fs\<close> by (cases fs rule: rev_cases) auto
      then show ?thesis using ok that by (auto simp: mm_ok_def sorted_wrt_append)
    qed
    ultimately show ?thesis using True that by fastforce
  qed
  then have "mm_keys fs s e = []" by (intro mm_keys_none) (auto simp: overlaps_def not_less)
  moreover have "idx_ok fs i e"
    using i se by (auto simp: idx_ok_def intro: le_trans split: if_splits)
  ultimately show ?thesis using True ub by (auto simp: gen_mm_extra_hash_keys_def)
next
  case False
  let ?k = "nat (if i < 0 then int (length fs) + i else i)"
  have k: "?k \<le> length fs" using ub i False by (auto simp: idx_ok_def split: if_splits)
  obtain i' where i': "mm_keys_loop fs s e ?k [] = Ok (mm_keys fs s e, int i')" "?k \<le> i'" "i' \<le> length fs"
      "\<forall>j. ?k \<le> j \<longrightarrow> j < i' \<longrightarrow> mm_end (fs ! j) \<le> e"
    using mm_keys_loop_spec [OF ok se k, of "[]"] idx_ok_keys [OF ok i] False by auto
  have early: "mm_end f \<le> e" if "f \<in> set (take ?k fs)" for f
    using i that se False by (fastforce simp: idx_ok_def butlast_conv_take nat_diff_distrib' split: if_splits)
  have "mm_end (fs ! j) \<le> e" if "j < i'" for j
  proof (cases "j < ?k")
    case True
    then show ?thesis using early k by (metis in_set_conv_nth length_take min.absorb2 nth_take)
  qed (use i'(4) that in auto)
  then have "idx_ok fs (int i') e" using i'(3) by (auto simp: idx_ok_def in_set_conv_nth)
  moreover have "gen_mm_extra_hash_keys fs s e i = Ok (mm_keys fs s e, int i')"
    using i'(1) False i by (auto simp: gen_mm_extra_hash_keys_def idx_ok_def Suc_le_eq split: if_splits)
  ultimately show ?thesis using i'(3) by auto
qed

lemma gen_prompt_embeds_spec:
  assumes "memo_ok digest r"
  shows "\<exists>m. gen_prompt_embeds_extra_hash_keys digest r s e = (embed_keys digest r s e, r\<lparr>embeds_hashes := m\<rparr>) \<and>
           memo_ok digest (r\<lparr>embeds_hashes := m\<rparr>)"
proof (cases "prompt_embeds r = None \<or> embeds_hashes r (s, e) \<noteq> None")
  case True
  then have "gen_prompt_embeds_extra_hash_keys digest r s e = (embed_keys digest r s e, r)"
    using assms by (auto simp: gen_prompt_embeds_extra_hash_keys_def embed_keys_def memo_ok_def split: option.splits)
  then show ?thesis using assms by (intro exI [of _ "embeds_hashes r"]) simp
next
  case False
  then obtain rows where rows: "prompt_embeds r = Some rows" "embeds_hashes r (s, e) = None" by auto
  let ?m = "(embeds_hashes r)((s, e) \<mapsto> digest (slice s e rows))"
  show ?thesis
    by (rule exI [of _ ?m])
      (use rows assms in \<open>auto simp: gen_prompt_embeds_extra_hash_keys_def embed_keys_def memo_ok_def Let_def\<close>)
qed

lemma generate_block_hash_extra_keys_spec:
  assumes "mm_ok (mm_features r)" and "memo_ok digest r" and "s \<le> e"
    and "idx_ok (mm_features r) i s" and "i \<le> int (length (mm_features r))"
  shows "\<exists>i' m. generate_block_hash_extra_keys digest r s e i =
             Ok ((block_keys digest r s e, i'), r\<lparr>embeds_hashes := m\<rparr>) \<and>
           idx_ok (mm_features r) i' e \<and> i' \<le> int (length (mm_features r)) \<and>
           memo_ok digest (r\<lparr>embeds_hashes := m\<rparr>)"
  using gen_mm_extra_hash_keys_spec [OF assms(1,3,4,5)] gen_prompt_embeds_spec [OF assms(2), of s e]
  by (fastforce simp: generate_block_hash_extra_keys_def block_keys_def Let_def)

section \<open>The chain of prefix hashes\<close>

text \<open>\<open>prefix_hash \<dots> k\<close> is the hash of the first \<open>k\<close> blocks of a request, computed from
  scratch with the extra keys each block should have.\<close>

fun prefix_hash ::
  "('e list \<Rightarrow> bytes) \<Rightarrow> hash_fn \<Rightarrow> block_hash \<Rightarrow> nat \<Rightarrow> ('e, 'z) request_scheme \<Rightarrow> nat \<Rightarrow> block_hash" where
  "prefix_hash digest hash nh bsz r 0 = nh"
| "prefix_hash digest hash nh bsz r (Suc k) =
     hash (HBlock (prefix_hash digest hash nh bsz r k)
             (slice (k * bsz) (k * bsz + bsz) (all_token_ids r))
             (block_keys digest r (k * bsz) (k * bsz + bsz)))"

lemma block_keys_memo [simp]: "block_keys digest (r\<lparr>embeds_hashes := m\<rparr>) s e = block_keys digest r s e"
  by (simp add: block_keys_def gen_lora_extra_hash_keys_def cache_salt_keys_def embed_keys_def)

lemma prefix_hash_memo [simp]:
  "prefix_hash digest hash nh bsz (r\<lparr>embeds_hashes := m\<rparr>) k = prefix_hash digest hash nh bsz r k"
  by (induction k) simp_all

definition parent_of :: "block_hash \<Rightarrow> nat \<Rightarrow> (nat \<Rightarrow> block_hash) \<Rightarrow> block_hash option" where
  "parent_of nh k h = (if k = 0 then None else Some (h k))"

lemma hash_block_tokens_parent:
  assumes "\<And>x. hash x \<noteq> []"
  shows "hash_block_tokens hash nh (parent_of nh k (prefix_hash digest hash nh bsz r)) toks keys =
           hash (HBlock (prefix_hash digest hash nh bsz r k) toks keys)"
  using assms by (cases k) (auto simp: hash_block_tokens_def parent_of_def)

lemma hasher_loop_spec:
  assumes "0 < bsz" and ne: "\<And>x. hash x \<noteq> []"
    and "mm_ok (mm_features r)" and "memo_ok digest r"
    and "idx_ok (mm_features r) i (k * bsz)" and "i \<le> int (length (mm_features r))"
    and "k \<le> num_tokens r div bsz"
  shows "\<exists>m. hasher_loop digest hash nh bsz r (k * bsz) i
               (parent_of nh k (prefix_hash digest hash nh bsz r)) acc =
             Some (Ok (acc @ map (prefix_hash digest hash nh bsz r) [Suc k..<Suc (num_tokens r div bsz)],
                       r\<lparr>embeds_hashes := m\<rparr>))"
  using assms(3-)
proof (induction "num_tokens r div bsz - k" arbitrary: k r i acc)
  case 0
  then have k: "k = num_tokens r div bsz" by simp
  have "num_tokens r < k * bsz + bsz"
    using dividend_less_times_div [OF assms(1), of "num_tokens r"] by (simp add: k algebra_simps)
  then show ?case
    by (intro exI [of _ "embeds_hashes r"]) (simp add: hasher_loop.simps k)
next
  case (Suc d)
  let ?h = "prefix_hash digest hash nh bsz"
  let ?s = "k * bsz" and ?e = "k * bsz + bsz"
  have "Suc k \<le> num_tokens r div bsz" using Suc.hyps(2) by simp
  then have len: "?e \<le> num_tokens r" using assms(1) by (simp add: less_eq_div_iff_mult_less_eq)
  obtain i' m where gen: "generate_block_hash_extra_keys digest r ?s ?e i =
        Ok ((block_keys digest r ?s ?e, i'), r\<lparr>embeds_hashes := m\<rparr>)"
      and i': "idx_ok (mm_features r) i' ?e" "i' \<le> int (length (mm_features r))"
      and memo: "memo_ok digest (r\<lparr>embeds_hashes := m\<rparr>)"
    using generate_block_hash_extra_keys_spec [OF Suc.prems(1,2) _ Suc.prems(3,4), of ?e] by auto
  let ?r = "r\<lparr>embeds_hashes := m\<rparr>"
  have parent: "Some (?h r (Suc k)) = parent_of nh (Suc k) (?h ?r)" by (simp add: parent_of_def)
  have sk: "Suc k * bsz = ?e" by simp
  have dn: "d = num_tokens ?r div bsz - Suc k" using Suc.hyps(2) by simp
  have "hasher_loop digest hash nh bsz r ?s i (parent_of nh k (?h r)) acc =
      hasher_loop digest hash nh bsz ?r ?e i' (parent_of nh (Suc k) (?h ?r)) (acc @ [?h r (Suc k)])"
    by (subst hasher_loop.simps)
      (use len in \<open>simp add: gen hash_block_tokens_parent [OF ne] parent [symmetric]\<close>)
  moreover obtain m' where "hasher_loop digest hash nh bsz ?r ?e i' (parent_of nh (Suc k) (?h ?r)) (acc @ [?h r (Suc k)]) =
      Some (Ok ((acc @ [?h r (Suc k)]) @ map (?h ?r) [Suc (Suc k)..<Suc (num_tokens ?r div bsz)], ?r\<lparr>embeds_hashes := m'\<rparr>))"
    using Suc.hyps(1) [of ?r "Suc k" i' "acc @ [?h r (Suc k)]", OF dn, unfolded sk] Suc.prems(1) i' memo \<open>Suc k \<le> _\<close>
    by (auto simp del: upt_Suc prefix_hash.simps)
  moreover have "[Suc k..<Suc (num_tokens r div bsz)] = Suc k # [Suc (Suc k)..<Suc (num_tokens r div bsz)]"
    using \<open>Suc k \<le> _\<close> by (simp add: upt_conv_Cons)
  ultimately show ?case by (auto simp del: upt_Suc prefix_hash.simps)
qed

text \<open>The requests on which the hasher is correct: what is hashed already is the chain of the
  first \<open>k\<close> blocks, and, when something is, only the last multi-modal input reaches past it.\<close>

definition hashed_ok ::
  "('e list \<Rightarrow> bytes) \<Rightarrow> hash_fn \<Rightarrow> block_hash \<Rightarrow> nat \<Rightarrow> ('e, 'z) request_scheme \<Rightarrow> bool" where
  "hashed_ok digest hash nh bsz r \<longleftrightarrow>
     mm_ok (mm_features r) \<and> memo_ok digest r \<and>
     length (block_hashes r) * bsz \<le> num_tokens r \<and>
     block_hashes r = map (prefix_hash digest hash nh bsz r) [1..<Suc (length (block_hashes r))] \<and>
     (block_hashes r \<noteq> [] \<longrightarrow>
        (\<forall>f\<in>set (butlast (mm_features r)). mm_end f \<le> length (block_hashes r) * bsz))"

lemma request_block_hasher_spec:
  assumes bsz: "0 < bsz" and ne: "\<And>x. hash x \<noteq> []" and ok: "hashed_ok digest hash nh bsz r"
  shows "\<exists>new m. request_block_hasher digest hash nh bsz r = Some (Ok (new, r\<lparr>embeds_hashes := m\<rparr>)) \<and>
           block_hashes r @ new = map (prefix_hash digest hash nh bsz r) [1..<Suc (num_tokens r div bsz)]"
proof -
  let ?h = "prefix_hash digest hash nh bsz r"
  let ?k = "length (block_hashes r)" and ?n = "num_tokens r div bsz"
  have kn: "?k \<le> ?n" using ok bsz by (simp add: hashed_ok_def less_eq_div_iff_mult_less_eq)
  have bh: "block_hashes r = map ?h [1..<Suc ?k]" using ok by (simp add: hashed_ok_def)
  have split: "map ?h [1..<Suc ?k] @ map ?h [Suc ?k..<Suc ?n] = map ?h [1..<Suc ?n]"
    using upt_add_eq_append [of 1 "Suc ?k" "?n - ?k"] kn by (simp del: upt_Suc flip: map_append)
  show ?thesis
  proof (cases "?k * bsz + bsz > num_tokens r")
    case True
    then have "num_tokens r < Suc ?k * bsz" by simp
    then have "?n < Suc ?k" using bsz by (simp add: less_mult_imp_div_less)
    then have "?n = ?k" using kn by simp
    then show ?thesis
      using True bh by (intro exI [of _ "[]"] exI [of _ "embeds_hashes r"])
        (simp add: request_block_hasher_def Let_def del: upt_Suc)
  next
    case False
    let ?i = "(if ?k * bsz > 0 then - 1 else 0) :: int"
    have "mm_ok (mm_features r)" "memo_ok digest r"
      "idx_ok (mm_features r) ?i (?k * bsz)" "?i \<le> int (length (mm_features r))"
      using ok by (auto simp: idx_ok_def hashed_ok_def)
    from hasher_loop_spec [where hash = hash and nh = nh and acc = "[]", OF bsz ne this kn]
    obtain m where "hasher_loop digest hash nh bsz r (?k * bsz) ?i (parent_of nh ?k ?h) [] =
        Some (Ok (map ?h [Suc ?k..<Suc ?n], r\<lparr>embeds_hashes := m\<rparr>))"
      by (auto simp del: upt_Suc)
    moreover have "parent_of nh ?k ?h = (if block_hashes r = [] then None else Some (last (block_hashes r)))"
    proof (cases "block_hashes r = []")
      case ne': False
      then have "last (block_hashes r) = ?h ?k" by (subst bh) (simp add: last_map Suc_le_eq)
      then show ?thesis using ne' by (simp add: parent_of_def)
    qed (simp add: parent_of_def)
    ultimately show ?thesis
      using False split bh by (intro exI [of _ "map ?h [Suc ?k..<Suc ?n]"] exI [of _ m])
        (simp add: request_block_hasher_def Let_def del: upt_Suc)
  qed
qed

section \<open>Fingerprints\<close>

text \<open>Under a collision-free hash, a prefix hash determines how many blocks it covers, their
  tokens, and the extra keys of every block.\<close>

lemma prefix_hash_inj:
  assumes inj: "inj hash" and nh: "nh = hash (HSeed seed)"
    and "prefix_hash digest hash nh bsz r k = prefix_hash digest' hash nh bsz r' k'"
  shows "k = k' \<and> take (k * bsz) (all_token_ids r) = take (k * bsz) (all_token_ids r') \<and>
         (\<forall>j<k. block_keys digest r (j * bsz) (j * bsz + bsz) = block_keys digest' r' (j * bsz) (j * bsz + bsz))"
  using assms(3)
proof (induction k arbitrary: k')
  case 0
  then show ?case using injD [OF inj] nh by (cases k') auto
next
  case (Suc k)
  then obtain k'' where k': "k' = Suc k''" using injD [OF inj] nh by (cases k') auto
  from Suc.prems have
    eq: "prefix_hash digest hash nh bsz r k = prefix_hash digest' hash nh bsz r' k''"
      "slice (k * bsz) (k * bsz + bsz) (all_token_ids r) = slice (k'' * bsz) (k'' * bsz + bsz) (all_token_ids r')"
      "block_keys digest r (k * bsz) (k * bsz + bsz) = block_keys digest' r' (k'' * bsz) (k'' * bsz + bsz)"
    using injD [OF inj] by (fastforce simp: k')+
  note IH = Suc.IH [OF eq(1)]
  have "take (Suc k * bsz) xs = take (k * bsz) xs @ slice (k * bsz) (k * bsz + bsz) xs" for xs :: "int list"
    using slice_extend [of "k * bsz" "k * bsz + bsz" 0 xs] by (simp add: slice_0 add.commute)
  then show ?case using IH eq(2,3) k' by (auto simp: less_Suc_eq)
qed

section \<open>Coarser views\<close>

lemma get_value_at_in_range:
  assumes "0 < scale_factor v" and "i < length (view_hashes v) div scale_factor v"
  shows "get_value_at v (int i) = Ok (view_hashes v ! ((i + 1) * scale_factor v - 1))"
proof -
  let ?j = "(i + 1) * scale_factor v - 1"
  have "(i + 1) * scale_factor v \<le> length (view_hashes v) div scale_factor v * scale_factor v"
    using assms(2) by (intro mult_right_mono) auto
  also have "\<dots> \<le> length (view_hashes v)" by simp
  finally have "(i + 1) * scale_factor v \<le> length (view_hashes v)" .
  moreover have "0 < (i + 1) * scale_factor v" using assms(1) by simp
  ultimately have "?j < length (view_hashes v)" by linarith
  moreover have "(int i + 1) * int (scale_factor v) - 1 = int ?j"
    using assms(1) by (simp add: of_nat_diff Suc_le_eq algebra_simps)
  ultimately show ?thesis by (simp only: get_value_at_def py_index_nat if_True)
qed

lemma view_iter_spec:
  assumes "0 < scale_factor v"
  shows "view_iter v = Ok (map (\<lambda>i. view_hashes v ! ((i + 1) * scale_factor v - 1))
           [0..<length (view_hashes v) div scale_factor v])"
  using assms get_value_at_in_range [OF assms]
  by (auto simp: view_iter_def view_len_def intro!: mapE_Ok)

lemma view_of_chain:
  assumes "0 < bsz" and "0 < m" and "hash_view_init (map h [1..<Suc n]) bsz (m * bsz) = Ok v"
  shows "view_iter v = Ok (map (\<lambda>i. h ((i + 1) * m)) [0..<n div m])"
proof -
  have v: "view_hashes v = map h [1..<Suc n]" "scale_factor v = m"
    using assms by (auto simp: hash_view_init_def)
  have "map h [1..<Suc n] ! ((i + 1) * m - 1) = h ((i + 1) * m)" if "i < n div m" for i
  proof -
    have "(i + 1) * m \<le> n" using that assms(2)
      by (metis Suc_eq_plus1 Suc_leI less_eq_div_iff_mult_less_eq)
    then show ?thesis using assms(2) by (simp add: nth_map_upt del: upt_Suc)
  qed
  then show ?thesis using view_iter_spec [of v] v assms(2) by (simp del: upt_Suc)
qed

section \<open>Properties\<close>

text \<open>A concrete collision-free hash for the witnesses.\<close>

instance extra_key :: countable
  by countable_datatype

instance hash_input :: countable
  by countable_datatype

definition demo_hash :: hash_fn where
  "demo_hash x = replicate (Suc (to_nat x)) 0"

definition demo_digest :: "nat list \<Rightarrow> bytes" where
  "demo_digest rows = map word_of_nat rows"

definition demo_feature :: "string \<Rightarrow> nat \<Rightarrow> nat \<Rightarrow> mm_feature" where
  "demo_feature ident off len = \<lparr>mm_identifier = Some ident, mm_offset = off, mm_length = len\<rparr>"

definition demo_request :: "int list \<Rightarrow> mm_feature list \<Rightarrow> block_hash list \<Rightarrow> nat request" where
  "demo_request toks fs hs =
     \<lparr>mm_features = fs, lora_name = None, cache_salt = None, prompt_embeds = None,
      embeds_hashes = Map.empty, block_hashes = hs, all_token_ids = toks\<rparr>"

lemma demo_request_sel [simp]:
  "all_token_ids (demo_request toks fs hs) = toks" "mm_features (demo_request toks fs hs) = fs"
  "block_hashes (demo_request toks fs hs) = hs" "lora_name (demo_request toks fs hs) = None"
  "cache_salt (demo_request toks fs hs) = None" "prompt_embeds (demo_request toks fs hs) = None"
  by (simp_all add: demo_request_def)

lemma inj_demo_hash: "inj demo_hash"
  by (rule injI) (metis demo_hash_def length_replicate nat.inject inj_to_nat injD)

lemma demo_hash_ne: "demo_hash x \<noteq> []"
  by (simp add: demo_hash_def)

lemma demo_hashed_ok: "mm_ok fs \<Longrightarrow> hashed_ok demo_digest demo_hash nh bsz (demo_request toks fs [])"
  by (simp add: hashed_ok_def demo_request_def memo_ok_def)

text \<open>C15: on a request that satisfies \<open>hashed_ok\<close>, the request hasher returns, and what it returns extends the
  hashes the request already has to the chain computed from scratch over all full blocks, each block with the
  extra keys it should have; the memo of embedding digests is kept coherent.  \<open>hashed_ok\<close> says that the
  multi-modal inputs are identified and in prompt order, that the hashes the request has are the chain
  of its first blocks, and, if there are any, that at most the last multi-modal input reaches past them.
  Without that last condition the keys of a resumed block can be wrong (C27).\<close>

theorem request_block_hasher_extends_chain:
  assumes "0 < bsz" and "\<And>x. hash x \<noteq> []" and "hashed_ok digest hash nh bsz r"
  shows "\<exists>new m. request_block_hasher digest hash nh bsz r = Some (Ok (new, r\<lparr>embeds_hashes := m\<rparr>)) \<and>
           block_hashes r @ new = map (prefix_hash digest hash nh bsz r) [1..<Suc (num_tokens r div bsz)]"
  by (rule request_block_hasher_spec [OF assms])

theorem request_block_hasher_extends_chain_witness:
  "\<exists>new m. request_block_hasher demo_digest demo_hash [1] 2 (demo_request [1, 2, 3, 4, 5] [demo_feature ''img'' 1 2] []) =
     Some (Ok (new, (demo_request [1, 2, 3, 4, 5] [demo_feature ''img'' 1 2] [])\<lparr>embeds_hashes := m\<rparr>)) \<and> length new = 2"
proof -
  let ?r = "demo_request [1, 2, 3, 4, 5] [demo_feature ''img'' 1 2] []"
  have ok: "hashed_ok demo_digest demo_hash [1] 2 ?r"
    by (rule demo_hashed_ok) (simp add: mm_ok_def demo_feature_def)
  obtain new m where h: "request_block_hasher demo_digest demo_hash [1] 2 ?r = Some (Ok (new, ?r\<lparr>embeds_hashes := m\<rparr>))"
      and n: "block_hashes ?r @ new = map (prefix_hash demo_digest demo_hash [1] 2 ?r) [1..<Suc (num_tokens ?r div 2)]"
    using request_block_hasher_extends_chain [where hash = demo_hash, OF _ demo_hash_ne ok] by auto
  from n have "length new = 2" by (auto simp: demo_request_def dest!: arg_cong [where f = length])
  with h show ?thesis by blast
qed

text \<open>C12: block hashes are prefix fingerprints, on requests that satisfy \<open>hashed_ok\<close> (freshly hashed ones, and resumed ones
  where at most the last multi-modal input reaches past the hashed prefix).  If entry \<open>i\<close> of the hashes
  of one such request, old and new, equals entry \<open>j\<close> of another's under a collision-free hash, then
  \<open>i = j\<close>, the two prompts agree on all tokens up to and including that block, and on the extra keys of
  every block up to it.  (C27 has equal hashes with different extra keys outside that condition.)\<close>

theorem equal_hash_equal_prefix:
  assumes "inj hash" and "\<And>x. hash x \<noteq> []" and "0 < bsz" and "nh = hash (HSeed seed)"
    and "hashed_ok digest hash nh bsz r" and "hashed_ok digest hash nh bsz r'"
    and "request_block_hasher digest hash nh bsz r = Some (Ok (hs, s))"
    and "request_block_hasher digest hash nh bsz r' = Some (Ok (hs', s'))"
    and "i < length (block_hashes r @ hs)" and "j < length (block_hashes r' @ hs')"
    and "(block_hashes r @ hs) ! i = (block_hashes r' @ hs') ! j"
  shows "i = j \<and> take (Suc i * bsz) (all_token_ids r) = take (Suc i * bsz) (all_token_ids r') \<and>
         (\<forall>b\<le>i. block_keys digest r (b * bsz) (b * bsz + bsz) = block_keys digest r' (b * bsz) (b * bsz + bsz))"
proof -
  have hs: "block_hashes r @ hs = map (prefix_hash digest hash nh bsz r) [1..<Suc (num_tokens r div bsz)]"
    "block_hashes r' @ hs' = map (prefix_hash digest hash nh bsz r') [1..<Suc (num_tokens r' div bsz)]"
    using request_block_hasher_spec [where hash = hash, OF assms(3,2,5)] assms(7)
      request_block_hasher_spec [where hash = hash, OF assms(3,2,6)] assms(8) by (auto simp del: upt_Suc)
  have "prefix_hash digest hash nh bsz r (Suc i) = prefix_hash digest hash nh bsz r' (Suc j)"
    using assms(9-11) unfolding hs by (simp add: nth_map_upt del: upt_Suc prefix_hash.simps)
  from prefix_hash_inj [OF assms(1,4) this] show ?thesis by (auto simp: less_Suc_eq_le)
qed

theorem equal_hash_equal_prefix_witness:
  "\<exists>hs s hs' s'. request_block_hasher demo_digest demo_hash (demo_hash (HSeed ''x'')) 2 (demo_request [1, 2, 3] [] []) = Some (Ok (hs, s)) \<and>
     request_block_hasher demo_digest demo_hash (demo_hash (HSeed ''x'')) 2 (demo_request [1, 2, 9, 9] [] []) = Some (Ok (hs', s')) \<and>
     hs ! 0 = hs' ! 0 \<and> take (Suc 0 * 2) (all_token_ids (demo_request [1, 2, 3] [] [])) =
       take (Suc 0 * 2) (all_token_ids (demo_request [1, 2, 9, 9] [] []))"
proof -
  let ?nh = "demo_hash (HSeed ''x'')" and ?r = "demo_request [1, 2, 3] [] []" and ?r' = "demo_request [1, 2, 9, 9] [] []"
  have ok: "hashed_ok demo_digest demo_hash ?nh 2 ?r" "hashed_ok demo_digest demo_hash ?nh 2 ?r'"
    by (rule demo_hashed_ok, simp add: mm_ok_def)+
  have nil: "block_hashes ?r = []" "block_hashes ?r' = []" by (simp_all add: demo_request_def)
  obtain hs m where h: "request_block_hasher demo_digest demo_hash ?nh 2 ?r = Some (Ok (hs, ?r\<lparr>embeds_hashes := m\<rparr>))"
      "hs = map (prefix_hash demo_digest demo_hash ?nh 2 ?r) [1..<Suc 1]"
    using request_block_hasher_spec [where hash = demo_hash, OF _ demo_hash_ne ok(1)]
    by (auto simp del: upt_Suc prefix_hash.simps)
  obtain hs' m' where h': "request_block_hasher demo_digest demo_hash ?nh 2 ?r' = Some (Ok (hs', ?r'\<lparr>embeds_hashes := m'\<rparr>))"
      "hs' = map (prefix_hash demo_digest demo_hash ?nh 2 ?r') [1..<Suc (Suc (Suc 0))]"
    using request_block_hasher_spec [where hash = demo_hash, OF _ demo_hash_ne ok(2)]
    by (auto simp del: upt_Suc prefix_hash.simps)
  have "block_keys demo_digest ?r 0 2 = block_keys demo_digest ?r' 0 2"
    by (simp add: block_keys_def gen_lora_extra_hash_keys_def mm_keys_def cache_salt_keys_def embed_keys_def)
  then have eq: "hs ! 0 = hs' ! 0"
    by (simp add: h(2) h'(2) upt_conv_Cons slice_def numeral_2_eq_2 del: upt_Suc)
  have l: "0 < length (block_hashes ?r @ hs)" "0 < length (block_hashes ?r' @ hs')"
    "(block_hashes ?r @ hs) ! 0 = (block_hashes ?r' @ hs') ! 0" using eq by (simp_all add: h(2) h'(2) nil)
  show ?thesis
    using equal_hash_equal_prefix [OF inj_demo_hash demo_hash_ne _ refl ok h(1) h'(1) l] eq
      h(1) h'(1) eq by auto
qed

text \<open>C18: the coarser view.  Over hashes chained at the fine block size, the view at \<open>m\<close> times that
  size iterates exactly the fingerprints of the prefixes of \<open>m, 2m, 3m, \<dots>\<close> fine blocks, one per
  full coarse block.\<close>

theorem coarse_view_fingerprints:
  assumes "0 < bsz" and "0 < m"
    and "hash_view_init (map (prefix_hash digest hash nh bsz r) [1..<Suc n]) bsz (m * bsz) = Ok v"
  shows "view_iter v = Ok (map (\<lambda>i. prefix_hash digest hash nh bsz r ((i + 1) * m)) [0..<n div m])"
  by (rule view_of_chain [OF assms])

theorem coarse_view_fingerprints_witness:
  "\<exists>v. hash_view_init (map (prefix_hash demo_digest demo_hash [1] 2 (demo_request [1, 2, 3, 4, 5, 6] [] [])) [1..<4]) 2 4 = Ok v \<and>
     view_iter v = Ok [prefix_hash demo_digest demo_hash [1] 2 (demo_request [1, 2, 3, 4, 5, 6] [] []) 2]"
  using coarse_view_fingerprints [of 2 2 demo_digest demo_hash "[1]" "demo_request [1, 2, 3, 4, 5, 6] [] []" 3]
  by (simp add: hash_view_init_def upt_rec [of 0] numeral_2_eq_2 [symmetric] del: prefix_hash.simps upt_Suc)

text \<open>Packing a block hash with a group id is a lossless round trip for every group id of 32
  bits, and raises \<^verbatim>\<open>OverflowError\<close> outside that range.\<close>

theorem group_id_roundtrip:
  "(if 0 \<le> gid \<and> gid < 2 ^ 32
    then \<exists>key. make_block_hash_with_group_id bh gid = Ok key \<and>
               get_block_hash key = bh \<and> int (get_group_id key) = gid
    else make_block_hash_with_group_id bh gid = Err OverflowError)"
  by (auto simp: make_block_hash_with_group_id_def to_bytes_be_def get_block_hash_def get_group_id_def
      from_bytes_digits_be)

text \<open>C27: the hypothesis of C6 about multi-modal inputs is needed.  When two images lie in the block
  that decoding completes, hashing resumes at the last one only: two requests that differ in
  the earlier image get equal block hashes, whatever the hash function.\<close>

theorem resumed_hash_ignores_earlier_image:
  "\<exists>(r :: nat request) (r' :: nat request). mm_ok (mm_features r) \<and> mm_ok (mm_features r') \<and>
     all_token_ids r = all_token_ids r' \<and> block_hashes r = block_hashes r' \<and>
     block_keys digest r 4 8 \<noteq> block_keys digest r' 4 8 \<and>
     (\<forall>hash nh. \<exists>hs. request_block_hasher digest hash nh 4 r = Some (Ok (hs, r)) \<and>
        request_block_hasher digest hash nh 4 r' = Some (Ok (hs, r')) \<and> length hs = 1)"
proof -
  let ?toks = "[0, 1, 2, 3, 4, 5, 6, 7] :: int list"
  let ?r = "demo_request ?toks [demo_feature ''a'' 4 1, demo_feature ''b'' 5 1] [[1]]"
  let ?r' = "demo_request ?toks [demo_feature ''c'' 4 1, demo_feature ''b'' 5 1] [[1]]"
  have keys: "generate_block_hash_extra_keys digest r 4 8 (-1) = Ok ((Some [KPair ''b'' 1], 2), r)"
    if "r = ?r \<or> r = ?r'" for r
    using that by (auto simp: generate_block_hash_extra_keys_def gen_mm_extra_hash_keys_def demo_request_def demo_feature_def
        mm_keys_loop.simps gen_prompt_embeds_extra_hash_keys_def gen_lora_extra_hash_keys_def cache_salt_keys_def Let_def)
  have run: "request_block_hasher digest hash nh 4 r = Some (Ok ([hash_block_tokens hash nh (Some [1]) [4, 5, 6, 7] (Some [KPair ''b'' 1])], r))"
    if "r = ?r \<or> r = ?r'" for r hash nh
    using that keys [OF that]
    by (auto simp: request_block_hasher_def hasher_loop.simps demo_request_def slice_def Let_def)
  have diff: "block_keys digest ?r 4 8 \<noteq> block_keys digest ?r' 4 8"
    by (simp add: block_keys_def mm_keys_def overlaps_def mm_key_def demo_feature_def
        gen_lora_extra_hash_keys_def cache_salt_keys_def embed_keys_def)
  have oks: "mm_ok (mm_features ?r)" "mm_ok (mm_features ?r')"
    by (simp_all add: mm_ok_def demo_feature_def)
  have runs: "\<forall>hash nh. \<exists>hs. request_block_hasher digest hash nh 4 ?r = Some (Ok (hs, ?r)) \<and>
        request_block_hasher digest hash nh 4 ?r' = Some (Ok (hs, ?r')) \<and> length hs = 1"
    using run by simp
  show ?thesis
    by (rule exI [of _ ?r], rule exI [of _ ?r'], intro conjI oks diff runs) simp_all
qed

text \<open>C28: a negative index into a coarse view does not count from the end of the view: \<^verbatim>\<open>view[-1]\<close> is
  the last fine hash, which differs from the last full coarse block whenever the fine hashes do
  not fill it.\<close>

theorem view_negative_index:
  assumes "view_hashes v \<noteq> []" and "0 < scale_factor v"
  shows "get_value_at v (-1) = Ok (last (view_hashes v)) \<and>
         (length (view_hashes v) mod scale_factor v \<noteq> 0 \<and> distinct (view_hashes v) \<longrightarrow>
            (\<forall>h. view_iter v = Ok h \<longrightarrow> h \<noteq> [] \<longrightarrow> last h \<noteq> last (view_hashes v)))"
proof (intro conjI impI allI)
  show "get_value_at v (-1) = Ok (last (view_hashes v))"
    using assms by (simp add: get_value_at_def py_index_def Let_def last_conv_nth nat_diff_distrib')
next
  fix h assume a: "length (view_hashes v) mod scale_factor v \<noteq> 0 \<and> distinct (view_hashes v)"
    and h: "view_iter v = Ok h" "h \<noteq> []"
  let ?s = "scale_factor v" and ?n = "length (view_hashes v)"
  have d: "0 < ?n div ?s" using h view_iter_spec [OF assms(2)] by auto
  let ?f = "\<lambda>i. view_hashes v ! ((i + 1) * ?s - 1)"
  have "last (map ?f [0..<k]) = ?f (k - 1)" if "0 < k" for k using that by (cases k) simp_all
  then have "last h = ?f (?n div ?s - 1)" using d h(1) view_iter_spec [OF assms(2)] by (metis sum.inject(2))
  moreover have "?n div ?s - 1 + 1 = ?n div ?s" using d by simp
  ultimately have "last h = view_hashes v ! (?n div ?s * ?s - 1)" by (simp only:)
  have lt: "?n div ?s * ?s < ?n"
    using a by (metis div_mult_mod_eq less_add_same_cancel1 not_gr_zero)
  moreover have pos: "0 < ?n div ?s * ?s" using d assms(2) by simp
  ultimately have "?n div ?s * ?s - 1 \<noteq> ?n - 1" "?n div ?s * ?s - 1 < ?n" "?n - 1 < ?n" by linarith+
  then have "view_hashes v ! (?n div ?s * ?s - 1) \<noteq> view_hashes v ! (?n - 1)"
    using a by (metis nth_eq_iff_index_eq)
  then show "last h \<noteq> last (view_hashes v)"
    using \<open>last h = view_hashes v ! (?n div ?s * ?s - 1)\<close> assms(1) by (simp add: last_conv_nth)
qed

theorem view_negative_index_witness:
  "get_value_at \<lparr>view_hashes = [[1], [2], [3]], scale_factor = 2\<rparr> (-1) = Ok [3] \<and>
   view_iter \<lparr>view_hashes = [[1], [2], [3]], scale_factor = 2\<rparr> = Ok [[2]]"
  using view_negative_index [of "\<lparr>view_hashes = [[1], [2], [3]], scale_factor = 2\<rparr>"]
    view_iter_spec [of "\<lparr>view_hashes = [[1], [2], [3]], scale_factor = 2\<rparr>"] by simp

text \<open>C29: LoRA names and cache salts share one key space.  Take a text-only request that is not hashed yet and
  has a full block.  Hashed as a request of the LoRA adapter named \<open>x\<close> and as one with no adapter and cache salt
  \<open>x\<close>, it gets the same hash of its first block, whatever the hash function, so that either
  finds the other's first block in the prefix cache.  The confusion ends there: under a collision-free hash the
  second blocks differ, since the name is a key of every block and the salt of the first one only.\<close>

theorem lora_name_salt_collision:
  assumes "0 < bsz" and "\<And>x. hash x \<noteq> []" and "x \<noteq> []"
    and "mm_features r = []" and "prompt_embeds r = None" and "block_hashes r = []" and "bsz \<le> num_tokens r"
  shows "\<exists>hs hs' ra rb.
      request_block_hasher digest hash nh bsz (r\<lparr>lora_name := Some x, cache_salt := None\<rparr>) = Some (Ok (hs, ra))
    \<and> request_block_hasher digest hash nh bsz (r\<lparr>lora_name := None, cache_salt := Some x\<rparr>) = Some (Ok (hs', rb))
    \<and> length hs = num_tokens r div bsz \<and> length hs' = num_tokens r div bsz
    \<and> hs ! 0 = hs' ! 0
    \<and> (inj hash \<and> 2 * bsz \<le> num_tokens r \<longrightarrow> hs ! 1 \<noteq> hs' ! 1)"
proof -
  let ?a = "r\<lparr>lora_name := Some x, cache_salt := None\<rparr>" and ?b = "r\<lparr>lora_name := None, cache_salt := Some x\<rparr>"
  let ?n = "num_tokens r div bsz" and ?h = "prefix_hash digest hash nh bsz"
  have ok: "hashed_ok digest hash nh bsz ?a" "hashed_ok digest hash nh bsz ?b"
    using assms(4-6) by (simp_all add: hashed_ok_def mm_ok_def memo_ok_def)
  obtain ra rb where run: "request_block_hasher digest hash nh bsz ?a = Some (Ok (map (?h ?a) [1..<Suc ?n], ra))"
    "request_block_hasher digest hash nh bsz ?b = Some (Ok (map (?h ?b) [1..<Suc ?n], rb))"
    using request_block_hasher_spec [OF assms(1,2) ok(1)] request_block_hasher_spec [OF assms(1,2) ok(2)] assms(6)
    by (auto simp del: upt_Suc)
  have keys: "block_keys digest ?a s e = Some [KStr x]" "block_keys digest ?b 0 e = Some [KStr x]"
    "0 < s \<Longrightarrow> block_keys digest ?b s e = None" for s e
    using assms(3-5)
    by (simp_all add: block_keys_def gen_lora_extra_hash_keys_def cache_salt_keys_def mm_keys_def embed_keys_def)
  have one: "1 \<le> ?n" using assms(1,7) by (simp add: less_eq_div_iff_mult_less_eq)
  have nth: "map f [1..<Suc ?n] ! i = f (Suc i)" if "i < ?n" for i and f :: "nat \<Rightarrow> block_hash"
    using that by (simp add: nth_map_upt del: upt_Suc)
  have "?h ?a (Suc 0) = ?h ?b (Suc 0)" using keys by simp
  then have "map (?h ?a) [1..<Suc ?n] ! 0 = map (?h ?b) [1..<Suc ?n] ! 0"
    using one nth [of 0] by (simp del: upt_Suc prefix_hash.simps)
  moreover have "map (?h ?a) [1..<Suc ?n] ! 1 \<noteq> map (?h ?b) [1..<Suc ?n] ! 1" if "inj hash" "2 * bsz \<le> num_tokens r"
  proof -
    have two: "1 < ?n" using assms(1) that(2) by (simp add: less_eq_div_iff_mult_less_eq flip: Suc_le_eq)
    show ?thesis unfolding nth [OF two] using injD [OF that(1)] keys assms(1) by auto
  qed
  ultimately show ?thesis using run by (intro exI [of _ "map (?h ?a) [1..<Suc ?n]"] exI [of _ "map (?h ?b) [1..<Suc ?n]"]) auto
qed

theorem lora_name_salt_collision_witness:
  "\<exists>hs hs' ra rb.
      request_block_hasher demo_digest demo_hash [1] 2
        ((demo_request [1, 2, 3, 4] [] [])\<lparr>lora_name := Some ''x'', cache_salt := None\<rparr>) = Some (Ok (hs, ra))
    \<and> request_block_hasher demo_digest demo_hash [1] 2
        ((demo_request [1, 2, 3, 4] [] [])\<lparr>lora_name := None, cache_salt := Some ''x''\<rparr>) = Some (Ok (hs', rb))
    \<and> length hs = 2 \<and> hs ! 0 = hs' ! 0 \<and> hs ! 1 \<noteq> hs' ! 1"
  using lora_name_salt_collision [of 2 demo_hash "''x''" "demo_request [1, 2, 3, 4] [] []" demo_digest "[1]"]
    inj_demo_hash demo_hash_ne
  by (simp add: demo_request_def) (elim exE conjE, intro exI conjI, assumption+, simp_all)

end
