(* ===== verification/PP_Shadow.thy ===== *)
theory PP_Shadow
  imports Prelude
begin

text \<open>
  Pipeline-parallel cuts inside a kv-sharing group (\<open>overlay/hybrid/pp_shadow.py\<close>)
  and the exchange of intermediate tensors in the model's forward pass
  (\<open>overlay/vllm/models/deepseek_v4_1/nvidia/model.py\<close>).

  A plan says, per rank, which source layers are shadowed, which attention
  inputs are shipped to the next rank and which are received.  The theory shows
  that the plans of neighbouring ranks agree and that the pipeline, run from
  the first to the last rank, hands every shadow the attention input its
  source layer produced.

  Layer ids, rank numbers and ratios are naturals; the candidate source is an
  integer because the code uses -1 for none.  \<open>get_pp_indices\<close> and the process
  group are not part of the repository: the first is the argument \<open>indices\<close>,
  the second the arguments \<open>world_size\<close> and \<open>rank\<close>.  A tensor is its list of
  rows, the leading dimension that slices and copies address.

  Of \<open>forward\<close> the theory has the exchange between ranks (lines 770--776, 870--885 and 958--973); the embedding,
  the decoder layers with the engram lookup, and the shadows' own computation are parameters.
\<close>

section \<open>The shadow plan\<close>

record shadow_config =
  kv_source_layer_ids :: "nat list"
  index_source_layer_ids :: "nat list"
  compress_ratios :: "nat list"
  candidate_source_layer_id :: int
  candidate_topk_blocks :: nat

definition rank_ranges :: "(nat \<Rightarrow> nat \<Rightarrow> nat \<Rightarrow> nat \<times> nat) \<Rightarrow> nat \<Rightarrow> nat \<Rightarrow> (nat \<times> nat) list" where
  "rank_ranges indices world_size num_layers = map (\<lambda>r. indices num_layers r world_size) [0..<world_size]"

text \<open>\<open>max(s for s in sources if s <= layer)\<close>, which raises on no candidate.\<close>

definition max_source :: "nat list \<Rightarrow> nat \<Rightarrow> nat res" where
  "max_source sources layer =
     (let c = filter (\<lambda>s. s \<le> layer) sources
      in if c = [] then Err ValueError else Ok (Max (set c)))"

definition shadow_needs_step ::
  "shadow_config \<Rightarrow> nat \<Rightarrow> nat \<Rightarrow> (nat, bool) dict \<Rightarrow> (nat, bool) dict res" where
  "shadow_needs_step cfg start layer needed =
     (let ratios = compress_ratios cfg in
      if layer \<ge> length ratios \<or> ratios ! layer = 0 then Ok needed
      else bindE (max_source (kv_source_layer_ids cfg) layer) (\<lambda>kv_src.
        let needed1 = (if kv_src < start then dict_setdefault kv_src False needed else needed) in
        bindE (max_source (index_source_layer_ids cfg) layer) (\<lambda>idx_src.
        Ok (if idx_src < start then dict_set idx_src True needed1 else needed1))))"

definition shadow_needs_for :: "shadow_config \<Rightarrow> nat \<Rightarrow> nat \<Rightarrow> (nat, bool) dict res" where
  "shadow_needs_for cfg start end = foldE (shadow_needs_step cfg start) [start..<end] []"

definition shadow_ids_for :: "shadow_config \<Rightarrow> nat \<Rightarrow> nat \<Rightarrow> nat list res" where
  "shadow_ids_for cfg start end = bindE (shadow_needs_for cfg start end) (\<lambda>d. Ok (sort (dict_keys d)))"

definition index_sources_ok :: "shadow_config \<Rightarrow> nat \<Rightarrow> bool" where
  "index_sources_ok cfg start =
     (let ratios = compress_ratios cfg in
      if start = 0 \<or> start \<ge> length ratios \<or> ratios ! start = 0 then True
      else start \<in> set (index_source_layer_ids cfg))"

record shadow_plan =
  plan_start :: nat
  plan_end :: nat
  plan_rank :: nat
  shadow_needs :: "(nat, bool) dict"
  shadow_ids :: "nat list"
  ship_ids :: "nat list"
  owned_ship_ids :: "nat list"
  recv_ids :: "nat list"
  cand_blocks :: nat
  ship_cand :: bool
  recv_cand :: bool

text \<open>\<open>sorted\<close> of a set, the set given as a list.\<close>

definition sorted_set :: "nat list \<Rightarrow> nat list" where
  "sorted_set xs = sort (remdups xs)"

definition later_needs ::
  "shadow_config \<Rightarrow> (nat \<times> nat) list \<Rightarrow> nat \<Rightarrow> nat list res" where
  "later_needs cfg ranges rank =
     foldE (\<lambda>r acc. bindE (shadow_ids_for cfg (fst (ranges ! r)) (snd (ranges ! r))) (\<lambda>ids. Ok (acc @ ids)))
       [rank + 1..<length ranges] []"

definition pp_shadow_plan ::
  "(nat \<Rightarrow> nat \<Rightarrow> nat \<Rightarrow> nat \<times> nat) \<Rightarrow> nat \<Rightarrow> nat \<Rightarrow> shadow_config \<Rightarrow> nat \<Rightarrow> nat \<Rightarrow> nat \<Rightarrow> shadow_plan res" where
  "pp_shadow_plan indices world_size rank cfg num_layers start end =
     (let ranges = rank_ranges indices world_size num_layers in
      bindE (if rank > 0 then shadow_needs_for cfg start end else Ok []) (\<lambda>needs.
      bindE (later_needs cfg ranges rank) (\<lambda>later.
      let shadow = sort (dict_keys needs);
          ship = sorted_set (filter (\<lambda>s. s < end) later);
          cand_src = candidate_source_layer_id cfg;
          blocks = candidate_topk_blocks cfg;
          has_cand = (cand_src \<ge> 0 \<and> blocks > 0)
      in Ok \<lparr>plan_start = start, plan_end = end, plan_rank = rank,
             shadow_needs = needs, shadow_ids = shadow, ship_ids = ship,
             owned_ship_ids = filter (\<lambda>s. start \<le> s \<and> s < end) ship,
             recv_ids = sorted_set (shadow @ filter (\<lambda>s. s < start) ship),
             cand_blocks = blocks,
             ship_cand = (has_cand \<and> cand_src < int end \<and>
               (\<exists>r \<in> set [rank + 1..<length ranges]. int (snd (ranges ! r)) > cand_src + 1)),
             recv_cand = (has_cand \<and> int start > cand_src)\<rparr>)))"

definition plan_active :: "shadow_plan \<Rightarrow> bool" where
  "plan_active p \<longleftrightarrow> shadow_ids p \<noteq> [] \<or> ship_ids p \<noteq> [] \<or> ship_cand p \<or> recv_cand p"

fun remap_shadow_weight_name :: "string \<Rightarrow> nat list \<Rightarrow> string" where
  "remap_shadow_weight_name name [] = name"
| "remap_shadow_weight_name name (s # ids) =
     (let pfx = ''layers.'' @ show_nat s @ ''.attn.'' in
      if starts_with pfx name
      then ''shadow_sources.'' @ show_nat s @ ''.attn.'' @ drop (length pfx) name
      else remap_shadow_weight_name name ids)"

section \<open>The exchange of intermediate tensors\<close>

definition src_key :: "nat \<Rightarrow> string" where
  "src_key s = ''dsv41_src'' @ show_nat s"

definition cand_key :: string where
  "cand_key = ''dsv41_cand''"

type_synonym 'row tensors = "(string, 'row list) dict"

text \<open>The keys and row counts that dummy runs declare.\<close>

definition make_empty_intermediate_tensors :: "'row \<Rightarrow> shadow_plan \<Rightarrow> nat \<Rightarrow> 'row tensors" where
  "make_empty_intermediate_tensors zero plan batch_size =
     (let z = replicate batch_size zero;
          t1 = [(''hidden_states'', z), (''pre_mix'', z)];
          t2 = fold (\<lambda>s d. dict_set (src_key s) z d) (recv_ids plan) t1
      in if ship_cand plan \<or> recv_cand plan then dict_set cand_key z t2 else t2)"

definition getitem :: "('k, 'v) dict \<Rightarrow> 'k \<Rightarrow> 'v res" where
  "getitem d k = (case dict_get d k of None \<Rightarrow> Err KeyError | Some v \<Rightarrow> Ok v)"

text \<open>\<open>buf[:n].copy_(t)\<close>: the row counts agree or the one row of \<open>t\<close> is
  broadcast.\<close>

definition copy_rows :: "nat \<Rightarrow> 'row list \<Rightarrow> 'row list \<Rightarrow> 'row list res" where
  "copy_rows n t buf =
     (let k = length (take n buf) in
      if length t = k then Ok (t @ drop n buf)
      else if length t = 1 then Ok (replicate k (hd t) @ drop n buf)
      else Err RuntimeError)"

text \<open>What a rank keeps between its steps: the candidate buffer, and the caches
  that shadows and layers write (opaque).\<close>

record ('row, 'cache) rank_state =
  candidate_block_buffer :: "'row list option"
  caches :: 'cache

definition recv_candidates ::
  "shadow_plan \<Rightarrow> nat \<Rightarrow> 'row tensors \<Rightarrow> ('row, 'cache) rank_state \<Rightarrow> ('row, 'cache) rank_state res" where
  "recv_candidates plan num_tokens it st =
     (if recv_cand plan then
        (case candidate_block_buffer st of
           None \<Rightarrow> Err TypeError
         | Some buf \<Rightarrow>
             bindE (getitem it cand_key) (\<lambda>t.
             bindE (copy_rows num_tokens (take num_tokens t) buf) (\<lambda>buf1.
             Ok (st\<lparr>candidate_block_buffer := Some buf1\<rparr>))))
      else Ok st)"

text \<open>\<open>run\<close> stands for \<open>ShadowSource.run\<close> of the shadow of a layer, on the
  shipped rows and the top-k flag.\<close>

definition run_shadows ::
  "(nat \<Rightarrow> 'row list \<Rightarrow> bool \<Rightarrow> ('row, 'cache) rank_state \<Rightarrow> ('row, 'cache) rank_state)
   \<Rightarrow> shadow_plan \<Rightarrow> nat \<Rightarrow> 'row tensors \<Rightarrow> ('row, 'cache) rank_state \<Rightarrow> ('row, 'cache) rank_state res" where
  "run_shadows run plan num_tokens it =
     foldE (\<lambda>s st.
       bindE (getitem it (src_key s)) (\<lambda>x.
       bindE (getitem (shadow_needs plan) s) (\<lambda>need_topk.
       Ok (run s (take num_tokens x) need_topk st)))) (shadow_ids plan)"

definition ship_tensors ::
  "shadow_plan \<Rightarrow> nat \<Rightarrow> (nat \<Rightarrow> 'row list) \<Rightarrow> 'row tensors option \<Rightarrow> 'row tensors \<Rightarrow> 'row tensors res" where
  "ship_tensors plan num_tokens shipped_x it =
     foldE (\<lambda>s out.
       if s \<in> set (owned_ship_ids plan) then Ok (dict_set (src_key s) (shipped_x s) out)
       else (case it of
               None \<Rightarrow> Err AssertionError
             | Some d \<Rightarrow> bindE (getitem d (src_key s)) (\<lambda>x.
                 Ok (dict_set (src_key s) (take num_tokens x) out)))) (ship_ids plan)"

definition ship_candidates ::
  "shadow_plan \<Rightarrow> nat \<Rightarrow> ('row, 'cache) rank_state \<Rightarrow> 'row tensors \<Rightarrow> 'row tensors res" where
  "ship_candidates plan num_tokens st out =
     (if ship_cand plan then
        (case candidate_block_buffer st of
           None \<Rightarrow> Err AssertionError
         | Some buf \<Rightarrow> Ok (dict_set cand_key (take num_tokens buf) out))
      else Ok out)"

text \<open>The outcome of one rank's forward pass: the state it leaves, the attention
  input of each of its layers, and the tensors it sends (none on the last
  rank, whose output goes to the sampler).\<close>

record ('row, 'cache) rank_result =
  res_state :: "('row, 'cache) rank_state"
  attn_x :: "nat \<Rightarrow> 'row list"
  sent :: "'row tensors option"

text \<open>The forward pass with the numerical work as parameters: \<open>embeds\<close> the input
  embedding, \<open>run\<close> the shadows, \<open>layers\<close> the decoder layers of the rank, which
  give the new state, the attention input of each layer, the hidden states
  and the pre-mix.\<close>

definition forward ::
  "'row list \<Rightarrow>
   (nat \<Rightarrow> 'row list \<Rightarrow> bool \<Rightarrow> ('row, 'cache) rank_state \<Rightarrow> ('row, 'cache) rank_state) \<Rightarrow>
   (('row, 'cache) rank_state \<Rightarrow> 'row list \<Rightarrow> 'row list option \<Rightarrow>
      ('row, 'cache) rank_state \<times> (nat \<Rightarrow> 'row list) \<times> 'row list \<times> 'row list) \<Rightarrow>
   shadow_plan \<Rightarrow> nat \<Rightarrow> nat \<Rightarrow> ('row, 'cache) rank_state \<Rightarrow> 'row tensors option
   \<Rightarrow> ('row, 'cache) rank_result res" where
  "forward embeds run layers plan world_size num_tokens st it =
     (let first = (plan_rank plan = 0); last = (plan_rank plan + 1 = world_size) in
      bindE (if first then Ok (embeds, None, st)
             else (case it of
                     None \<Rightarrow> Err AssertionError
                   | Some d \<Rightarrow>
                       bindE (getitem d ''hidden_states'') (\<lambda>hs.
                       bindE (getitem d ''pre_mix'') (\<lambda>pm.
                       bindE (recv_candidates plan num_tokens d st) (\<lambda>st1.
                       bindE (run_shadows run plan num_tokens d st1) (\<lambda>st2.
                       Ok (hs, Some pm, st2))))))) (\<lambda>(hs, pm, st2).
      let (st3, x, hs3, pm3) = layers st2 hs pm in
      if last then Ok \<lparr>res_state = st3, attn_x = x, sent = None\<rparr>
      else
        bindE (ship_tensors plan num_tokens x it [(''hidden_states'', hs3), (''pre_mix'', pm3)]) (\<lambda>out1.
        bindE (ship_candidates plan num_tokens st3 out1) (\<lambda>out2.
        Ok \<lparr>res_state = st3, attn_x = x, sent = Some out2\<rparr>))))"

text \<open>The ranks one after the other, each on the tensors the previous one sent;
  rank \<open>r\<close> starts from \<open>states r\<close>.\<close>

fun pipeline ::
  "(nat \<Rightarrow> ('row, 'cache) rank_state \<Rightarrow> 'row tensors option \<Rightarrow> ('row, 'cache) rank_result res)
   \<Rightarrow> (nat \<Rightarrow> ('row, 'cache) rank_state) \<Rightarrow> nat \<Rightarrow> ('row, 'cache) rank_result list res" where
  "pipeline fwd states 0 = Ok []"
| "pipeline fwd states (Suc r) =
     bindE (pipeline fwd states r) (\<lambda>rs.
     bindE (fwd r (states r) (if rs = [] then None else sent (last rs))) (\<lambda>x. Ok (rs @ [x])))"


section \<open>The needs of a rank\<close>

abbreviation sparse_layer :: "shadow_config \<Rightarrow> nat \<Rightarrow> bool" where
  "sparse_layer cfg l \<equiv> l < length (compress_ratios cfg) \<and> compress_ratios cfg ! l \<noteq> 0"

text \<open>Every compressed layer has a kv source and an index source at or before it.\<close>

definition config_ok :: "shadow_config \<Rightarrow> bool" where
  "config_ok cfg \<longleftrightarrow>
     (\<forall>l \<in> set [0..<length (compress_ratios cfg)]. compress_ratios cfg ! l \<noteq> 0 \<longrightarrow>
        (\<exists>s \<in> set (kv_source_layer_ids cfg). s \<le> l) \<and> (\<exists>s \<in> set (index_source_layer_ids cfg). s \<le> l))"

definition source_of :: "nat list \<Rightarrow> nat \<Rightarrow> nat" where
  "source_of sources l = Max {s \<in> set sources. s \<le> l}"

text \<open>The sources of the compressed layers of \<open>[a, b)\<close> that lie before \<open>a\<close>.\<close>

definition outside_sources :: "shadow_config \<Rightarrow> nat list \<Rightarrow> nat \<Rightarrow> nat \<Rightarrow> nat set" where
  "outside_sources cfg sources a b =
     {source_of sources l | l. a \<le> l \<and> l < b \<and> sparse_layer cfg l \<and> source_of sources l < a}"

abbreviation kv_outside :: "shadow_config \<Rightarrow> nat \<Rightarrow> nat \<Rightarrow> nat set" where
  "kv_outside cfg \<equiv> outside_sources cfg (kv_source_layer_ids cfg)"

abbreviation idx_outside :: "shadow_config \<Rightarrow> nat \<Rightarrow> nat \<Rightarrow> nat set" where
  "idx_outside cfg \<equiv> outside_sources cfg (index_source_layer_ids cfg)"

lemma max_source_Ok: "\<exists>s \<in> set sources. s \<le> l \<Longrightarrow> max_source sources l = Ok (source_of sources l)"
  by (auto simp: max_source_def source_of_def Let_def filter_empty_conv)

lemma outside_sources_empty [simp]: "outside_sources cfg sources a a = {}"
  by (auto simp: outside_sources_def)

lemma outside_sources_Suc:
  "a \<le> b \<Longrightarrow> outside_sources cfg sources a (Suc b) = outside_sources cfg sources a b \<union>
     (if sparse_layer cfg b \<and> source_of sources b < a then {source_of sources b} else {})"
  by (auto simp: outside_sources_def less_Suc_eq)

lemma outside_sources_less: "s \<in> outside_sources cfg sources a b \<Longrightarrow> s < a"
  by (auto simp: outside_sources_def)

definition needs_map :: "shadow_config \<Rightarrow> nat \<Rightarrow> nat \<Rightarrow> nat \<Rightarrow> bool option" where
  "needs_map cfg a b k =
     (if k \<in> idx_outside cfg a b then Some True else if k \<in> kv_outside cfg a b then Some False else None)"

lemma shadow_needs_step_Ok:
  assumes "config_ok cfg" and "a \<le> b" and "dict_get d = needs_map cfg a b" and "distinct (dict_keys d)"
  shows "\<exists>d'. shadow_needs_step cfg a b d = Ok d' \<and> dict_get d' = needs_map cfg a (Suc b) \<and> distinct (dict_keys d')"
proof (cases "sparse_layer cfg b")
  case False
  then show ?thesis using assms
    by (auto simp: shadow_needs_step_def Let_def needs_map_def fun_eq_iff outside_sources_Suc)
next
  case True
  define k i where "k = source_of (kv_source_layer_ids cfg) b" and "i = source_of (index_source_layer_ids cfg) b"
  define d1 where "d1 = (if k < a then dict_setdefault k False d else d)"
  define d2 where "d2 = (if i < a then dict_set i True d1 else d1)"
  have "shadow_needs_step cfg a b d = Ok d2"
    using assms(1) True
    by (auto simp: shadow_needs_step_def config_ok_def max_source_Ok Let_def d1_def d2_def k_def i_def)
  moreover have "dict_get d2 x = needs_map cfg a (Suc b) x" for x
    using assms(2,3) True
    by (auto simp: d2_def d1_def dict_get_setdefault needs_map_def outside_sources_Suc k_def [symmetric]
        i_def [symmetric] split: option.splits)
  moreover have "distinct (dict_keys d2)" using assms(4) by (simp add: d2_def d1_def)
  ultimately show ?thesis by (auto simp: fun_eq_iff)
qed

lemma shadow_needs_for_Ok:
  assumes "config_ok cfg" and "a \<le> b"
  obtains d where "shadow_needs_for cfg a b = Ok d" "dict_get d = needs_map cfg a b" "distinct (dict_keys d)"
proof -
  have "\<exists>d. foldE (shadow_needs_step cfg a) [a..<b] [] = Ok d \<and> dict_get d = needs_map cfg a b
    \<and> distinct (dict_keys d)"
    using assms(2)
  proof (induction rule: dec_induct)
    case base
    then show ?case by (auto simp: needs_map_def fun_eq_iff)
  next
    case (step n)
    then obtain d where d: "foldE (shadow_needs_step cfg a) [a..<n] [] = Ok d"
      "dict_get d = needs_map cfg a n" "distinct (dict_keys d)" by blast
    show ?case using shadow_needs_step_Ok [OF assms(1) step(1) d(2,3)] step(1) d(1) by (auto simp: foldE_append)
  qed
  then show ?thesis using that by (auto simp: shadow_needs_for_def)
qed

text \<open>The sources a rank over \<open>[a, b)\<close> shadows.\<close>

definition outside :: "shadow_config \<Rightarrow> nat \<Rightarrow> nat \<Rightarrow> nat set" where
  "outside cfg a b = kv_outside cfg a b \<union> idx_outside cfg a b"

lemma outside_less: "s \<in> outside cfg a b \<Longrightarrow> s < a"
  by (auto simp: outside_def dest: outside_sources_less)

lemma dom_needs_map: "dom (needs_map cfg a b) = outside cfg a b"
  by (auto simp: needs_map_def outside_def split: if_splits)

lemma shadow_ids_for_Ok:
  assumes "config_ok cfg" and "a \<le> b"
  obtains ids where "shadow_ids_for cfg a b = Ok ids" "set ids = outside cfg a b"
proof -
  obtain d where d: "shadow_needs_for cfg a b = Ok d" "dict_get d = needs_map cfg a b"
    using shadow_needs_for_Ok [OF assms] .
  have "set (dict_keys d) = outside cfg a b"
    by (simp only: set_dict_keys d(2) dom_needs_map)
  then show ?thesis using that d(1) by (simp add: shadow_ids_for_def)
qed

lemma later_needs_Ok:
  assumes "config_ok cfg" and "\<And>r. r < length ranges \<Longrightarrow> fst (ranges ! r) \<le> snd (ranges ! r)"
  obtains ids where "later_needs cfg ranges rank = Ok ids"
    "set ids = (\<Union>r \<in> {rank + 1..<length ranges}. outside cfg (fst (ranges ! r)) (snd (ranges ! r)))"
proof -
  let ?f = "\<lambda>r acc. bindE (shadow_ids_for cfg (fst (ranges ! r)) (snd (ranges ! r))) (\<lambda>ids. Ok (acc @ ids))"
  have "\<exists>ids. foldE ?f rs acc = Ok ids
    \<and> set ids = set acc \<union> (\<Union>r \<in> set rs. outside cfg (fst (ranges ! r)) (snd (ranges ! r)))"
    if "\<forall>r \<in> set rs. r < length ranges" for rs acc
    using that
  proof (induction rs arbitrary: acc)
    case (Cons r rs)
    obtain ids where ids: "shadow_ids_for cfg (fst (ranges ! r)) (snd (ranges ! r)) = Ok ids"
      "set ids = outside cfg (fst (ranges ! r)) (snd (ranges ! r))"
      using shadow_ids_for_Ok [OF assms(1) assms(2)] Cons.prems by auto
    then show ?case using Cons.IH [of "acc @ ids"] Cons.prems by (auto simp: Un_assoc)
  qed simp
  from this [of "[rank + 1..<length ranges]" "[]"] show ?thesis using that by (auto simp: later_needs_def)
qed


section \<open>Plans of neighbouring ranks agree\<close>

text \<open>What the code relies on of \<open>get_pp_indices\<close>: the ranks' ranges are
  consecutive, start at layer 0, and each rank has a layer.\<close>

definition contiguous :: "(nat \<Rightarrow> nat \<Rightarrow> nat \<Rightarrow> nat \<times> nat) \<Rightarrow> nat \<Rightarrow> nat \<Rightarrow> bool" where
  "contiguous indices world_size num_layers \<longleftrightarrow>
     fst (indices num_layers 0 world_size) = 0 \<and>
     (\<forall>r \<in> set [0..<world_size]. fst (indices num_layers r world_size) < snd (indices num_layers r world_size)) \<and>
     (\<forall>r \<in> set [0..<world_size - 1]. fst (indices num_layers (Suc r) world_size) = snd (indices num_layers r world_size))"

text \<open>The plan of rank \<open>r\<close>, as the model constructs it.\<close>

definition plan_of ::
  "(nat \<Rightarrow> nat \<Rightarrow> nat \<Rightarrow> nat \<times> nat) \<Rightarrow> nat \<Rightarrow> shadow_config \<Rightarrow> nat \<Rightarrow> nat \<Rightarrow> shadow_plan res" where
  "plan_of indices world_size cfg num_layers r =
     (let (start, end) = indices num_layers r world_size
      in pp_shadow_plan indices world_size r cfg num_layers start end)"

text \<open>What rank \<open>r\<close> must send on: the sources below the end of its range that
  a later rank shadows.\<close>

definition wanted_later ::
  "(nat \<Rightarrow> nat \<Rightarrow> nat \<Rightarrow> nat \<times> nat) \<Rightarrow> nat \<Rightarrow> shadow_config \<Rightarrow> nat \<Rightarrow> nat \<Rightarrow> nat set" where
  "wanted_later indices world_size cfg num_layers r =
     {s. s < snd (indices num_layers r world_size) \<and>
         (\<exists>q. r < q \<and> q < world_size \<and>
            s \<in> outside cfg (fst (indices num_layers q world_size)) (snd (indices num_layers q world_size)))}"

lemma set_sorted_set [simp]: "set (sorted_set xs) = set xs"
  by (simp add: sorted_set_def)

lemma sorted_set_unique: "set xs = set ys \<Longrightarrow> sorted_set xs = sorted_set ys"
  unfolding sorted_set_def by (metis sorted_list_of_set_sort_remdups)

lemma outside_0 [simp]: "outside cfg 0 b = {}"
  using outside_less by blast

lemma plan_of_Ok:
  assumes "config_ok cfg" and c: "contiguous indices w n" and "r < w"
  obtains p xs where "plan_of indices w cfg n r = Ok p" "plan_rank p = r"
    "dict_get (shadow_needs p) = needs_map cfg (fst (indices n r w)) (snd (indices n r w))"
    "set (shadow_ids p) = outside cfg (fst (indices n r w)) (snd (indices n r w))"
    "ship_ids p = sorted_set xs" "set xs = wanted_later indices w cfg n r"
    "owned_ship_ids p = filter (\<lambda>s. fst (indices n r w) \<le> s \<and> s < snd (indices n r w)) (ship_ids p)"
    "recv_ids p = sorted_set (shadow_ids p @ filter (\<lambda>s. s < fst (indices n r w)) (ship_ids p))"
    "ship_cand p \<longleftrightarrow> candidate_source_layer_id cfg \<ge> 0 \<and> candidate_topk_blocks cfg > 0 \<and>
       candidate_source_layer_id cfg < int (snd (indices n r w)) \<and>
       (\<exists>q. r < q \<and> q < w \<and> int (snd (indices n q w)) > candidate_source_layer_id cfg + 1)"
    "recv_cand p \<longleftrightarrow> candidate_source_layer_id cfg \<ge> 0 \<and> candidate_topk_blocks cfg > 0 \<and>
       int (fst (indices n r w)) > candidate_source_layer_id cfg"
proof -
  obtain a b where ab: "indices n r w = (a, b)" by (cases "indices n r w")
  have "a \<le> b" using c \<open>r < w\<close> ab by (force simp: contiguous_def)
  obtain d where d: "(if r > 0 then shadow_needs_for cfg a b else Ok []) = Ok d"
    "dict_get d = needs_map cfg a b"
  proof (cases "r = 0")
    case True
    then have "a = 0" using c ab by (simp add: contiguous_def)
    then have "needs_map cfg a b = Map.empty" using dom_needs_map [of cfg 0 b] by (simp add: dom_eq_empty_conv)
    then show ?thesis using that True by simp
  next
    case False
    then show ?thesis using that shadow_needs_for_Ok [OF assms(1) \<open>a \<le> b\<close>] by (metis gr0I)
  qed
  let ?R = "rank_ranges indices w n"
  have R: "length ?R = w" "\<And>q. q < w \<Longrightarrow> ?R ! q = indices n q w" by (simp_all add: rank_ranges_def)
  obtain ids where ids: "later_needs cfg ?R r = Ok ids"
    "set ids = (\<Union>q \<in> {r + 1..<w}. outside cfg (fst (?R ! q)) (snd (?R ! q)))"
  proof (rule later_needs_Ok [OF assms(1), of ?R r])
    show "fst (?R ! q) \<le> snd (?R ! q)" if "q < length ?R" for q
      using c that R by (auto simp: contiguous_def intro: less_imp_le)
  qed (use R in auto)
  have "x \<in> set ids \<longleftrightarrow> (\<exists>q. r < q \<and> q < w \<and> x \<in> outside cfg (fst (indices n q w)) (snd (indices n q w)))" for x
    unfolding ids(2) using R(2) by (auto simp: Suc_le_eq)
  then have "set (filter (\<lambda>s. s < b) ids) = wanted_later indices w cfg n r"
    using ab by (auto simp: wanted_later_def)
  moreover have "set (sort (dict_keys d)) = outside cfg a b"
    using d(2) dom_needs_map [of cfg a b] by (metis set_dict_keys set_sort)
  moreover have "(\<exists>q \<in> {Suc r..<w}. candidate_source_layer_id cfg + 1 < int (snd (?R ! q))) \<longleftrightarrow>
     (\<exists>q. r < q \<and> q < w \<and> int (snd (indices n q w)) > candidate_source_layer_id cfg + 1)"
    using R(2) by (auto simp: Suc_le_eq)
  moreover define ship where "ship = sorted_set (filter (\<lambda>s. s < b) ids)"
  moreover define p where "p = \<lparr>plan_start = a, plan_end = b, plan_rank = r,
    shadow_needs = d, shadow_ids = sort (dict_keys d), ship_ids = ship,
    owned_ship_ids = filter (\<lambda>s. a \<le> s \<and> s < b) ship,
    recv_ids = sorted_set (sort (dict_keys d) @ filter (\<lambda>s. s < a) ship),
    cand_blocks = candidate_topk_blocks cfg,
    ship_cand = ((candidate_source_layer_id cfg \<ge> 0 \<and> candidate_topk_blocks cfg > 0) \<and>
      candidate_source_layer_id cfg < int b \<and>
      (\<exists>q \<in> {Suc r..<w}. candidate_source_layer_id cfg + 1 < int (snd (?R ! q)))),
    recv_cand = ((candidate_source_layer_id cfg \<ge> 0 \<and> candidate_topk_blocks cfg > 0) \<and>
      int a > candidate_source_layer_id cfg)\<rparr>"
  moreover have "plan_of indices w cfg n r = Ok p"
    using d(1) ids(1) R(1) by (simp add: plan_of_def pp_shadow_plan_def ab Let_def p_def ship_def)
  ultimately show ?thesis
    using d(2) ab by (intro that [of p "filter (\<lambda>s. s < b) ids"]) simp_all
qed

lemma contiguousD:
  assumes "contiguous indices w n"
  shows "fst (indices n 0 w) = 0"
    and "r < w \<Longrightarrow> fst (indices n r w) < snd (indices n r w)"
    and "Suc r < w \<Longrightarrow> snd (indices n r w) = fst (indices n (Suc r) w)"
  using assms by (auto simp: contiguous_def)

lemma contiguous_mono:
  assumes "contiguous indices w n" and "q < w" and "r \<le> q"
  shows "fst (indices n r w) \<le> fst (indices n q w)"
  using assms(3,2)
proof (induction rule: dec_induct)
  case (step m)
  then show ?case using contiguousD(2,3) [OF assms(1), of m] by simp
qed simp

lemma wanted_next:
  assumes "contiguous indices w n" and "Suc r < w"
  shows "wanted_later indices w cfg n r =
    outside cfg (fst (indices n (Suc r) w)) (snd (indices n (Suc r) w)) \<union>
    {s \<in> wanted_later indices w cfg n (Suc r). s < fst (indices n (Suc r) w)}"
proof -
  have "snd (indices n r w) = fst (indices n (Suc r) w)"
    "fst (indices n (Suc r) w) < snd (indices n (Suc r) w)"
    using contiguousD(2,3) [OF assms(1)] assms(2) by simp_all
  moreover have "(\<exists>q. r < q \<and> q < w \<and> P q) \<longleftrightarrow> P (Suc r) \<or> (\<exists>q. Suc r < q \<and> q < w \<and> P q)" for P
  proof -
    have "r < q \<longleftrightarrow> q = Suc r \<or> Suc r < q" for q by auto
    then show ?thesis using assms(2) by auto
  qed
  ultimately show ?thesis
    using outside_less [of _ cfg "fst (indices n (Suc r) w)"] by (auto simp: wanted_later_def)
qed


lemma neighbour_plans:
  assumes "config_ok cfg" and "contiguous indices w n" and "Suc r < w"
  shows "\<exists>p p'. plan_of indices w cfg n r = Ok p \<and> plan_of indices w cfg n (Suc r) = Ok p' \<and>
    ship_ids p = recv_ids p' \<and> ship_cand p = recv_cand p' \<and> set (shadow_ids p') \<subseteq> set (recv_ids p') \<and>
    set (ship_ids p) \<subseteq> set (owned_ship_ids p) \<union> set (recv_ids p)"
proof -
  obtain p xs where p: "plan_of indices w cfg n r = Ok p" "ship_ids p = sorted_set xs"
    "set xs = wanted_later indices w cfg n r"
    "owned_ship_ids p = filter (\<lambda>s. fst (indices n r w) \<le> s \<and> s < snd (indices n r w)) (ship_ids p)"
    "recv_ids p = sorted_set (shadow_ids p @ filter (\<lambda>s. s < fst (indices n r w)) (ship_ids p))"
    and pc: "ship_cand p \<longleftrightarrow> candidate_source_layer_id cfg \<ge> 0 \<and> candidate_topk_blocks cfg > 0 \<and>
       candidate_source_layer_id cfg < int (snd (indices n r w)) \<and>
       (\<exists>q. r < q \<and> q < w \<and> int (snd (indices n q w)) > candidate_source_layer_id cfg + 1)"
    using plan_of_Ok [OF assms(1,2) Suc_lessD [OF assms(3)]] .
  obtain p' ys where p': "plan_of indices w cfg n (Suc r) = Ok p'"
    "set (shadow_ids p') = outside cfg (fst (indices n (Suc r) w)) (snd (indices n (Suc r) w))"
    "ship_ids p' = sorted_set ys" "set ys = wanted_later indices w cfg n (Suc r)"
    "recv_ids p' = sorted_set (shadow_ids p' @ filter (\<lambda>s. s < fst (indices n (Suc r) w)) (ship_ids p'))"
    and pc': "recv_cand p' \<longleftrightarrow> candidate_source_layer_id cfg \<ge> 0 \<and> candidate_topk_blocks cfg > 0 \<and>
       int (fst (indices n (Suc r) w)) > candidate_source_layer_id cfg"
    using plan_of_Ok [OF assms(1,2,3)] .
  note cut = contiguousD(2,3) [OF assms(2)]
  have "ship_ids p = recv_ids p'"
    unfolding p(2) p'(5) by (rule sorted_set_unique) (use wanted_next [OF assms(2,3)] p(3) p'(2-4) in auto)
  moreover have "ship_cand p = recv_cand p'"
  proof -
    have "\<exists>q. r < q \<and> q < w \<and> int (snd (indices n q w)) > c + 1" if "c < int (snd (indices n r w))" for c
      using that assms(3) cut(1) [of "Suc r"] cut(2) [of r] by (intro exI [of _ "Suc r"]) auto
    then show ?thesis unfolding pc pc' cut(2) [OF assms(3), symmetric] by blast
  qed
  moreover have "set (ship_ids p) \<subseteq> set (owned_ship_ids p) \<union> set (recv_ids p)"
  proof
    fix s assume s: "s \<in> set (ship_ids p)"
    then have "s < snd (indices n r w)" using p(2,3) by (simp add: wanted_later_def)
    then show "s \<in> set (owned_ship_ids p) \<union> set (recv_ids p)" unfolding p(4,5) using s by auto
  qed
  moreover have "set (shadow_ids p') \<subseteq> set (recv_ids p')" unfolding p'(5) by auto
  ultimately show ?thesis using p(1) p'(1) by blast
qed

text \<open>C16: For every configuration in which each compressed layer has its sources, and every split into consecutive non-empty ranges, the shadow plans of all ranks can be built, and each rank ships exactly what the next one receives: the shipped source layers are the next rank's received ones in the same order, candidate blocks are shipped if and only if they are received, each shadowed source is among the received ones, and what a rank ships it either owns or has received.\<close>

theorem neighbour_plans_agree:
  assumes "config_ok cfg" and "contiguous indices w n" and "Suc r < w"
  shows "\<exists>p p'. plan_of indices w cfg n r = Ok p \<and> plan_of indices w cfg n (Suc r) = Ok p' \<and>
    ship_ids p = recv_ids p' \<and> ship_cand p = recv_cand p' \<and> set (shadow_ids p') \<subseteq> set (recv_ids p') \<and>
    set (ship_ids p) \<subseteq> set (owned_ship_ids p) \<union> set (recv_ids p)"
  by (rule neighbour_plans [OF assms])

text \<open>A six-layer configuration cut inside both kinds of groups.\<close>

definition demo_config :: shadow_config where
  "demo_config = \<lparr>kv_source_layer_ids = [1, 3], index_source_layer_ids = [1, 3, 4],
     compress_ratios = [0, 4, 4, 4, 4, 4], candidate_source_layer_id = 3, candidate_topk_blocks = 8\<rparr>"

definition demo_indices :: "nat \<Rightarrow> nat \<Rightarrow> nat \<Rightarrow> nat \<times> nat" where
  "demo_indices num_layers r world_size = (2 * r, 2 * r + 2)"

lemma demo_ok: "config_ok demo_config" "contiguous demo_indices 3 6"
  by code_simp+

theorem neighbour_plans_agree_witness:
  "\<exists>p p'. plan_of demo_indices 3 demo_config 6 1 = Ok p \<and> plan_of demo_indices 3 demo_config 6 2 = Ok p' \<and>
    ship_ids p = recv_ids p' \<and> ship_cand p = recv_cand p' \<and> set (shadow_ids p') \<subseteq> set (recv_ids p') \<and>
    set (ship_ids p) \<subseteq> set (owned_ship_ids p) \<union> set (recv_ids p)"
  using neighbour_plans_agree [OF demo_ok, of 1] by (simp add: numeral_eq_Suc)



section \<open>The pipeline delivers\<close>

lemma src_key_inj [simp]: "src_key s = src_key t \<longleftrightarrow> s = t"
  by (auto simp: src_key_def dest: show_nat_inj)

lemma src_key_neq [simp]:
  "src_key s \<noteq> cand_key" "cand_key \<noteq> src_key s"
  "src_key s \<noteq> ''hidden_states''" "src_key s \<noteq> ''pre_mix''"
  "''hidden_states'' \<noteq> src_key s" "''pre_mix'' \<noteq> src_key s"
  "''hidden_states'' \<noteq> cand_key" "''pre_mix'' \<noteq> cand_key"
  by (simp_all add: src_key_def cand_key_def)

lemma getitem_Ok [simp]: "dict_get d k = Some v \<Longrightarrow> getitem d k = Ok v"
  by (simp add: getitem_def)

definition has_buffer :: "nat \<Rightarrow> ('row, 'cache) rank_state \<Rightarrow> bool" where
  "has_buffer L st \<longleftrightarrow> (\<exists>buf. candidate_block_buffer st = Some buf \<and> length buf = L)"

text \<open>What the layers of a rank must start from: its own state with the first \<open>n\<close> rows of the
  candidates \<open>cand\<close> in the buffer, if the plan receives them, and then every shadow run, in the
  plan's order, on its attention input \<open>x\<close> with the top-k flag of the plan.\<close>

definition rank_input ::
  "(nat \<Rightarrow> 'row list \<Rightarrow> bool \<Rightarrow> ('row, 'cache) rank_state \<Rightarrow> ('row, 'cache) rank_state)
   \<Rightarrow> shadow_plan \<Rightarrow> nat \<Rightarrow> 'row list \<Rightarrow> (nat \<Rightarrow> 'row list) \<Rightarrow> ('row, 'cache) rank_state
   \<Rightarrow> ('row, 'cache) rank_state" where
  "rank_input run plan n cand x st =
     fold (\<lambda>s. run s (x s) (the (dict_get (shadow_needs plan) s))) (shadow_ids plan)
       (if recv_cand plan
        then st\<lparr>candidate_block_buffer := Some (take n cand @ drop n (the (candidate_block_buffer st)))\<rparr>
        else st)"

lemma rank_input_cong:
  assumes "\<And>s. s \<in> set (shadow_ids plan) \<Longrightarrow> x s = y s" and "recv_cand plan \<Longrightarrow> take n c = take n c'"
  shows "rank_input run plan n c x st = rank_input run plan n c' y st"
  unfolding rank_input_def using assms by (intro fold_cong) auto

lemma received_Ok:
  assumes "has_buffer L st" and run: "\<And>s x b st. has_buffer L st \<Longrightarrow> has_buffer L (run s x b st)"
    and cand: "recv_cand plan \<Longrightarrow> \<exists>t. dict_get it cand_key = Some (take n t) \<and> length t = L"
    and x: "\<And>s. s \<in> set (shadow_ids plan) \<Longrightarrow> \<exists>x. dict_get it (src_key s) = Some x"
    and needs: "\<And>s. s \<in> set (shadow_ids plan) \<Longrightarrow> \<exists>b. dict_get (shadow_needs plan) s = Some b"
  defines "st' \<equiv> rank_input run plan n (the (dict_get it cand_key))
    (\<lambda>s. take n (the (dict_get it (src_key s)))) st"
  shows "bindE (recv_candidates plan n it st) (run_shadows run plan n it) = Ok st' \<and> has_buffer L st'"
proof -
  define st1 where "st1 = (if recv_cand plan
    then st\<lparr>candidate_block_buffer :=
      Some (take n (the (dict_get it cand_key)) @ drop n (the (candidate_block_buffer st)))\<rparr> else st)"
  have r: "recv_candidates plan n it st = Ok st1 \<and> has_buffer L st1"
    using assms(1) cand by (auto simp: recv_candidates_def st1_def has_buffer_def copy_rows_def)
  let ?f = "\<lambda>s. run s (take n (the (dict_get it (src_key s)))) (the (dict_get (shadow_needs plan) s))"
  have "run_shadows run plan n it st1 = Ok (fold ?f (shadow_ids plan) st1)"
    unfolding run_shadows_def by (rule foldE_Ok) (use x needs in force)
  moreover have "has_buffer L (fold ?f ss u)" if "has_buffer L u" for ss u
    using that run by (induction ss arbitrary: u) auto
  ultimately show ?thesis using r by (simp add: st'_def rank_input_def st1_def)
qed

lemma ship_tensors_Ok:
  assumes "\<forall>s \<in> set (ship_ids plan) - set (owned_ship_ids plan).
      \<exists>d. it = Some d \<and> dict_get d (src_key s) = Some (fwd s)"
  shows "\<exists>out'. ship_tensors plan n x it out = Ok out' \<and>
    (\<forall>s \<in> set (ship_ids plan).
       dict_get out' (src_key s) = Some (if s \<in> set (owned_ship_ids plan) then x s else take n (fwd s))) \<and>
    (\<forall>k. k \<notin> range src_key \<longrightarrow> dict_get out' k = dict_get out k)"
proof -
  define v where "v s = (if s \<in> set (owned_ship_ids plan) then x s else take n (fwd s))" for s
  have "ship_tensors plan n x it out = Ok (fold (\<lambda>s. dict_set (src_key s) (v s)) (ship_ids plan) out)"
    unfolding ship_tensors_def by (rule foldE_Ok) (use assms in \<open>force simp: v_def\<close>)
  moreover have "dict_get (fold (\<lambda>s. dict_set (src_key s) (v s)) ss out) (src_key s) =
      (if s \<in> set ss then Some (v s) else dict_get out (src_key s))" for s ss
    by (induction ss arbitrary: out) auto
  moreover have "dict_get (fold (\<lambda>s. dict_set (src_key s) (v s)) ss out) k = dict_get out k"
    if "k \<notin> range src_key" for k ss
    using that by (induction ss arbitrary: out) auto
  ultimately show ?thesis using v_def by simp
qed

text \<open>What a rank must find in the tensors it is sent: the two fixed entries, an
  entry for each received source, and the candidates of a buffer of the right
  size when the plan receives them.\<close>

definition tensors_ok :: "shadow_plan \<Rightarrow> nat \<Rightarrow> nat \<Rightarrow> 'row tensors \<Rightarrow> bool" where
  "tensors_ok plan n L d \<longleftrightarrow>
     {''hidden_states'', ''pre_mix''} \<union> src_key ` set (recv_ids plan) \<subseteq> dom (dict_get d) \<and>
     (recv_cand plan \<longrightarrow> (\<exists>t. dict_get d cand_key = Some (take n t) \<and> length t = L))"

text \<open>One rank's forward pass: its layers run from \<open>rank_input\<close> on the tensors \<open>it\<close> (the first rank from its own state on
  the embedding) and give the rank's result, the hidden states \<open>hs\<close> and the pre-mix \<open>pm\<close>.\<close>

definition rank_step ::
  "'row list \<Rightarrow>
   (nat \<Rightarrow> 'row list \<Rightarrow> bool \<Rightarrow> ('row, 'cache) rank_state \<Rightarrow> ('row, 'cache) rank_state) \<Rightarrow>
   (('row, 'cache) rank_state \<Rightarrow> 'row list \<Rightarrow> 'row list option \<Rightarrow>
      ('row, 'cache) rank_state \<times> (nat \<Rightarrow> 'row list) \<times> 'row list \<times> 'row list) \<Rightarrow>
   shadow_plan \<Rightarrow> nat \<Rightarrow> ('row, 'cache) rank_state \<Rightarrow> 'row tensors option \<Rightarrow> ('row, 'cache) rank_result
   \<Rightarrow> 'row list \<Rightarrow> 'row list \<Rightarrow> bool" where
  "rank_step embeds run layers plan n st it res hs pm \<longleftrightarrow>
     (if plan_rank plan = 0 then layers st embeds None
      else let d = \<lambda>k. the (dict_get (the it) k)
           in layers (rank_input run plan n (d cand_key) (\<lambda>s. take n (d (src_key s))) st)
                (d ''hidden_states'') (Some (d ''pre_mix'')))
     = (res_state res, attn_x res, hs, pm)"

lemma forward_Ok:
  assumes st: "has_buffer L st"
    and run: "\<And>s x b st. has_buffer L st \<Longrightarrow> has_buffer L (run s x b st)"
    and layers: "\<And>st hs pm. has_buffer L st \<Longrightarrow> has_buffer L (fst (layers st hs pm))"
    and it: "plan_rank plan > 0 \<Longrightarrow> \<exists>d. it = Some d \<and> tensors_ok plan n L d"
    and shadow: "set (shadow_ids plan) \<subseteq> set (recv_ids plan)"
      "\<And>s. s \<in> set (shadow_ids plan) \<Longrightarrow> \<exists>b. dict_get (shadow_needs plan) s = Some b"
    and ship: "\<And>s. s \<in> set (ship_ids plan) \<Longrightarrow> s \<notin> set (owned_ship_ids plan) \<Longrightarrow>
      plan_rank plan > 0 \<and> s \<in> set (recv_ids plan)"
  obtains res hs pm where "forward embeds run layers plan w n st it = Ok res" "has_buffer L (res_state res)"
    "rank_step embeds run layers plan n st it res hs pm"
    "plan_rank plan + 1 \<noteq> w \<Longrightarrow> \<exists>d. sent res = Some d \<and>
       dict_get d ''hidden_states'' = Some hs \<and> dict_get d ''pre_mix'' = Some pm \<and>
       (\<forall>s \<in> set (ship_ids plan). dict_get d (src_key s) =
          Some (if s \<in> set (owned_ship_ids plan) then attn_x res s
                else take n (the (dict_get (the it) (src_key s))))) \<and>
       (ship_cand plan \<longrightarrow> dict_get d cand_key = Some (take n (the (candidate_block_buffer (res_state res)))))"
proof -
  let ?m = "if plan_rank plan = 0 then Ok (embeds, None, st) else (case it of None \<Rightarrow> Err AssertionError
    | Some d \<Rightarrow> bindE (getitem d ''hidden_states'') (\<lambda>hs. bindE (getitem d ''pre_mix'') (\<lambda>pm.
        bindE (recv_candidates plan n d st) (\<lambda>st1. bindE (run_shadows run plan n d st1) (\<lambda>st2.
        Ok (hs, Some pm, st2))))))"
  let ?d = "\<lambda>k. the (dict_get (the it) k)"
  define hs where "hs = (if plan_rank plan = 0 then embeds else ?d ''hidden_states'')"
  define pm where "pm = (if plan_rank plan = 0 then None else Some (?d ''pre_mix''))"
  define st2 where "st2 = (if plan_rank plan = 0 then st
    else rank_input run plan n (?d cand_key) (\<lambda>s. take n (?d (src_key s))) st)"
  have m: "?m = Ok (hs, pm, st2)" "has_buffer L st2"
  proof -
    have "?m = Ok (hs, pm, st2) \<and> has_buffer L st2"
    proof (cases "plan_rank plan = 0")
      case False
      then obtain d where d: "it = Some d" "tensors_ok plan n L d" using it by blast
      have have_x: "\<exists>x. dict_get d (src_key s) = Some x" if "s \<in> set (shadow_ids plan)" for s
        using that shadow(1) d(2) by (auto simp: tensors_ok_def)
      have have_c: "recv_cand plan \<Longrightarrow> \<exists>t. dict_get d cand_key = Some (take n t) \<and> length t = L"
        using d(2) by (simp add: tensors_ok_def)
      note rc = received_Ok [where run = run and plan = plan and it = d and n = n, OF st run have_c have_x shadow(2)]
      obtain st1 where "recv_candidates plan n d st = Ok st1" "run_shadows run plan n d st1 = Ok st2" "has_buffer L st2"
        using rc False d(1) by (auto simp: bindE_eq_Inr_iff st2_def)
      moreover obtain h p where "dict_get d ''hidden_states'' = Some h" "dict_get d ''pre_mix'' = Some p"
        using d(2) by (auto simp: tensors_ok_def)
      ultimately show ?thesis using False d(1) by (simp add: hs_def pm_def)
    qed (use st in \<open>simp add: hs_def pm_def st2_def\<close>)
    then show "?m = Ok (hs, pm, st2)" "has_buffer L st2" by blast+
  qed
  obtain st3 x hs3 pm3 where l: "layers st2 hs pm = (st3, x, hs3, pm3)" by (metis prod_cases4)
  have st3: "has_buffer L st3" using layers [OF m(2), of hs pm] l by simp
  have fwd: "\<forall>s \<in> set (ship_ids plan) - set (owned_ship_ids plan).
      \<exists>d. it = Some d \<and> dict_get d (src_key s) = Some (the (dict_get (the it) (src_key s)))"
  proof
    fix s assume "s \<in> set (ship_ids plan) - set (owned_ship_ids plan)"
    then have "plan_rank plan > 0" "s \<in> set (recv_ids plan)" using ship by auto
    moreover obtain d where "it = Some d" "tensors_ok plan n L d" using it calculation(1) by blast
    ultimately show "\<exists>d. it = Some d \<and> dict_get d (src_key s) = Some (the (dict_get (the it) (src_key s)))"
      by (auto simp: tensors_ok_def subset_iff domIff)
  qed
  obtain out where out: "ship_tensors plan n x it [(''hidden_states'', hs3), (''pre_mix'', pm3)] = Ok out"
    "\<forall>s \<in> set (ship_ids plan). dict_get out (src_key s) = Some (if s \<in> set (owned_ship_ids plan) then x s
       else take n (the (dict_get (the it) (src_key s))))"
    "\<forall>k. k \<notin> range src_key \<longrightarrow> dict_get out k = dict_get [(''hidden_states'', hs3), (''pre_mix'', pm3)] k"
    using ship_tensors_Ok [where x = x and n = n and out = "[(''hidden_states'', hs3), (''pre_mix'', pm3)]", OF fwd]
    by (elim exE conjE)
  have two: "dict_get out ''hidden_states'' = Some hs3" "dict_get out ''pre_mix'' = Some pm3"
    using out(3) [rule_format, of "''hidden_states''"] out(3) [rule_format, of "''pre_mix''"]
    by (auto simp: image_iff)
  obtain buf where buf: "candidate_block_buffer st3 = Some buf" using st3 by (auto simp: has_buffer_def)
  let ?out = "if ship_cand plan then dict_set cand_key (take n buf) out else out"
  have "ship_candidates plan n st3 out = Ok ?out" using buf by (simp add: ship_candidates_def)
  then have fwd': "forward embeds run layers plan w n st it =
      Ok \<lparr>res_state = st3, attn_x = x, sent = (if plan_rank plan + 1 = w then None else Some ?out)\<rparr>"
    using m(1) l out(1) by (simp add: forward_def)
  have step: "rank_step embeds run layers plan n st it
      \<lparr>res_state = st3, attn_x = x, sent = (if plan_rank plan + 1 = w then None else Some ?out)\<rparr> hs3 pm3"
    using l by (simp add: rank_step_def hs_def pm_def st2_def split: if_splits)
  show ?thesis by (rule that [OF fwd' _ step]) (use st3 two out(2) buf in auto)
qed


text \<open>What rank \<open>j\<close> sent satisfies rank \<open>j + 1\<close> and carries, for each shipped
  source, the attention input its owner computed.\<close>

definition sent_ok ::
  "(nat \<Rightarrow> shadow_plan) \<Rightarrow> (nat \<Rightarrow> nat \<times> nat) \<Rightarrow> nat \<Rightarrow> nat \<Rightarrow> ('row, 'cache) rank_result list \<Rightarrow> nat \<Rightarrow> bool" where
  "sent_ok plans rng n L rs j \<longleftrightarrow>
     (\<exists>d. sent (rs ! j) = Some d \<and> tensors_ok (plans (Suc j)) n L d \<and>
        (\<forall>s \<in> set (ship_ids (plans j)). \<exists>q x. q \<le> j \<and> fst (rng q) \<le> s \<and> s < snd (rng q) \<and>
            dict_get d (src_key s) = Some x \<and> take n x = take n (attn_x (rs ! q) s)) \<and>
        (ship_cand (plans j) \<longrightarrow> (\<exists>buf. candidate_block_buffer (res_state (rs ! j)) = Some buf \<and>
            dict_get d cand_key = Some (take n buf))))"

text \<open>A run of the first ranks: each has kept its buffer and sent what the next
  one needs.\<close>

definition run_ok ::
  "(nat \<Rightarrow> shadow_plan) \<Rightarrow> (nat \<Rightarrow> nat \<times> nat) \<Rightarrow> nat \<Rightarrow> nat \<Rightarrow> nat \<Rightarrow> ('row, 'cache) rank_result list \<Rightarrow> bool" where
  "run_ok plans rng w n L rs \<longleftrightarrow>
     (\<forall>r \<in> set rs. has_buffer L (res_state r)) \<and>
     (\<forall>j < length rs. Suc j < w \<longrightarrow> sent_ok plans rng n L rs j)"

lemma sent_ok_append:
  assumes "sent_ok plans rng n L rs j" and "j < length rs"
  shows "sent_ok plans rng n L (rs @ rs') j"
proof -
  have "(rs @ rs') ! q = rs ! q" if "q \<le> j" for q using that assms(2) by (simp add: nth_append)
  then show ?thesis using assms(1) unfolding sent_ok_def by (metis (no_types, lifting) order_refl)
qed

text \<open>Facts about the plans of a whole group that the pipeline relies on.\<close>

definition plans_agree :: "(nat \<Rightarrow> shadow_plan) \<Rightarrow> (nat \<Rightarrow> nat \<times> nat) \<Rightarrow> nat \<Rightarrow> bool" where
  "plans_agree plans rng w \<longleftrightarrow>
     (\<forall>r < w. plan_rank (plans r) = r \<and> set (shadow_ids (plans r)) \<subseteq> set (recv_ids (plans r)) \<and>
        set (shadow_ids (plans r)) \<subseteq> dom (dict_get (shadow_needs (plans r))) \<and>
        set (owned_ship_ids (plans r)) \<subseteq> {s. fst (rng r) \<le> s \<and> s < snd (rng r)} \<and>
        set (ship_ids (plans r)) \<subseteq> set (owned_ship_ids (plans r)) \<union> set (recv_ids (plans r))) \<and>
     (\<forall>r. Suc r < w \<longrightarrow> ship_ids (plans r) = recv_ids (plans (Suc r)) \<and>
        ship_cand (plans r) = recv_cand (plans (Suc r))) \<and>
     recv_ids (plans 0) = []"

lemma run_ok_snoc:
  assumes agree: "plans_agree plans rng w" and rs: "run_ok plans rng w n L rs" "length rs = k" "k < w"
    and res: "has_buffer L (res_state res)"
      "Suc k \<noteq> w \<Longrightarrow> \<exists>d. sent res = Some d \<and>
       dict_get d ''hidden_states'' = Some hs \<and> dict_get d ''pre_mix'' = Some pm \<and>
       (\<forall>s \<in> set (ship_ids (plans k)). dict_get d (src_key s) =
          Some (if s \<in> set (owned_ship_ids (plans k)) then attn_x res s
                else take n (the (dict_get (the (if rs = [] then None else sent (last rs))) (src_key s))))) \<and>
       (ship_cand (plans k) \<longrightarrow> dict_get d cand_key = Some (take n (the (candidate_block_buffer (res_state res)))))"
  shows "run_ok plans rng w n L (rs @ [res])"
proof -
  have "sent_ok plans rng n L (rs @ [res]) k" if k: "Suc k < w"
  proof -
    obtain d where d: "sent res = Some d"
      "dict_get d ''hidden_states'' = Some hs \<and> dict_get d ''pre_mix'' = Some pm"
      "\<forall>s \<in> set (ship_ids (plans k)). dict_get d (src_key s) =
          Some (if s \<in> set (owned_ship_ids (plans k)) then attn_x res s
                else take n (the (dict_get (the (if rs = [] then None else sent (last rs))) (src_key s))))"
      "ship_cand (plans k) \<longrightarrow> dict_get d cand_key = Some (take n (the (candidate_block_buffer (res_state res))))"
      using res(2) k by auto
    obtain buf where buf: "candidate_block_buffer (res_state res) = Some buf" "length buf = L"
      using res(1) by (auto simp: has_buffer_def)
    have next': "ship_ids (plans k) = recv_ids (plans (Suc k))" "ship_cand (plans k) = recv_cand (plans (Suc k))"
      using agree k by (auto simp: plans_agree_def)
    have "\<exists>q x. q \<le> k \<and> fst (rng q) \<le> s \<and> s < snd (rng q) \<and>
            dict_get d (src_key s) = Some x \<and> take n x = take n (attn_x ((rs @ [res]) ! q) s)"
      if s: "s \<in> set (ship_ids (plans k))" for s
    proof (cases "s \<in> set (owned_ship_ids (plans k))")
      case True
      then have "fst (rng k) \<le> s \<and> s < snd (rng k)" using agree \<open>k < w\<close> by (auto simp: plans_agree_def)
      then show ?thesis using d(3) s True rs(2) by (intro exI [of _ k]) auto
    next
      case False
      then have sr: "s \<in> set (recv_ids (plans k))" using agree \<open>k < w\<close> s by (auto simp: plans_agree_def)
      then obtain j where j: "k = Suc j" using agree by (cases k) (auto simp: plans_agree_def)
      have "s \<in> set (ship_ids (plans j))" using sr agree \<open>k < w\<close> by (auto simp: plans_agree_def j)
      then obtain d' q x where q: "sent (rs ! j) = Some d'" "q \<le> j" "fst (rng q) \<le> s" "s < snd (rng q)"
        "dict_get d' (src_key s) = Some x" "take n x = take n (attn_x (rs ! q) s)"
        using rs \<open>k < w\<close> unfolding run_ok_def sent_ok_def j by (metis lessI)
      have "rs \<noteq> []" "last rs = rs ! j" using rs(2) j last_eq_nth [of rs] by auto
      then have "dict_get d (src_key s) = Some (take n x)" using d(3) s False q(1,5) by simp
      then show ?thesis using q rs(2) j by (intro exI [of _ q] exI [of _ "take n x"]) (auto simp: nth_append)
    qed
    moreover have "tensors_ok (plans (Suc k)) n L d"
      using d(2-4) next' buf by (auto simp: tensors_ok_def)
    ultimately show ?thesis using d(1,4) buf(1) rs(2) by (auto simp: sent_ok_def)
  qed
  then show ?thesis
    using rs res(1) sent_ok_append [of plans rng n L rs _ "[res]"] by (auto simp: run_ok_def less_Suc_eq)
qed


lemma plans_agree_of:
  assumes cfg: "config_ok cfg" and c: "contiguous indices w n" and "0 < w"
    and plans: "\<And>r. r < w \<Longrightarrow> plan_of indices w cfg n r = Ok (plans r)"
  shows "plans_agree plans (\<lambda>r. indices n r w) w"
proof -
  have "plan_rank (plans r) = r \<and> set (shadow_ids (plans r)) \<subseteq> set (recv_ids (plans r)) \<and>
      set (shadow_ids (plans r)) \<subseteq> dom (dict_get (shadow_needs (plans r))) \<and>
      set (owned_ship_ids (plans r)) \<subseteq> {s. fst (indices n r w) \<le> s \<and> s < snd (indices n r w)} \<and>
      set (ship_ids (plans r)) \<subseteq> set (owned_ship_ids (plans r)) \<union> set (recv_ids (plans r)) \<and>
      (r = 0 \<longrightarrow> recv_ids (plans r) = [])" if r: "r < w" for r
  proof -
    obtain p xs where p: "plan_of indices w cfg n r = Ok p" "plan_rank p = r"
      "dict_get (shadow_needs p) = needs_map cfg (fst (indices n r w)) (snd (indices n r w))"
      "set (shadow_ids p) = outside cfg (fst (indices n r w)) (snd (indices n r w))"
      "ship_ids p = sorted_set xs" "set xs = wanted_later indices w cfg n r"
      "owned_ship_ids p = filter (\<lambda>s. fst (indices n r w) \<le> s \<and> s < snd (indices n r w)) (ship_ids p)"
      "recv_ids p = sorted_set (shadow_ids p @ filter (\<lambda>s. s < fst (indices n r w)) (ship_ids p))"
      using plan_of_Ok [OF cfg c r] .
    have "plans r = p" using plans [OF r] p(1) by simp
    moreover have "s < snd (indices n r w)" if "s \<in> set (ship_ids p)" for s
      using that p(5,6) by (simp add: wanted_later_def)
    moreover have "recv_ids p = []" if "r = 0"
    proof -
      have "fst (indices n r w) = 0" using that contiguousD(1) [OF c] by simp
      then have "set (recv_ids p) = {}" unfolding p(8) using p(4) by auto
      then show ?thesis by simp
    qed
    ultimately show ?thesis using p(2,3,4,7,8) dom_needs_map by auto
  qed
  moreover have "ship_ids (plans r) = recv_ids (plans (Suc r)) \<and> ship_cand (plans r) = recv_cand (plans (Suc r))"
    if "Suc r < w" for r
    using neighbour_plans [OF cfg c that] plans [of r] plans [of "Suc r"] that by auto
  ultimately show ?thesis using \<open>0 < w\<close> by (simp add: plans_agree_def)
qed

text \<open>Every rank of a run made its step on what the previous one sent.\<close>

definition trace_ok ::
  "'row list \<Rightarrow>
   (nat \<Rightarrow> nat \<Rightarrow> 'row list \<Rightarrow> bool \<Rightarrow> ('row, 'cache) rank_state \<Rightarrow> ('row, 'cache) rank_state) \<Rightarrow>
   (nat \<Rightarrow> ('row, 'cache) rank_state \<Rightarrow> 'row list \<Rightarrow> 'row list option \<Rightarrow>
      ('row, 'cache) rank_state \<times> (nat \<Rightarrow> 'row list) \<times> 'row list \<times> 'row list) \<Rightarrow>
   (nat \<Rightarrow> shadow_plan) \<Rightarrow> nat \<Rightarrow> nat \<Rightarrow> (nat \<Rightarrow> ('row, 'cache) rank_state) \<Rightarrow> ('row, 'cache) rank_result list \<Rightarrow> bool" where
  "trace_ok embeds run layers plans w n states rs \<longleftrightarrow>
     (\<forall>j < length rs. \<exists>hs pm.
        rank_step embeds (run j) (layers j) (plans j) n (states j) (if j = 0 then None else sent (rs ! (j - 1)))
          (rs ! j) hs pm \<and>
        (Suc j < w \<longrightarrow> dict_get (the (sent (rs ! j))) ''hidden_states'' = Some hs \<and>
           dict_get (the (sent (rs ! j))) ''pre_mix'' = Some pm))"

lemma trace_ok_snoc:
  assumes "trace_ok embeds run layers plans w n states rs" and "length rs = k"
    and "rank_step embeds (run k) (layers k) (plans k) n (states k) (if rs = [] then None else sent (last rs)) res hs pm"
    and "Suc k \<noteq> w \<Longrightarrow> \<exists>d. sent res = Some d \<and> dict_get d ''hidden_states'' = Some hs \<and> dict_get d ''pre_mix'' = Some pm"
  shows "trace_ok embeds run layers plans w n states (rs @ [res])"
proof -
  have old: "(rs @ [res]) ! j = rs ! j" "(rs @ [res]) ! (j - 1) = rs ! (j - 1)" if "j < k" for j
    using that assms(2) by (simp_all add: nth_append)
  have prev: "(if k = 0 then None else sent ((rs @ [res]) ! (k - 1))) = (if rs = [] then None else sent (last rs))"
    using assms(2) last_conv_nth [of rs] by (auto simp: nth_append)
  have "\<exists>hs pm. rank_step embeds (run j) (layers j) (plans j) n (states j)
        (if j = 0 then None else sent ((rs @ [res]) ! (j - 1))) ((rs @ [res]) ! j) hs pm \<and>
      (Suc j < w \<longrightarrow> dict_get (the (sent ((rs @ [res]) ! j))) ''hidden_states'' = Some hs \<and>
         dict_get (the (sent ((rs @ [res]) ! j))) ''pre_mix'' = Some pm)" if "j \<le> k" for j
  proof (cases "j = k")
    case True
    have "(rs @ [res]) ! k = res" using assms(2) by (simp add: nth_append)
    then show ?thesis using assms(3,4) unfolding True prev by fastforce
  next
    case False
    then have j: "j < k" using that by simp
    show ?thesis using assms(1,2) j unfolding old [OF j] trace_ok_def by blast
  qed
  then show ?thesis using assms(2) by (simp add: trace_ok_def less_Suc_eq_le)
qed

lemma pipeline_Ok:
  assumes agree: "plans_agree plans rng w"
    and st: "\<And>r. has_buffer L (states r)"
    and run: "\<And>r s x b st. has_buffer L st \<Longrightarrow> has_buffer L (run r s x b st)"
    and layers: "\<And>r st hs pm. has_buffer L st \<Longrightarrow> has_buffer L (fst (layers r st hs pm))"
  shows "k \<le> w \<Longrightarrow> \<exists>rs. pipeline (\<lambda>r. forward embeds (run r) (layers r) (plans r) w n) states k = Ok rs \<and>
    length rs = k \<and> run_ok plans rng w n L rs \<and> trace_ok embeds run layers plans w n states rs"
proof (induction k)
  case 0
  then show ?case by (simp add: run_ok_def trace_ok_def)
next
  case (Suc k)
  then obtain rs where rs: "pipeline (\<lambda>r. forward embeds (run r) (layers r) (plans r) w n) states k = Ok rs"
    "length rs = k" "run_ok plans rng w n L rs" "trace_ok embeds run layers plans w n states rs" by auto
  have "k < w" using Suc.prems by simp
  then have p: "plan_rank (plans k) = k" "set (shadow_ids (plans k)) \<subseteq> set (recv_ids (plans k))"
    "set (shadow_ids (plans k)) \<subseteq> dom (dict_get (shadow_needs (plans k)))"
    "set (ship_ids (plans k)) \<subseteq> set (owned_ship_ids (plans k)) \<union> set (recv_ids (plans k))"
    "recv_ids (plans 0) = []"
    using agree by (simp_all add: plans_agree_def)
  let ?it = "if rs = [] then None else sent (last rs)"
  have it: "\<exists>d. ?it = Some d \<and> tensors_ok (plans k) n L d" if pos: "plan_rank (plans k) > 0"
  proof -
    obtain j where j: "k = Suc j" using pos p(1) by (cases k) auto
    then have "sent_ok plans rng n L rs j" using rs \<open>k < w\<close> by (simp add: run_ok_def)
    moreover have "rs \<noteq> []" "last rs = rs ! j" using rs(2) j last_eq_nth [of rs] by auto
    ultimately show ?thesis by (auto simp: sent_ok_def j)
  qed
  have ship: "plan_rank (plans k) > 0 \<and> s \<in> set (recv_ids (plans k))"
    if "s \<in> set (ship_ids (plans k))" "s \<notin> set (owned_ship_ids (plans k))" for s
    using that p(1,4,5) by (cases k) auto
  obtain res hs pm where res: "forward embeds (run k) (layers k) (plans k) w n (states k) ?it = Ok res"
    "has_buffer L (res_state res)"
    "rank_step embeds (run k) (layers k) (plans k) n (states k) ?it res hs pm"
    "plan_rank (plans k) + 1 \<noteq> w \<Longrightarrow> \<exists>d. sent res = Some d \<and>
       dict_get d ''hidden_states'' = Some hs \<and> dict_get d ''pre_mix'' = Some pm \<and>
       (\<forall>s \<in> set (ship_ids (plans k)). dict_get d (src_key s) =
          Some (if s \<in> set (owned_ship_ids (plans k)) then attn_x res s
                else take n (the (dict_get (the ?it) (src_key s))))) \<and>
       (ship_cand (plans k) \<longrightarrow> dict_get d cand_key = Some (take n (the (candidate_block_buffer (res_state res)))))"
    by (rule forward_Ok [where plan = "plans k" and it = ?it and n = n and L = L and st = "states k"
          and run = "run k" and layers = "layers k" and embeds = embeds and w = w])
       (use st run layers it ship p(2,3) in auto)
  have "run_ok plans rng w n L (rs @ [res])"
    by (rule run_ok_snoc [OF agree rs(3,2) \<open>k < w\<close> res(2), of hs pm]) (use res(4) p(1) in simp)
  moreover have "trace_ok embeds run layers plans w n states (rs @ [res])"
    by (rule trace_ok_snoc [OF rs(4,2) res(3)]) (use res(4) p(1) in fastforce)
  ultimately show ?case using rs(1,2) res(1) by simp
qed


text \<open>C3: Running the ranks in order on the plans they build, whatever the layers and the shadows compute,
  never fails (no missing key, no size mismatch, no failed assertion), and every rank's layers run on
  exactly what they need.  The layers of rank 0 run from its own state on the embedding.  The layers of
  rank \<open>j + 1\<close> run on the hidden states and the pre-mix of rank \<open>j\<close>, from the state in which the first rows of rank
  \<open>j\<close>'s candidate buffer have been stored, where the plan receives candidates, and in which every shadow of
  the plan has then been run, in order and with its top-k flag, on the attention input that its source layer
  computed on the earlier rank owning it, however many ranks lie between.  This assumes that shadows and
  layers keep the candidate buffer's size and that the ranks' ranges are consecutive and non-empty.\<close>

theorem pipeline_delivers:
  assumes "config_ok cfg" and "contiguous indices w nl" and "0 < w"
    and "\<And>r. r < w \<Longrightarrow> plan_of indices w cfg nl r = Ok (plans r)"
    and "\<And>r. has_buffer L (states r)"
    and "\<And>r s x b st. has_buffer L st \<Longrightarrow> has_buffer L (run r s x b st)"
    and "\<And>r st hs pm. has_buffer L st \<Longrightarrow> has_buffer L (fst (layers r st hs pm))"
  shows "\<exists>rs hs pm. pipeline (\<lambda>r. forward embeds (run r) (layers r) (plans r) w n) states w = Ok rs \<and> length rs = w \<and>
    layers 0 (states 0) embeds None = (res_state (rs ! 0), attn_x (rs ! 0), hs 0, pm 0) \<and>
    (\<forall>j. Suc j < w \<longrightarrow> (\<exists>own.
       (\<forall>s \<in> set (shadow_ids (plans (Suc j))). own s \<le> j \<and>
          fst (indices nl (own s) w) \<le> s \<and> s < snd (indices nl (own s) w)) \<and>
       layers (Suc j)
         (rank_input (run (Suc j)) (plans (Suc j)) n (the (candidate_block_buffer (res_state (rs ! j))))
            (\<lambda>s. take n (attn_x (rs ! own s) s)) (states (Suc j)))
         (hs j) (Some (pm j))
       = (res_state (rs ! Suc j), attn_x (rs ! Suc j), hs (Suc j), pm (Suc j))))"
proof -
  let ?rng = "\<lambda>r. indices nl r w"
  have agree: "plans_agree plans ?rng w"
    by (rule plans_agree_of [OF assms(1-3)]) (use assms(4) in simp)
  obtain rs where rs: "pipeline (\<lambda>r. forward embeds (run r) (layers r) (plans r) w n) states w = Ok rs"
    "length rs = w" "run_ok plans ?rng w n L rs" "trace_ok embeds run layers plans w n states rs"
    using pipeline_Ok [where L = L and states = states and run = run and layers = layers and k = w
        and embeds = embeds and n = n, OF agree assms(5-7) order_refl] by blast
  obtain hs pm where step: "\<And>j. j < w \<Longrightarrow> rank_step embeds (run j) (layers j) (plans j) n (states j)
        (if j = 0 then None else sent (rs ! (j - 1))) (rs ! j) (hs j) (pm j)"
    and out: "\<And>j. Suc j < w \<Longrightarrow> dict_get (the (sent (rs ! j))) ''hidden_states'' = Some (hs j) \<and>
           dict_get (the (sent (rs ! j))) ''pre_mix'' = Some (pm j)"
    using rs(2,4) unfolding trace_ok_def by (metis Suc_lessD)
  have rank: "plan_rank (plans r) = r" if "r < w" for r using agree that by (simp add: plans_agree_def)
  have first: "layers 0 (states 0) embeds None = (res_state (rs ! 0), attn_x (rs ! 0), hs 0, pm 0)"
    using step [OF assms(3)] rank [OF assms(3)] by (simp add: rank_step_def)
  have "\<exists>own. (\<forall>s \<in> set (shadow_ids (plans (Suc j))). own s \<le> j \<and> fst (?rng (own s)) \<le> s \<and> s < snd (?rng (own s))) \<and>
       layers (Suc j) (rank_input (run (Suc j)) (plans (Suc j)) n (the (candidate_block_buffer (res_state (rs ! j))))
            (\<lambda>s. take n (attn_x (rs ! own s) s)) (states (Suc j))) (hs j) (Some (pm j))
       = (res_state (rs ! Suc j), attn_x (rs ! Suc j), hs (Suc j), pm (Suc j))" if j: "Suc j < w" for j
  proof -
    have "sent_ok plans ?rng n L rs j" using rs(2,3) j by (simp add: run_ok_def)
    then obtain d where d: "sent (rs ! j) = Some d"
      "\<forall>s \<in> set (ship_ids (plans j)). \<exists>q x. q \<le> j \<and> fst (?rng q) \<le> s \<and> s < snd (?rng q) \<and>
          dict_get d (src_key s) = Some x \<and> take n x = take n (attn_x (rs ! q) s)"
      "ship_cand (plans j) \<longrightarrow> (\<exists>buf. candidate_block_buffer (res_state (rs ! j)) = Some buf \<and>
          dict_get d cand_key = Some (take n buf))"
      unfolding sent_ok_def by (elim exE conjE)
    have sub: "set (shadow_ids (plans (Suc j))) \<subseteq> set (ship_ids (plans j))"
      "recv_cand (plans (Suc j)) = ship_cand (plans j)"
      using agree j by (simp_all add: plans_agree_def)
    obtain own where own: "\<forall>s \<in> set (shadow_ids (plans (Suc j))). own s \<le> j \<and> fst (?rng (own s)) \<le> s
        \<and> s < snd (?rng (own s)) \<and> take n (the (dict_get d (src_key s))) = take n (attn_x (rs ! own s) s)"
      using d(2) sub(1) by (metis option.sel subsetD)
    have eq: "rank_input (run (Suc j)) (plans (Suc j)) n (the (dict_get d cand_key))
          (\<lambda>s. take n (the (dict_get d (src_key s)))) (states (Suc j))
        = rank_input (run (Suc j)) (plans (Suc j)) n (the (candidate_block_buffer (res_state (rs ! j))))
          (\<lambda>s. take n (attn_x (rs ! own s) s)) (states (Suc j))"
      using own d(3) sub(2) by (intro rank_input_cong) auto
    have "layers (Suc j) (rank_input (run (Suc j)) (plans (Suc j)) n (the (dict_get d cand_key))
          (\<lambda>s. take n (the (dict_get d (src_key s)))) (states (Suc j))) (hs j) (Some (pm j))
        = (res_state (rs ! Suc j), attn_x (rs ! Suc j), hs (Suc j), pm (Suc j))"
      using step [OF j] rank [OF j] out [OF j] d(1) by (simp add: rank_step_def)
    then show ?thesis unfolding eq using own by (intro exI [of _ own]) blast
  qed
  then show ?thesis using rs(1,2) first by blast
qed

definition demo_plan :: "nat \<Rightarrow> shadow_plan" where
  "demo_plan r = projr (plan_of demo_indices 3 demo_config 6 r)"

text \<open>Shadows that record what they are run on.\<close>

definition demo_run ::
  "nat \<Rightarrow> nat list \<Rightarrow> bool \<Rightarrow> (nat, (nat \<times> nat list \<times> bool) list) rank_state
   \<Rightarrow> (nat, (nat \<times> nat list \<times> bool) list) rank_state" where
  "demo_run s x b st = st\<lparr>caches := caches st @ [(s, x, b)]\<rparr>"

definition demo_layers ::
  "nat \<Rightarrow> (nat, 'c) rank_state \<Rightarrow> nat list \<Rightarrow> nat list option \<Rightarrow>
   (nat, 'c) rank_state \<times> (nat \<Rightarrow> nat list) \<times> nat list \<times> nat list" where
  "demo_layers r st hs pm = (st, \<lambda>s. [10 * s, 10 * s + 1], hs, or_default hs pm)"

lemma demo_plan_Ok: "r < 3 \<Longrightarrow> plan_of demo_indices 3 demo_config 6 r = Ok (demo_plan r)"
  using plan_of_Ok [OF demo_ok, of r] by (metis demo_plan_def sum.sel(2))

theorem pipeline_delivers_witness:
  "\<exists>rs hs pm. pipeline (\<lambda>r. forward [7, 8] demo_run (demo_layers r) (demo_plan r) 3 2)
      (\<lambda>r. \<lparr>candidate_block_buffer = Some [r, r, r, r], caches = []\<rparr>) 3 = Ok rs \<and> length rs = 3 \<and>
    demo_layers 0 \<lparr>candidate_block_buffer = Some [0, 0, 0, 0], caches = []\<rparr> [7, 8] None
      = (res_state (rs ! 0), attn_x (rs ! 0), hs (0 :: nat), pm (0 :: nat)) \<and>
    (\<forall>j. Suc j < 3 \<longrightarrow> (\<exists>own.
       (\<forall>s \<in> set (shadow_ids (demo_plan (Suc j))). own s \<le> j \<and>
          fst (demo_indices 6 (own s) 3) \<le> s \<and> s < snd (demo_indices 6 (own s) 3)) \<and>
       demo_layers (Suc j)
         (rank_input demo_run (demo_plan (Suc j)) 2 (the (candidate_block_buffer (res_state (rs ! j))))
            (\<lambda>s. take 2 (attn_x (rs ! own s) s))
            \<lparr>candidate_block_buffer = Some [Suc j, Suc j, Suc j, Suc j], caches = []\<rparr>)
         (hs j) (Some (pm j))
       = (res_state (rs ! Suc j), attn_x (rs ! Suc j), hs (Suc j), pm (Suc j))))"
  by (rule pipeline_delivers [OF demo_ok, where L = 4 and run = "\<lambda>_. demo_run" and n = 2 and embeds = "[7, 8]"
        and layers = demo_layers and plans = demo_plan and states = "\<lambda>r. \<lparr>candidate_block_buffer = Some [r, r, r, r], caches = []\<rparr>"])
     (simp_all add: demo_plan_Ok has_buffer_def demo_layers_def demo_run_def)

text \<open>C30: A rank over any range of layers has everything its compressed layers read: for each such layer the kv source is on the rank or shadowed there, and the index source is on the rank or shadowed there with its top-k indices recomputed; nothing else is shadowed. No condition on the cut is needed: it may lie inside an index group.\<close>

theorem shadow_needs_exact:
  assumes "config_ok cfg" and "a \<le> b"
  shows "\<exists>d. shadow_needs_for cfg a b = Ok d \<and>
    (\<forall>l. a \<le> l \<and> l < b \<and> sparse_layer cfg l \<longrightarrow>
       (a \<le> source_of (kv_source_layer_ids cfg) l \<or> source_of (kv_source_layer_ids cfg) l \<in> set (dict_keys d)) \<and>
       (a \<le> source_of (index_source_layer_ids cfg) l \<or>
        dict_get d (source_of (index_source_layer_ids cfg) l) = Some True)) \<and>
    (\<forall>s need. dict_get d s = Some need \<longrightarrow> s < a \<and> (\<exists>l. a \<le> l \<and> l < b \<and> sparse_layer cfg l \<and>
       (if need then s = source_of (index_source_layer_ids cfg) l else s = source_of (kv_source_layer_ids cfg) l)))"
proof -
  obtain d where d: "shadow_needs_for cfg a b = Ok d" "dict_get d = needs_map cfg a b"
    using shadow_needs_for_Ok [OF assms] .
  moreover have "set (dict_keys d) = outside cfg a b" by (simp only: set_dict_keys d(2) dom_needs_map)
  ultimately show ?thesis
    by (intro exI [of _ d]) (auto simp: needs_map_def outside_def outside_sources_def split: if_splits)
qed

theorem shadow_needs_exact_witness:
  "\<not> index_sources_ok demo_config 5 \<and> (\<exists>d. shadow_needs_for demo_config 5 6 = Ok d \<and>
    (\<forall>l. 5 \<le> l \<and> l < 6 \<and> sparse_layer demo_config l \<longrightarrow>
       (5 \<le> source_of (kv_source_layer_ids demo_config) l \<or>
        source_of (kv_source_layer_ids demo_config) l \<in> set (dict_keys d)) \<and>
       (5 \<le> source_of (index_source_layer_ids demo_config) l \<or>
        dict_get d (source_of (index_source_layer_ids demo_config) l) = Some True)) \<and>
    (\<forall>s need. dict_get d s = Some need \<longrightarrow> s < 5 \<and> (\<exists>l. 5 \<le> l \<and> l < 6 \<and> sparse_layer demo_config l \<and>
       (if need then s = source_of (index_source_layer_ids demo_config) l
        else s = source_of (kv_source_layer_ids demo_config) l))))"
proof
  show "\<not> index_sources_ok demo_config 5" by code_simp
qed (rule shadow_needs_exact [OF demo_ok(1)], simp)


section \<open>Loading the shadows' weights\<close>

lemma attn_prefix_iff:
  "starts_with (''layers.'' @ show_nat t @ ''.attn.'') (''layers.'' @ show_nat s @ ''.attn.'' @ rest) \<longleftrightarrow> s = t"
proof
  assume "starts_with (''layers.'' @ show_nat t @ ''.attn.'') (''layers.'' @ show_nat s @ ''.attn.'' @ rest)"
  then obtain u where "show_nat s @ ''.attn.'' @ rest = show_nat t @ ''.attn.'' @ u"
    by (auto simp: starts_with_iff)
  then have "show_nat s @ CHR ''.'' # (''attn.'' @ rest) = show_nat t @ CHR ''.'' # (''attn.'' @ u)" by simp
  then show "s = t" by (rule show_nat_sep [THEN conjunct1]) simp
qed (auto simp: starts_with_iff)

text \<open>A checkpoint weight under the attention prefix of layer s is loaded into the shadow of layer s, with the rest of its name unchanged, exactly if s is shadowed, and keeps its name otherwise, so that layer 2 is never mistaken for layer 20 or 21; a name is only ever changed in this way.\<close>

theorem remap_shadow_weight_name_exact:
  "remap_shadow_weight_name (''layers.'' @ show_nat s @ ''.attn.'' @ rest) ids =
     (if s \<in> set ids then ''shadow_sources.'' @ show_nat s @ ''.attn.'' @ rest
      else ''layers.'' @ show_nat s @ ''.attn.'' @ rest) \<and>
   (remap_shadow_weight_name name ids = name \<or>
    (\<exists>t \<in> set ids. \<exists>u. name = ''layers.'' @ show_nat t @ ''.attn.'' @ u \<and>
       remap_shadow_weight_name name ids = ''shadow_sources.'' @ show_nat t @ ''.attn.'' @ u))"
proof
  show "remap_shadow_weight_name (''layers.'' @ show_nat s @ ''.attn.'' @ rest) ids =
     (if s \<in> set ids then ''shadow_sources.'' @ show_nat s @ ''.attn.'' @ rest
      else ''layers.'' @ show_nat s @ ''.attn.'' @ rest)"
  proof (induction ids)
    case (Cons t ids)
    show ?case
      unfolding remap_shadow_weight_name.simps attn_prefix_iff Let_def using Cons by simp
  qed simp
  show "remap_shadow_weight_name name ids = name \<or>
    (\<exists>t \<in> set ids. \<exists>u. name = ''layers.'' @ show_nat t @ ''.attn.'' @ u \<and>
       remap_shadow_weight_name name ids = ''shadow_sources.'' @ show_nat t @ ''.attn.'' @ u)"
  proof (induction ids)
    case (Cons t ids)
    show ?case
    proof (cases "starts_with (''layers.'' @ show_nat t @ ''.attn.'') name")
      case True
      then obtain u where "name = (''layers.'' @ show_nat t @ ''.attn.'') @ u" by (auto simp: starts_with_iff)
      then show ?thesis using True by auto
    qed (use Cons in auto)
  qed simp
qed

end
