(* ===== verification/Json.thy ===== *)
theory Json
  imports Prelude
begin

text \<open>
  The part of Python's \<open>json\<close> module that the chat encoder uses: \<open>json.dumps\<close>
  with \<open>ensure_ascii=False\<close> and the default separators, and \<open>json.loads\<close>
  (strict strings, duplicate keys keep the last value, \<open>NaN\<close> and the infinities
  accepted), where any decoding error is \<open>None\<close>.

  Values are Python objects as JSON produces them.  A float is represented by
  the text \<open>json.dumps\<close> prints for it; \<open>float_repr\<close>, an argument of the
  decoder, gives that text for a decimal literal (the conversion of the C
  library).  The decoder takes fuel; \<open>json_loads\<close> supplies more than the length
  of the text, and every call consumes a character.  CPython's limit of 4300
  digits for integers is not represented.

  The main result is the round trip: a decoded encoding is the value itself.
\<close>

datatype json =
    JNull
  | JBool bool
  | JInt int
  | JFloat string
  | JStr string
  | JList "json list"
  | JObj "(string \<times> json) list"

section \<open>Encoding\<close>

abbreviation dquote :: char where "dquote \<equiv> CHR 0x22"
abbreviation backslash :: char where "backslash \<equiv> CHR 0x5C"

definition hex_digit :: "nat \<Rightarrow> char" where
  "hex_digit d = (if d < 10 then char_of (48 + d) else char_of (87 + d))"

definition escape_char :: "char \<Rightarrow> string" where
  "escape_char c =
     (if c = dquote then [backslash, dquote]
      else if c = backslash then [backslash, backslash]
      else if c = CHR 0x0A then [backslash, CHR ''n'']
      else if c = CHR 0x0D then [backslash, CHR ''r'']
      else if c = CHR 0x09 then [backslash, CHR ''t'']
      else if c = CHR 0x0C then [backslash, CHR ''f'']
      else if c = CHR 0x08 then [backslash, CHR ''b'']
      else if (of_char c :: nat) < 32 then
        [backslash, CHR ''u'', CHR ''0'', CHR ''0'', hex_digit (of_char c div 16), hex_digit (of_char c mod 16)]
      else [c])"

definition dumps_str :: "string \<Rightarrow> string" where
  "dumps_str s = dquote # concat (map escape_char s) @ [dquote]"

fun json_dumps :: "json \<Rightarrow> string"
  and dumps_elems :: "json list \<Rightarrow> string"
  and dumps_members :: "(string \<times> json) list \<Rightarrow> string" where
  "json_dumps JNull = ''null''"
| "json_dumps (JBool b) = (if b then ''true'' else ''false'')"
| "json_dumps (JInt i) = show_int i"
| "json_dumps (JFloat r) = r"
| "json_dumps (JStr s) = dumps_str s"
| "json_dumps (JList xs) = ''['' @ dumps_elems xs @ '']''"
| "json_dumps (JObj d) = ''{'' @ dumps_members d @ ''}''"
| "dumps_elems [] = []"
| "dumps_elems [x] = json_dumps x"
| "dumps_elems (x # y # xs) = json_dumps x @ '', '' @ dumps_elems (y # xs)"
| "dumps_members [] = []"
| "dumps_members [(k, v)] = dumps_str k @ '': '' @ json_dumps v"
| "dumps_members ((k, v) # kv # d) = dumps_str k @ '': '' @ json_dumps v @ '', '' @ dumps_members (kv # d)"

section \<open>Decoding\<close>

abbreviation is_digit :: "char \<Rightarrow> bool" where
  "is_digit c \<equiv> c \<in> set ''0123456789''"

definition json_ws :: "string \<Rightarrow> string" where
  "json_ws s = dropWhile (\<lambda>c. c \<in> {CHR 0x20, CHR 0x09, CHR 0x0A, CHR 0x0D}) s"

definition hex_val :: "char \<Rightarrow> nat option" where
  "hex_val c =
     (let n = (of_char c :: nat) in
      if 48 \<le> n \<and> n \<le> 57 then Some (n - 48)
      else if 97 \<le> n \<and> n \<le> 102 then Some (n - 87)
      else if 65 \<le> n \<and> n \<le> 70 then Some (n - 55)
      else None)"

fun hex4 :: "string \<Rightarrow> (nat \<times> string) option" where
  "hex4 (a # b # c # d # s) =
     (case (hex_val a, hex_val b, hex_val c, hex_val d) of
        (Some p, Some q, Some r, Some t) \<Rightarrow> Some (((p * 16 + q) * 16 + r) * 16 + t, s)
      | _ \<Rightarrow> None)"
| "hex4 _ = None"

text \<open>The UTF-8 bytes of a code point; a lone surrogate takes three bytes.\<close>

definition utf8 :: "nat \<Rightarrow> string" where
  "utf8 n =
     (if n < 0x80 then [char_of n]
      else if n < 0x800 then [char_of (0xC0 + n div 64), char_of (0x80 + n mod 64)]
      else if n < 0x10000 then
        [char_of (0xE0 + n div 4096), char_of (0x80 + n div 64 mod 64), char_of (0x80 + n mod 64)]
      else [char_of (0xF0 + n div 262144), char_of (0x80 + n div 4096 mod 64),
            char_of (0x80 + n div 64 mod 64), char_of (0x80 + n mod 64)])"

definition simple_escape :: "char \<Rightarrow> char option" where
  "simple_escape c =
     (if c = dquote then Some dquote
      else if c = backslash then Some backslash
      else if c = CHR ''/'' then Some (CHR ''/'')
      else if c = CHR ''b'' then Some (CHR 0x08)
      else if c = CHR ''f'' then Some (CHR 0x0C)
      else if c = CHR ''n'' then Some (CHR 0x0A)
      else if c = CHR ''r'' then Some (CHR 0x0D)
      else if c = CHR ''t'' then Some (CHR 0x09)
      else None)"

text \<open>The escape \<open>\u\<close> after its four digits: a high surrogate joins a low one
  that follows as an escape.\<close>

definition join_surrogate :: "nat \<Rightarrow> string \<Rightarrow> nat \<times> string" where
  "join_surrogate u s =
     (if 0xD800 \<le> u \<and> u \<le> 0xDBFF then
        (case s of
           a # b # s1 \<Rightarrow>
             (if a = backslash \<and> b = CHR ''u'' then
                (case hex4 s1 of
                   Some (u2, s2) \<Rightarrow>
                     (if 0xDC00 \<le> u2 \<and> u2 \<le> 0xDFFF
                      then (0x10000 + ((u - 0xD800) * 1024 + (u2 - 0xDC00)), s2) else (u, s))
                 | None \<Rightarrow> (u, s))
              else (u, s))
         | _ \<Rightarrow> (u, s))
      else (u, s))"

text \<open>The characters of a string after its opening quote.\<close>

fun scan_string :: "nat \<Rightarrow> string \<Rightarrow> (string \<times> string) option" where
  "scan_string 0 s = None"
| "scan_string (Suc n) [] = None"
| "scan_string (Suc n) (c # s) =
     (if c = dquote then Some ([], s)
      else if c = backslash then
        (case s of
           [] \<Rightarrow> None
         | e # s1 \<Rightarrow>
             (if e = CHR ''u'' then
                (case hex4 s1 of
                   None \<Rightarrow> None
                 | Some (u, s2) \<Rightarrow>
                     (let (u', s3) = join_surrogate u s2
                      in map_option (apfst (append (utf8 u'))) (scan_string n s3)))
              else (case simple_escape e of
                      None \<Rightarrow> None
                    | Some x \<Rightarrow> map_option (apfst (Cons x)) (scan_string n s1))))
      else if (of_char c :: nat) < 32 then None
      else map_option (apfst (Cons c)) (scan_string n s))"

definition digits_val :: "string \<Rightarrow> nat" where
  "digits_val ds = foldl (\<lambda>n c. 10 * n + (of_char c - 48)) 0 ds"

text \<open>The optional fraction and exponent: the text matched and the rest.\<close>

definition scan_frac :: "string \<Rightarrow> string \<times> string" where
  "scan_frac s =
     (case s of
        c # s1 \<Rightarrow> (if c = CHR ''.'' \<and> takeWhile is_digit s1 \<noteq> []
                  then (c # takeWhile is_digit s1, dropWhile is_digit s1) else ([], s))
      | [] \<Rightarrow> ([], s))"

definition scan_exp :: "string \<Rightarrow> string \<times> string" where
  "scan_exp s =
     (case s of
        c # s1 \<Rightarrow>
          (if c = CHR ''e'' \<or> c = CHR ''E'' then
             (let (sg, s2) = (case s1 of d # s' \<Rightarrow> (if d = CHR ''+'' \<or> d = CHR ''-'' then ([d], s') else ([], s1))
                                       | [] \<Rightarrow> ([], s1))
              in if takeWhile is_digit s2 \<noteq> [] then (c # sg @ takeWhile is_digit s2, dropWhile is_digit s2) else ([], s))
           else ([], s))
      | [] \<Rightarrow> ([], s))"

text \<open>The integer part of a number without its sign.\<close>

fun scan_int :: "string \<Rightarrow> (string \<times> string) option" where
  "scan_int [] = None"
| "scan_int (c # s) =
     (if c = CHR ''0'' then Some ([c], s)
      else if is_digit c then Some (c # takeWhile is_digit s, dropWhile is_digit s)
      else None)"

definition parse_unsigned :: "(string \<Rightarrow> string) \<Rightarrow> bool \<Rightarrow> string \<Rightarrow> (json \<times> string) option" where
  "parse_unsigned float_repr neg s =
     (case scan_int s of
        None \<Rightarrow> None
      | Some (ds, s1) \<Rightarrow>
          (let (fr, s2) = scan_frac s1; (ex, s3) = scan_exp s2; sg = (if neg then ''-'' else '''')
           in if fr = [] \<and> ex = [] then Some (JInt (if neg then - int (digits_val ds) else int (digits_val ds)), s3)
              else Some (JFloat (float_repr (sg @ ds @ fr @ ex)), s3)))"

definition parse_literal :: "string \<Rightarrow> (json \<times> string) option" where
  "parse_literal s =
     (if starts_with ''null'' s then Some (JNull, drop 4 s)
      else if starts_with ''true'' s then Some (JBool True, drop 4 s)
      else if starts_with ''false'' s then Some (JBool False, drop 5 s)
      else if starts_with ''NaN'' s then Some (JFloat ''NaN'', drop 3 s)
      else if starts_with ''Infinity'' s then Some (JFloat ''Infinity'', drop 8 s)
      else if starts_with ''-Infinity'' s then Some (JFloat ''-Infinity'', drop 9 s)
      else None)"

definition parse_scalar :: "(string \<Rightarrow> string) \<Rightarrow> string \<Rightarrow> (json \<times> string) option" where
  "parse_scalar float_repr s =
     (case parse_literal s of
        Some r \<Rightarrow> Some r
      | None \<Rightarrow>
          (case s of
             c # s1 \<Rightarrow> (if c = CHR ''-'' then parse_unsigned float_repr True s1 else parse_unsigned float_repr False s)
           | [] \<Rightarrow> None))"

fun parse_value :: "(string \<Rightarrow> string) \<Rightarrow> nat \<Rightarrow> string \<Rightarrow> (json \<times> string) option"
  and parse_elems :: "(string \<Rightarrow> string) \<Rightarrow> nat \<Rightarrow> json list \<Rightarrow> string \<Rightarrow> (json list \<times> string) option"
  and parse_members :: "(string \<Rightarrow> string) \<Rightarrow> nat \<Rightarrow> (string, json) dict \<Rightarrow> string \<Rightarrow> ((string, json) dict \<times> string) option" where
  "parse_value fr 0 s = None"
| "parse_value fr (Suc n) [] = None"
| "parse_value fr (Suc n) (c # s) =
     (if c = dquote then map_option (apfst JStr) (scan_string (Suc (length s)) s)
      else if c = CHR ''['' then
        (let s1 = json_ws s in
         if starts_with '']'' s1 then Some (JList [], drop 1 s1)
         else map_option (apfst JList) (parse_elems fr n [] s1))
      else if c = CHR ''{'' then
        (let s1 = json_ws s in
         if starts_with ''}'' s1 then Some (JObj [], drop 1 s1)
         else map_option (apfst JObj) (parse_members fr n [] s1))
      else parse_scalar fr (c # s))"
| "parse_elems fr 0 acc s = None"
| "parse_elems fr (Suc n) acc s =
     (case parse_value fr n s of
        None \<Rightarrow> None
      | Some (v, s1) \<Rightarrow>
          (case json_ws s1 of
             [] \<Rightarrow> None
           | c # s2 \<Rightarrow>
               (if c = CHR '']'' then Some (acc @ [v], s2)
                else if c = CHR '','' then parse_elems fr n (acc @ [v]) (json_ws s2)
                else None)))"
| "parse_members fr 0 acc s = None"
| "parse_members fr (Suc n) acc [] = None"
| "parse_members fr (Suc n) acc (c # s) =
     (if c \<noteq> dquote then None
      else (case scan_string (Suc (length s)) s of
              None \<Rightarrow> None
            | Some (k, s1) \<Rightarrow>
                (case json_ws s1 of
                   [] \<Rightarrow> None
                 | c1 # s2 \<Rightarrow>
                     (if c1 \<noteq> CHR '':'' then None
                      else (case parse_value fr n (json_ws s2) of
                              None \<Rightarrow> None
                            | Some (v, s3) \<Rightarrow>
                                (case json_ws s3 of
                                   [] \<Rightarrow> None
                                 | c3 # s4 \<Rightarrow>
                                     (if c3 = CHR ''}'' then Some (dict_set k v acc, s4)
                                      else if c3 = CHR '','' then parse_members fr n (dict_set k v acc) (json_ws s4)
                                      else None)))))))"

definition json_loads :: "(string \<Rightarrow> string) \<Rightarrow> string \<Rightarrow> json option" where
  "json_loads fr s =
     (case parse_value fr (Suc (length s)) (json_ws s) of
        None \<Rightarrow> None
      | Some (v, s1) \<Rightarrow> (if json_ws s1 = [] then Some v else None))"


section \<open>The round trip\<close>

text \<open>Values without floats whose objects have distinct keys, as Python objects do.\<close>

fun json_plain :: "json \<Rightarrow> bool"
  and plain_elems :: "json list \<Rightarrow> bool"
  and plain_members :: "(string \<times> json) list \<Rightarrow> bool" where
  "json_plain (JFloat r) = False"
| "json_plain (JList xs) = plain_elems xs"
| "json_plain (JObj d) = (distinct (map fst d) \<and> plain_members d)"
| "json_plain v = True"
| "plain_elems [] = True"
| "plain_elems (x # xs) = (json_plain x \<and> plain_elems xs)"
| "plain_members [] = True"
| "plain_members ((k, v) # d) = (json_plain v \<and> plain_members d)"

lemma hex_val_hex_digit: "d < 16 \<Longrightarrow> hex_val (hex_digit d) = Some d"
  by (auto simp: hex_val_def hex_digit_def Let_def)

lemma hex4_control:
  assumes "n < 32"
  shows "hex4 (CHR ''0'' # CHR ''0'' # hex_digit (n div 16) # hex_digit (n mod 16) # s) = Some (n, s)"
proof -
  have "hex_val (CHR ''0'') = Some 0" by (simp add: hex_val_def)
  moreover have "n div 16 * 16 + n mod 16 = n" by simp
  ultimately show ?thesis using assms by (simp add: hex_val_hex_digit)
qed

lemma utf8_ascii: "(of_char c :: nat) < 32 \<Longrightarrow> utf8 (of_char c) = [c]"
  by (simp add: utf8_def)

lemma scan_string_escape:
  assumes "\<And>k. length cs < k \<Longrightarrow> scan_string k (s @ dquote # rest) = Some (cs, rest)" and "length cs < n"
  shows "scan_string (Suc n) (escape_char c @ s @ dquote # rest) = Some (c # cs, rest)"
proof (cases "(of_char c :: nat) < 32 \<and> c \<notin> {CHR 0x0A, CHR 0x0D, CHR 0x09, CHR 0x0C, CHR 0x08}")
  case True
  have "\<not> (of_char dquote :: nat) < 32" "\<not> (of_char backslash :: nat) < 32" by simp_all
  then have "c \<noteq> dquote" "c \<noteq> backslash" using True by blast+
  then show ?thesis using True assms
    by (simp add: escape_char_def hex4_control join_surrogate_def utf8_ascii del: hex4.simps)
next
  case False
  show ?thesis
  proof (cases "c \<in> {dquote, backslash, CHR 0x0A, CHR 0x0D, CHR 0x09, CHR 0x0C, CHR 0x08}")
    case True
    then show ?thesis using assms
      by (elim insertE) (simp_all add: escape_char_def simple_escape_def)
  next
    case other: False
    then have "escape_char c = [c]" using False by (simp add: escape_char_def)
    then show ?thesis using assms False other by simp
  qed
qed

lemma scan_string_dumps:
  "length cs < n \<Longrightarrow> scan_string n (concat (map escape_char cs) @ dquote # rest) = Some (cs, rest)"
proof (induction cs arbitrary: n)
  case Nil
  then show ?case by (cases n) auto
next
  case (Cons c cs)
  then obtain m where "n = Suc m" "length cs < m" by (cases n) auto
  then show ?case using scan_string_escape [where s = "concat (map escape_char cs)"] Cons.IH by simp
qed

lemma length_escape: "length cs \<le> length (concat (map escape_char cs))"
  by (induction cs) (auto simp: escape_char_def)

lemma digits_val_show_nat [simp]: "digits_val (show_nat n) = n"
proof (induction n rule: show_nat.induct)
  case (1 n)
  show ?case
  proof (cases "n < 10")
    case True
    then show ?thesis by (subst show_nat.simps) (simp add: digits_val_def)
  next
    case False
    then show ?thesis using 1 by (subst show_nat.simps) (simp add: digits_val_def)
  qed
qed

lemma hd_show_nat: "hd (show_nat n) = CHR ''0'' \<longleftrightarrow> n = 0"
proof (induction n rule: show_nat.induct)
  case (1 n)
  show ?case
  proof (cases "n < 10")
    case True
    have "digit_char 0 = CHR ''0''" by code_simp
    then have "digit_char n = CHR ''0'' \<longleftrightarrow> n = 0"
      using digit_char_inj [of n 0] True by (simp del: digit_char.simps)
    then show ?thesis using True by (subst show_nat.simps) (simp del: digit_char.simps)
  next
    case False
    then show ?thesis using 1 by (subst show_nat.simps) (simp add: div_eq_0_iff)
  qed
qed

text \<open>What follows a value inside a text: the end, a comma or a closing bracket.\<close>

definition stop :: "string \<Rightarrow> bool" where
  "stop rest \<longleftrightarrow> (case rest of [] \<Rightarrow> True | c # _ \<Rightarrow> c \<in> set '',]}'')"

lemma stop_simps [simp]: "stop []" "stop (CHR '','' # s)" "stop (CHR '']'' # s)" "stop (CHR ''}'' # s)"
  by (simp_all add: stop_def)

lemma takeWhile_show_nat:
  assumes "stop rest"
  shows "takeWhile is_digit (show_nat n @ rest) = show_nat n" "dropWhile is_digit (show_nat n @ rest) = rest"
proof -
  have "\<forall>c \<in> set (show_nat n). is_digit c" using show_nat_digits by blast
  moreover have "takeWhile is_digit rest = []" "dropWhile is_digit rest = rest"
    using assms by (auto simp: stop_def split: list.splits)
  ultimately show "takeWhile is_digit (show_nat n @ rest) = show_nat n" "dropWhile is_digit (show_nat n @ rest) = rest"
    by (simp_all del: set_simps)
qed

lemma scan_int_show_nat:
  assumes "stop rest"
  shows "scan_int (show_nat n @ rest) = Some (show_nat n, rest)"
proof (cases "n = 0")
  case True
  have "show_nat 0 = ''0''" by code_simp
  then show ?thesis using True by simp
next
  case False
  obtain c cs where c: "show_nat n = c # cs" by (cases "show_nat n") auto
  have "c \<noteq> CHR ''0''" using False hd_show_nat [of n] c by simp
  moreover have "is_digit c" using show_nat_digits [of c n] c by (simp del: set_simps) simp
  ultimately show ?thesis using takeWhile_show_nat [OF assms, of n] c by (auto simp del: set_simps)
qed

lemma scan_frac_exp_stop: "stop rest \<Longrightarrow> scan_frac rest = ([], rest)" "stop rest \<Longrightarrow> scan_exp rest = ([], rest)"
  by (auto simp: stop_def scan_frac_def scan_exp_def split: list.splits)

lemma parse_unsigned_show_nat:
  "stop rest \<Longrightarrow> parse_unsigned fr neg (show_nat n @ rest) = Some (JInt (if neg then - int n else int n), rest)"
  by (simp add: parse_unsigned_def scan_int_show_nat scan_frac_exp_stop)


lemma show_nat_head:
  obtains c t where "show_nat n = c # t" "is_digit c"
proof -
  obtain c t where "show_nat n = c # t" by (cases "show_nat n") auto
  then show ?thesis using that show_nat_digits by (metis list.set_intros(1))
qed

lemma parse_scalar_int:
  assumes "stop rest"
  shows "parse_scalar fr (show_int i @ rest) = Some (JInt i, rest)"
proof -
  obtain c t where c: "show_nat (nat \<bar>i\<bar>) = c # t" "is_digit c" by (rule show_nat_head)
  have "parse_literal (c # t @ rest) = None" "parse_literal (CHR ''-'' # c # t @ rest) = None" "c \<noteq> CHR ''-''"
    using c(2) by (auto simp: parse_literal_def)
  then show ?thesis
    using parse_unsigned_show_nat [OF assms, of fr "i < 0" "nat \<bar>i\<bar>"] c(1)
    by (auto simp: parse_scalar_def show_int_def)
qed

lemma show_int_head:
  obtains c t where "show_int i = c # t" "c = CHR ''-'' \<or> is_digit c"
proof (cases "i < 0")
  case True
  then show ?thesis using that by (simp add: show_int_def)
next
  case False
  then show ?thesis using that show_nat_head [of "nat i"] by (metis show_int_def)
qed

lemma dumps_head:
  assumes "json_plain v"
  obtains c t where "json_dumps v = c # t"
    "c \<notin> {CHR 0x20, CHR 0x09, CHR 0x0A, CHR 0x0D, CHR '']'', CHR ''}''}"
proof -
  have "\<exists>c t. json_dumps v = c # t \<and> c \<notin> {CHR 0x20, CHR 0x09, CHR 0x0A, CHR 0x0D, CHR '']'', CHR ''}''}"
  proof (cases v)
    case (JInt i)
    obtain c t where "show_int i = c # t" "c = CHR ''-'' \<or> is_digit c" by (rule show_int_head)
    then show ?thesis using JInt by auto
  qed (use assms in \<open>auto simp: dumps_str_def\<close>)
  then show ?thesis using that by blast
qed

lemma json_ws_dumps [simp]: "json_plain v \<Longrightarrow> json_ws (json_dumps v @ s) = json_dumps v @ s"
  by (rule dumps_head [of v]) (auto simp: json_ws_def)

lemma json_ws_stop [simp]: "stop s \<Longrightarrow> json_ws s = s"
  by (auto simp: stop_def json_ws_def split: list.splits)

lemma json_ws_simps [simp]:
  "json_ws (CHR 0x20 # s) = json_ws s" "json_ws (dquote # s) = dquote # s" "json_ws (CHR '':'' # s) = CHR '':'' # s"
  by (simp_all add: json_ws_def)

lemma dumps_elems_Cons:
  "dumps_elems (x # xs) = json_dumps x @ (if xs = [] then [] else '', '' @ dumps_elems xs)"
  by (cases xs) auto

lemma dumps_members_Cons:
  "dumps_members ((k, v) # d) = dumps_str k @ '': '' @ json_dumps v @ (if d = [] then [] else '', '' @ dumps_members d)"
  by (cases d) auto

lemma json_ws_elems [simp]: "plain_elems xs \<Longrightarrow> xs \<noteq> [] \<Longrightarrow> json_ws (dumps_elems xs @ s) = dumps_elems xs @ s"
  by (cases xs) (auto simp: dumps_elems_Cons)

lemma json_ws_members [simp]: "d \<noteq> [] \<Longrightarrow> json_ws (dumps_members d @ s) = dumps_members d @ s"
  by (cases d) (auto simp: dumps_members_Cons dumps_str_def)

lemma scan_string_str:
  "length (concat (map escape_char k)) < n \<Longrightarrow>
   scan_string n (concat (map escape_char k) @ dquote # s) = Some (k, s)"
  using length_escape [of k] by (intro scan_string_dumps) simp

lemma parse_dumps:
  "(json_plain v \<longrightarrow> length (json_dumps v) \<le> n \<longrightarrow> stop rest \<longrightarrow>
      parse_value fr n (json_dumps v @ rest) = Some (v, rest)) \<and>
   (xs \<noteq> [] \<longrightarrow> plain_elems xs \<longrightarrow> length (dumps_elems xs) < n \<longrightarrow>
      parse_elems fr n acc (dumps_elems xs @ CHR '']'' # rest) = Some (acc @ xs, rest)) \<and>
   (d \<noteq> [] \<longrightarrow> plain_members d \<longrightarrow> distinct (dict_keys (dacc @ d)) \<longrightarrow> length (dumps_members d) < n \<longrightarrow>
      parse_members fr n dacc (dumps_members d @ CHR ''}'' # rest) = Some (dacc @ d, rest))"
proof (induction n arbitrary: v xs acc d dacc rest)
  case 0
  have "json_dumps v \<noteq> []" if "json_plain v"
    by (rule dumps_head [OF that]) simp
  then show ?case by simp
next
  case (Suc n)
  have IHv: "parse_value fr n (json_dumps u @ s) = Some (u, s)"
    if "json_plain u" "length (json_dumps u) \<le> n" "stop s" for u s
    using Suc.IH [where v = u and rest = s, THEN conjunct1] that by simp
  have IHe: "parse_elems fr n a (dumps_elems ys @ CHR '']'' # s) = Some (a @ ys, s)"
    if "ys \<noteq> []" "plain_elems ys" "length (dumps_elems ys) < n" for a ys s
    using Suc.IH [where xs = ys and acc = a and rest = s, THEN conjunct2, THEN conjunct1] that by simp
  have IHm: "parse_members fr n a (dumps_members e @ CHR ''}'' # s) = Some (a @ e, s)"
    if "e \<noteq> []" "plain_members e" "distinct (dict_keys (a @ e))" "length (dumps_members e) < n" for a e s
    using Suc.IH [where d = e and dacc = a and rest = s, THEN conjunct2, THEN conjunct2] that by simp
  have "parse_value fr (Suc n) (json_dumps v @ rest) = Some (v, rest)"
    if v: "json_plain v" "length (json_dumps v) \<le> Suc n" "stop rest"
  proof (cases v)
    case (JInt i)
    obtain c t where "show_int i = c # t" "c = CHR ''-'' \<or> is_digit c" by (rule show_int_head)
    then show ?thesis using parse_scalar_int [OF v(3), of fr i] JInt by auto
  next
    case (JList xs)
    show ?thesis
    proof (cases "xs = []")
      case False
      then obtain y ys where y: "xs = y # ys" by (cases xs) auto
      then have "json_plain y" using v(1) JList by simp
      then obtain c t where "json_dumps y = c # t" "c \<noteq> CHR '']''"
        by (rule dumps_head) simp
      then have "\<not> starts_with '']'' (dumps_elems xs @ CHR '']'' # rest)" by (simp add: y dumps_elems_Cons)
      then show ?thesis using IHe [OF False, of "[]"] v JList False by simp
    qed (use JList in simp)
  next
    case (JObj d)
    show ?thesis
    proof (cases "d = []")
      case False
      then have "\<not> starts_with ''}'' (dumps_members d @ CHR ''}'' # rest)"
        by (cases d) (auto simp: dumps_members_Cons dumps_str_def)
      then show ?thesis using IHm [OF False, of "[]"] v JObj False by simp
    qed (use JObj in simp)
  qed (use v in \<open>auto simp: parse_scalar_def parse_literal_def dumps_str_def scan_string_str\<close>)
  moreover have "parse_elems fr (Suc n) acc (dumps_elems xs @ CHR '']'' # rest) = Some (acc @ xs, rest)"
    if xs: "xs \<noteq> []" "plain_elems xs" "length (dumps_elems xs) < Suc n"
  proof -
    obtain y ys where y: "xs = y # ys" using xs(1) by (cases xs) auto
    show ?thesis
      using xs IHv [of y "CHR '']'' # rest"] IHv [of y "'', '' @ dumps_elems ys @ CHR '']'' # rest"]
        IHe [of ys "acc @ [y]" rest]
      by (cases "ys = []") (auto simp: y dumps_elems_Cons)
  qed
  moreover have "parse_members fr (Suc n) dacc (dumps_members d @ CHR ''}'' # rest) = Some (dacc @ d, rest)"
    if d: "d \<noteq> []" "plain_members d" "distinct (dict_keys (dacc @ d))" "length (dumps_members d) < Suc n"
  proof -
    obtain k u e where e: "d = (k, u) # e" using d(1) by (cases d) auto
    have "dict_set k u dacc = dacc @ [(k, u)]" using d(3) by (intro dict_set_new) (auto simp: e)
    then show ?thesis
      using d IHv [of u "CHR ''}'' # rest"] IHv [of u "'', '' @ dumps_members e @ CHR ''}'' # rest"]
        IHm [of e "dacc @ [(k, u)]" rest]
      by (cases "e = []") (auto simp: e dumps_members_Cons dumps_str_def scan_string_str)
  qed
  ultimately show ?case by blast
qed

theorem json_roundtrip: "json_plain v \<Longrightarrow> json_loads fr (json_dumps v) = Some v"
  using parse_dumps [where rest = "[]" and n = "Suc (length (json_dumps v))" and v = v and fr = fr]
    json_ws_dumps [of v "[]"]
  by (simp add: json_loads_def)

end
