(* ===== verification/Chat_Encoding.thy ===== *)
theory Chat_Encoding
  imports Json
begin

text \<open>
  The DeepSeek V4.1 prompt encoder (\<open>overlay/vllm/tokenizers/deepseek_v41_encoding.py\<close>)
  and its serving wrapper (\<open>overlay/vllm/tokenizers/deepseek_v41.py\<close>).

  Messages are dictionaries with string keys and JSON values, dynamically
  typed as in the source: \<open>.get\<close> on a value that is no dictionary raises
  AttributeError, a missing item KeyError, joining or adding a value that is
  no string TypeError.  Strings are their UTF-8 bytes.  The environment record
  holds two conversions of the C runtime: the text of a decoded float, and
  \<open>str()\<close> of a value that is not a string.

  A merged message carries a flag that says whether its \<open>content\<close> and its
  \<open>content_blocks\<close> are the same list object, so that extending one extends
  the other.
\<close>

record py_env =
  float_repr :: "string \<Rightarrow> string"
  py_str :: "json \<Rightarrow> string"

type_synonym message = "(string, json) dict"

section \<open>Dynamically typed values\<close>

abbreviation nl :: string where "nl \<equiv> [CHR 0x0A]"

definition fmt :: "py_env \<Rightarrow> json \<Rightarrow> string" where
  "fmt env v = (case v of JStr s \<Rightarrow> s | _ \<Rightarrow> py_str env v)"

fun truthy :: "json \<Rightarrow> bool" where
  "truthy JNull = False"
| "truthy (JBool b) = b"
| "truthy (JInt i) = (i \<noteq> 0)"
| "truthy (JFloat r) = (r \<noteq> ''0.0'' \<and> r \<noteq> ''-0.0'')"
| "truthy (JStr s) = (s \<noteq> [])"
| "truthy (JList xs) = (xs \<noteq> [])"
| "truthy (JObj d) = (d \<noteq> [])"

definition get_or :: "string \<Rightarrow> json \<Rightarrow> message \<Rightarrow> json" where
  "get_or k dflt m = or_default dflt (dict_get m k)"

abbreviation mget :: "string \<Rightarrow> message \<Rightarrow> json" where
  "mget k m \<equiv> get_or k JNull m"

abbreviation role_is :: "string \<Rightarrow> message \<Rightarrow> bool" where
  "role_is r m \<equiv> mget ''role'' m = JStr r"

fun jget_or :: "string \<Rightarrow> json \<Rightarrow> json \<Rightarrow> json res" where
  "jget_or k dflt (JObj d) = Ok (get_or k dflt d)"
| "jget_or k dflt _ = Err AttributeError"

abbreviation jget :: "string \<Rightarrow> json \<Rightarrow> json res" where
  "jget k v \<equiv> jget_or k JNull v"

fun jitem :: "string \<Rightarrow> json \<Rightarrow> json res" where
  "jitem k (JObj d) = (case dict_get d k of None \<Rightarrow> Err KeyError | Some v \<Rightarrow> Ok v)"
| "jitem k _ = Err TypeError"

text \<open>The characters of a UTF-8 string, one string each.\<close>

abbreviation utf8_cont :: "char \<Rightarrow> bool" where
  "utf8_cont c \<equiv> 128 \<le> (of_char c :: nat) \<and> (of_char c :: nat) < 192"

function utf8_chars :: "string \<Rightarrow> string list" where
  "utf8_chars [] = []"
| "utf8_chars (c # s) = (c # takeWhile utf8_cont s) # utf8_chars (dropWhile utf8_cont s)"
  by pat_completeness auto
termination by (relation "measure length") (auto simp: less_Suc_eq_le length_dropWhile_le)

fun iter_json :: "json \<Rightarrow> json list res" where
  "iter_json (JList xs) = Ok xs"
| "iter_json (JObj d) = Ok (map JStr (dict_keys d))"
| "iter_json (JStr s) = Ok (map JStr (utf8_chars s))"
| "iter_json _ = Err TypeError"

fun as_str :: "json \<Rightarrow> string res" where
  "as_str (JStr s) = Ok s"
| "as_str _ = Err TypeError"

fun is_str :: "json \<Rightarrow> bool" where
  "is_str (JStr s) = True"
| "is_str _ = False"

fun is_list :: "json \<Rightarrow> bool" where
  "is_list (JList s) = True"
| "is_list _ = False"

fun is_dict :: "json \<Rightarrow> bool" where
  "is_dict (JObj s) = True"
| "is_dict _ = False"

definition hashable :: "json \<Rightarrow> bool" where
  "hashable v \<longleftrightarrow> \<not> is_list v \<and> \<not> is_dict v"

text \<open>The dictionary key of a hashable value: \<open>True\<close> and \<open>1\<close> are one key.\<close>

definition hash_key :: "json \<Rightarrow> json res" where
  "hash_key v = (if \<not> hashable v then Err TypeError
                 else case v of JBool b \<Rightarrow> Ok (JInt (if b then 1 else 0)) | _ \<Rightarrow> Ok v)"

definition or_empty :: "json \<Rightarrow> json" where
  "or_empty v = (if truthy v then v else JStr [])"

definition join_json :: "string \<Rightarrow> json list \<Rightarrow> string res" where
  "join_json sep vs = bindE (mapE as_str vs) (\<lambda>ss. Ok (py_join sep ss))"

text \<open>\<open>any\<close> over a generator that may raise stops at the first hit.\<close>

fun anyE :: "('a \<Rightarrow> bool res) \<Rightarrow> 'a list \<Rightarrow> bool res" where
  "anyE f [] = Ok False"
| "anyE f (x # xs) = bindE (f x) (\<lambda>b. if b then Ok True else anyE f xs)"

section \<open>Tokens and templates\<close>

definition bar :: string where "bar = [CHR 0xEF, CHR 0xBD, CHR 0x9C]"
definition low_line :: string where "low_line = [CHR 0xE2, CHR 0x96, CHR 0x81]"

definition bos_token :: "string" where
  "bos_token = ''<'' @ bar @ ''begin'' @ low_line @ ''of'' @ low_line @ ''sentence'' @ bar @ ''>''"

definition eos_token :: "string" where
  "eos_token = ''<'' @ bar @ ''end'' @ low_line @ ''of'' @ low_line @ ''sentence'' @ bar @ ''>''"

definition thinking_start_token :: "string" where
  "thinking_start_token = ''<think>''"

definition thinking_end_token :: "string" where
  "thinking_end_token = ''</think>''"

definition dsml_token :: "string" where
  "dsml_token = bar @ ''DSML'' @ bar"

definition USER_SP_TOKEN :: "string" where
  "USER_SP_TOKEN = ''<'' @ bar @ ''User'' @ bar @ ''>''"

definition ASSISTANT_SP_TOKEN :: "string" where
  "ASSISTANT_SP_TOKEN = ''<'' @ bar @ ''Assistant'' @ bar @ ''>''"

definition LATEST_REMINDER_SP_TOKEN :: "string" where
  "LATEST_REMINDER_SP_TOKEN = ''<'' @ bar @ ''latest_reminder'' @ bar @ ''>''"

definition IMAGE_PLACEHOLDER :: "string" where
  "IMAGE_PLACEHOLDER = ''<'' @ bar @ ''deepseek_image'' @ bar @ ''>''"

definition SYSTEM_SP_TOKEN :: "string" where
  "SYSTEM_SP_TOKEN = ''<'' @ bar @ ''System'' @ bar @ ''>''"

definition DS_TASK_SP_TOKENS :: "(string, string) dict" where
  "DS_TASK_SP_TOKENS =
     [(''action'', ''<'' @ bar @ ''action'' @ bar @ ''>''),
      (''query'', ''<'' @ bar @ ''query'' @ bar @ ''>''),
      (''authority'', ''<'' @ bar @ ''authority'' @ bar @ ''>''),
      (''domain'', ''<'' @ bar @ ''domain'' @ bar @ ''>''),
      (''title'', ''<'' @ bar @ ''title'' @ bar @ ''>''),
      (''read_url'', ''<'' @ bar @ ''read_url'' @ bar @ ''>'')]"

definition response_format_template :: "string \<Rightarrow> string" where
  "response_format_template schema = ''## Response Format:'' @ nl @ nl @ ''You MUST strictly adhere to the following schema to reply:'' @ nl @
      schema"

definition tool_output_template :: "string \<Rightarrow> string" where
  "tool_output_template content = ''<tool_result>'' @ content @ ''</tool_result>''"

definition tool_calls_block_name :: "string" where
  "tool_calls_block_name = '' calls''"

definition tool_call_tag_name :: "string" where
  "tool_call_tag_name = '' invoke''"

definition tool_parameter_tag_name :: "string" where
  "tool_parameter_tag_name = '' parameter''"

definition tool_call_template :: "string \<Rightarrow> string \<Rightarrow> string" where
  "tool_call_template name arguments =
      ''<'' @ dsml_token @ tool_call_tag_name @ '' name='' @ [dquote] @ name @ [dquote] @ ''>'' @ nl @ arguments @
      nl @ ''</'' @ dsml_token @ tool_call_tag_name @ ''>''"

definition tool_calls_template :: "string \<Rightarrow> string" where
  "tool_calls_template tool_calls =
      ''<'' @ dsml_token @ tool_calls_block_name @ ''>'' @ nl @ tool_calls @ nl @ ''</'' @ dsml_token @
      tool_calls_block_name @ ''>''"

definition REASONING_EFFORT_TEMPLATE :: "string \<Rightarrow> string" where
  "REASONING_EFFORT_TEMPLATE budget =
      ''Reasoning Effort: '' @ budget @ '' (range 1-100, the higher the value, the more thorough the reasoning)'' @
      nl @ nl"

definition REASONING_EFFORT_MAPPINGS :: "(string, nat) dict" where
  "REASONING_EFFORT_MAPPINGS = [(''minimal'', 50), (''low'', 50), (''medium'', 75), (''high'', 75), (''xhigh'', 75), (''max'', 100)]"

definition TOOLS_TEMPLATE :: "string \<Rightarrow> string" where
  "TOOLS_TEMPLATE tool_schemas =
      ''## Tools'' @ nl @ nl @ ''You have access to a set of tools to help answer the user'' @ [CHR 0x27] @
      ''s question. You can invoke tools by writing a '' @ [dquote] @ ''<'' @ dsml_token @ tool_calls_block_name @
      ''>'' @ [dquote] @ '' block like the following:'' @ nl @ nl @ ''<'' @ dsml_token @ tool_calls_block_name @
      ''>'' @ nl @ ''<'' @ dsml_token @ tool_call_tag_name @ '' name='' @ [dquote] @ ''$TOOL_NAME'' @ [dquote] @
      ''>'' @ nl @ ''<'' @ dsml_token @ tool_parameter_tag_name @ '' name='' @ [dquote] @ ''$PARAMETER_NAME'' @
      [dquote] @ '' string='' @ [dquote] @ ''true|false'' @ [dquote] @ ''>$PARAMETER_VALUE</'' @ dsml_token @
      tool_parameter_tag_name @ ''>'' @ nl @ ''...'' @ nl @ ''</'' @ dsml_token @ tool_call_tag_name @ ''>'' @ nl @
      ''<'' @ dsml_token @ tool_call_tag_name @ '' name='' @ [dquote] @ ''$TOOL_NAME2'' @ [dquote] @ ''>'' @ nl @
      ''...'' @ nl @ ''</'' @ dsml_token @ tool_call_tag_name @ ''>'' @ nl @ ''</'' @ dsml_token @
      tool_calls_block_name @ ''>'' @ nl @ nl @ ''String parameters should be specified as is and set '' @
      [CHR 0x60] @ ''string='' @ [dquote] @ ''true'' @ [dquote] @ [CHR 0x60] @
      ''. For all other types (numbers, booleans, arrays, objects), pass the value in JSON format and set '' @
      [CHR 0x60] @ ''string='' @ [dquote] @ ''false'' @ [dquote] @ [CHR 0x60] @ ''.'' @ nl @ nl @
      ''If thinking_mode is enabled (triggered by '' @ thinking_start_token @
      ''), you MUST output your complete reasoning inside '' @ thinking_start_token @ ''...'' @ thinking_end_token @
      '' BEFORE any tool calls or final response.'' @ nl @ nl @ ''Otherwise, output directly after '' @
      thinking_end_token @ '' with tool calls or final response.'' @ nl @ nl @ ''### Available Tool Schemas'' @ nl @
      nl @ tool_schemas @ nl @ nl @
      ''You MUST strictly follow the above defined tool name and parameter schemas to invoke tool calls.'' @ nl"

section \<open>Preprocessing\<close>

definition to_json :: "json \<Rightarrow> string" where
  "to_json v = json_dumps v"

definition tools_from_openai_format :: "json \<Rightarrow> json list res" where
  "tools_from_openai_format tools = bindE (iter_json tools) (mapE (jitem ''function''))"

definition tool_calls_from_openai_format :: "json \<Rightarrow> message list res" where
  "tool_calls_from_openai_format tool_calls =
     bindE (iter_json tool_calls) (mapE (\<lambda>tc.
       bindE (jitem ''function'' tc) (\<lambda>f1.
       bindE (jitem ''name'' f1) (\<lambda>name.
       bindE (jitem ''function'' tc) (\<lambda>f2.
       bindE (jitem ''arguments'' f2) (\<lambda>arguments.
       Ok [(''name'', name), (''arguments'', arguments)]))))))"

text \<open>\<open>merged[-1]["content_blocks"].extend(new)\<close>, with the alias of \<open>content\<close>.\<close>

definition extend_blocks :: "json list res \<Rightarrow> message \<times> bool \<Rightarrow> (message \<times> bool) res" where
  "extend_blocks new ma =
     (let (m, aliased) = ma in
      case dict_get m ''content_blocks'' of
        None \<Rightarrow> Err KeyError
      | Some (JList bs) \<Rightarrow>
          bindE new (\<lambda>xs.
            let v = JList (bs @ xs); m1 = dict_set ''content_blocks'' v m
            in Ok (if aliased then dict_set ''content'' v m1 else m1, aliased))
      | Some _ \<Rightarrow> Err AttributeError)"

definition on_last :: "('a \<Rightarrow> 'a res) \<Rightarrow> 'a list \<Rightarrow> 'a list res" where
  "on_last f xs = bindE (f (last xs)) (\<lambda>x. Ok (butlast xs @ [x]))"

definition merge_step :: "message \<Rightarrow> (message \<times> bool) list \<Rightarrow> (message \<times> bool) list res" where
  "merge_step msg merged =
     (let into_last = (merged \<noteq> [] \<and> role_is ''user'' (fst (last merged)) \<and>
                       ''content_blocks'' \<in> set (dict_keys (fst (last merged)))) in
      if role_is ''tool'' msg then
        (let content = (if truthy (mget ''content_blocks'' msg) \<and> \<not> is_str (mget ''content'' msg)
                        then mget ''content_blocks'' msg else get_or ''content'' (JStr []) msg);
             tool_block = JObj [(''type'', JStr ''tool_result''),
                                (''tool_use_id'', get_or ''tool_call_id'' (JStr []) msg),
                                (''content'', content)]
         in if into_last then on_last (extend_blocks (Ok [tool_block])) merged
            else Ok (merged @ [([(''role'', JStr ''user''), (''content_blocks'', JList [tool_block])], False)]))
      else if role_is ''user'' msg then
        (let given = mget ''content_blocks'' msg;
             content = get_or ''content'' (JStr []) msg;
             aliased = (given = JNull \<and> is_list content);
             content_blocks = (if given \<noteq> JNull then given
                               else if is_list content then content
                               else JList [JObj [(''type'', JStr ''text''), (''text'', content)]])
         in if into_last \<and> mget ''task'' (fst (last merged)) = JNull
            then on_last (extend_blocks (iter_json content_blocks)) merged
            else Ok (merged @ [(dict_set ''content_blocks'' content_blocks msg, aliased)]))
      else Ok (merged @ [(msg, False)]))"

definition merge_tool_messages :: "message list \<Rightarrow> message list res" where
  "merge_tool_messages messages = bindE (foldE merge_step messages []) (\<lambda>merged. Ok (map fst merged))"

definition is_tool_result :: "json \<Rightarrow> bool res" where
  "is_tool_result b = bindE (jget ''type'' b) (\<lambda>t. Ok (t = JStr ''tool_result''))"

text \<open>The positions of the calls of one assistant message by their ids.\<close>

definition call_order_step :: "nat \<times> json \<Rightarrow> (json, nat) dict \<Rightarrow> (json, nat) dict res" where
  "call_order_step itc order =
     (let (idx, tc) = itc in
      bindE (jget ''id'' tc) (\<lambda>id1.
      bindE (if truthy id1 then Ok id1
             else bindE (jget_or ''function'' (JObj []) tc) (jget_or ''id'' (JStr []))) (\<lambda>tc_id.
      if truthy tc_id then bindE (hash_key tc_id) (\<lambda>k. Ok (dict_set k idx order)) else Ok order)))"

definition call_order :: "json \<Rightarrow> (json, nat) dict res" where
  "call_order tool_calls =
     bindE (iter_json tool_calls) (\<lambda>tcs. foldE call_order_step (zip [0..<length tcs] tcs) [])"

definition block_key :: "(json, nat) dict \<Rightarrow> json \<Rightarrow> nat res" where
  "block_key order b =
     bindE (jget_or ''tool_use_id'' (JStr []) b) (\<lambda>i.
     bindE (hash_key i) (\<lambda>k. Ok (or_default 0 (dict_get order k))))"

fun filterE :: "('a \<Rightarrow> bool res) \<Rightarrow> 'a list \<Rightarrow> 'a list res" where
  "filterE f [] = Ok []"
| "filterE f (x # xs) = bindE (f x) (\<lambda>b. bindE (filterE f xs) (\<lambda>ys. Ok (if b then x # ys else ys)))"

text \<open>Put the sorted tool results back into the positions of tool results.\<close>

fun refill :: "json list \<Rightarrow> json list \<Rightarrow> json list res" where
  "refill [] sorted_blocks = Ok []"
| "refill (b # bs) sorted_blocks =
     bindE (is_tool_result b) (\<lambda>t.
     if t then (case sorted_blocks of
                  [] \<Rightarrow> Err IndexError
                | s # ss \<Rightarrow> bindE (refill bs ss) (\<lambda>r. Ok (s # r)))
     else bindE (refill bs sorted_blocks) (\<lambda>r. Ok (b # r)))"

definition sort_blocks :: "(json, nat) dict \<Rightarrow> json list \<Rightarrow> json list res" where
  "sort_blocks order blocks =
     bindE (filterE is_tool_result blocks) (\<lambda>tool_blocks.
     if length tool_blocks > 1 \<and> order \<noteq> [] then
       bindE (mapE (block_key order) tool_blocks) (\<lambda>keys.
       refill blocks (map snd (sort_key fst (zip keys tool_blocks))))
     else Ok blocks)"

definition sort_step ::
  "message \<Rightarrow> (json, nat) dict \<times> message list \<Rightarrow> ((json, nat) dict \<times> message list) res" where
  "sort_step msg st =
     (let (order, out) = st in
      if role_is ''assistant'' msg \<and> truthy (mget ''tool_calls'' msg) then
        bindE (call_order (mget ''tool_calls'' msg)) (\<lambda>order1. Ok (order1, out @ [msg]))
      else if role_is ''user'' msg \<and> truthy (mget ''content_blocks'' msg) then
        bindE (iter_json (mget ''content_blocks'' msg)) (\<lambda>blocks.
        bindE (sort_blocks order blocks) (\<lambda>blocks1.
        Ok (order, out @ [if blocks1 = blocks then msg else dict_set ''content_blocks'' (JList blocks1) msg])))
      else Ok (order, out @ [msg]))"

definition sort_tool_results_by_call_order :: "message list \<Rightarrow> message list res" where
  "sort_tool_results_by_call_order messages =
     bindE (foldE sort_step messages ([], [])) (\<lambda>(order, out). Ok out)"

section \<open>Rendering\<close>

definition render_reasoning_effort :: "nat \<Rightarrow> string \<Rightarrow> json \<Rightarrow> string res" where
  "render_reasoning_effort index thinking_mode effort0 =
     (let effort = (if effort0 = JNull then JStr ''high'' else effort0);
          render = (\<lambda>budget. Ok (if index = 0 \<and> thinking_mode = ''thinking''
                                 then REASONING_EFFORT_TEMPLATE budget else []))
      in case effort of
           JInt i \<Rightarrow> (if 1 \<le> i \<and> i \<le> 100 then render (show_int i) else Err AssertionError)
         | JStr s \<Rightarrow> (case dict_get REASONING_EFFORT_MAPPINGS s of
                        None \<Rightarrow> Err AssertionError
                      | Some b \<Rightarrow> render (show_nat b))
         | v \<Rightarrow> (if hashable v then Err AssertionError else Err TypeError))"

definition render_tools :: "json list \<Rightarrow> string" where
  "render_tools tools = TOOLS_TEMPLATE (py_join nl (map to_json tools))"

text \<open>Up to two decodings of an argument string; a decoding error or a value that
  is no string ends the loop.\<close>

fun decode_arguments :: "py_env \<Rightarrow> nat \<Rightarrow> json \<Rightarrow> json" where
  "decode_arguments env 0 v = v"
| "decode_arguments env (Suc n) (JStr s) =
     (case json_loads (float_repr env) s of None \<Rightarrow> JStr s | Some v \<Rightarrow> decode_arguments env n v)"
| "decode_arguments env (Suc n) v = v"

definition dsml_parameter :: "string \<Rightarrow> json \<Rightarrow> string" where
  "dsml_parameter key v =
     ''<'' @ dsml_token @ tool_parameter_tag_name @ '' name='' @ [dquote] @ key @ [dquote] @ '' string='' @
     [dquote] @ (if is_str v then ''true'' else ''false'') @ [dquote] @ ''>'' @
     (case v of JStr s \<Rightarrow> s | _ \<Rightarrow> to_json v) @ ''</'' @ dsml_token @ tool_parameter_tag_name @ ''>''"

definition encode_arguments_to_dsml :: "py_env \<Rightarrow> message \<Rightarrow> string res" where
  "encode_arguments_to_dsml env tool_call =
     (case dict_get tool_call ''arguments'' of
        None \<Rightarrow> Err KeyError
      | Some given \<Rightarrow>
          (let items = (case decode_arguments env 2 given of JObj d \<Rightarrow> d | _ \<Rightarrow> [(''arguments'', given)])
           in Ok (py_join nl (map (\<lambda>(k, v). dsml_parameter k v) items))))"

definition starts_turn :: "message \<Rightarrow> nat \<Rightarrow> bool" where
  "starts_turn m idx \<longleftrightarrow> role_is ''user'' m \<or> role_is ''developer'' m \<or> (role_is ''system'' m \<and> idx > 0)"

definition is_visible_block :: "json \<Rightarrow> bool res" where
  "is_visible_block b = bindE (jget ''type'' b) (\<lambda>t. Ok (t \<in> {JStr ''text'', JStr ''image'', JStr ''image_url''}))"

text \<open>The loop runs from the last message down; \<open>n\<close> messages are left.\<close>

fun last_user_loop :: "message list \<Rightarrow> nat \<Rightarrow> int res" where
  "last_user_loop messages 0 = Ok (-1)"
| "last_user_loop messages (Suc idx) =
     (let m = messages ! idx; blocks = mget ''content_blocks'' m in
      if starts_turn m idx then
        bindE (if truthy blocks then bindE (iter_json blocks) (anyE is_visible_block) else Ok True) (\<lambda>vis.
        if vis then Ok (int idx) else last_user_loop messages idx)
      else last_user_loop messages idx)"

definition find_last_user_index :: "message list \<Rightarrow> int res" where
  "find_last_user_index messages = last_user_loop messages (length messages)"

text \<open>The tool schemas and the response format of a system or developer message.\<close>

definition render_extras :: "json list \<Rightarrow> json \<Rightarrow> string" where
  "render_extras tools response_format =
     (if tools \<noteq> [] then nl @ nl @ render_tools tools else []) @
     (if truthy response_format then nl @ nl @ response_format_template (to_json response_format) else [])"

definition render_tool_part :: "py_env \<Rightarrow> json \<Rightarrow> json res" where
  "render_tool_part env b =
     bindE (jget ''type'' b) (\<lambda>t.
     if t = JStr ''text'' then jget_or ''text'' (JStr []) b
     else Ok (JStr (''[Unsupported '' @ fmt env t @ '']'')))"

definition render_block :: "py_env \<Rightarrow> json \<Rightarrow> json res" where
  "render_block env block =
     bindE (jget ''type'' block) (\<lambda>block_type.
     if block_type = JStr ''text'' then jget_or ''text'' (JStr []) block
     else if block_type = JStr ''tool_result'' then
       bindE (jget_or ''content'' (JStr []) block) (\<lambda>tool_content.
       bindE (case tool_content of
                JList bs \<Rightarrow> bindE (mapE (render_tool_part env) bs) (join_json (nl @ nl))
              | v \<Rightarrow> Ok (fmt env v)) (\<lambda>text.
       Ok (JStr (tool_output_template text))))
     else Ok (JStr (''[Unsupported '' @ fmt env block_type @ '']'')))"

definition render_user :: "py_env \<Rightarrow> message \<Rightarrow> string res" where
  "render_user env msg =
     (let content_blocks = mget ''content_blocks'' msg in
      bindE (if truthy content_blocks then
               bindE (iter_json content_blocks) (\<lambda>blocks.
               bindE (mapE (render_block env) blocks) (join_json (nl @ nl)))
             else as_str (or_empty (mget ''content'' msg))) (\<lambda>body.
      Ok (USER_SP_TOKEN @ body)))"

definition render_tool_call :: "py_env \<Rightarrow> message \<Rightarrow> string res" where
  "render_tool_call env tc =
     bindE (encode_arguments_to_dsml env tc) (\<lambda>arguments.
     Ok (tool_call_template (fmt env (mget ''name'' tc)) arguments))"

definition render_assistant ::
  "py_env \<Rightarrow> nat \<Rightarrow> message list \<Rightarrow> string \<Rightarrow> bool \<Rightarrow> int \<Rightarrow> message list \<Rightarrow> string res" where
  "render_assistant env index messages thinking_mode drop_thinking last_user_idx tool_calls =
     (let msg = messages ! index;
          prev_has_task = (index \<ge> 1 \<and> mget ''task'' (messages ! (index - 1)) \<noteq> JNull);
          thinking_part =
            (if thinking_mode = ''thinking'' \<and> \<not> prev_has_task \<and> (\<not> drop_thinking \<or> int index > last_user_idx)
             then fmt env (or_empty (mget ''reasoning_content'' msg)) @ thinking_end_token else [])
      in bindE (if tool_calls = [] then Ok []
                else bindE (mapE (render_tool_call env) tool_calls) (\<lambda>tcs.
                     Ok (nl @ nl @ tool_calls_template (py_join nl tcs)))) (\<lambda>tc_content.
         Ok (thinking_part @ fmt env (or_empty (mget ''content'' msg)) @ tc_content @
             (if truthy (get_or ''wo_eos'' (JBool False) msg) then [] else eos_token))))"

definition render_role ::
  "py_env \<Rightarrow> nat \<Rightarrow> message list \<Rightarrow> string \<Rightarrow> bool \<Rightarrow> int \<Rightarrow> json list \<Rightarrow> message list \<Rightarrow> string res" where
  "render_role env index messages thinking_mode drop_thinking last_user_idx tools tool_calls =
     (let msg = messages ! index; content = mget ''content'' msg in
      if role_is ''system'' msg then
        Ok ((if index > 0 then SYSTEM_SP_TOKEN else []) @ fmt env (or_empty content) @
            render_extras tools (mget ''response_format'' msg))
      else if role_is ''developer'' msg then
        bindE (assertE (truthy content)) (\<lambda>_.
        bindE (as_str content) (\<lambda>c.
        Ok (USER_SP_TOKEN @ c @ render_extras tools (mget ''response_format'' msg))))
      else if role_is ''user'' msg then render_user env msg
      else if role_is ''latest_reminder'' msg then Ok (LATEST_REMINDER_SP_TOKEN @ fmt env content)
      else if role_is ''tool'' msg then Err NotImplementedError
      else if role_is ''assistant'' msg then
        render_assistant env index messages thinking_mode drop_thinking last_user_idx tool_calls
      else Err NotImplementedError)"

text \<open>The tokens after a message, which depend on what follows it.\<close>

definition render_transition ::
  "nat \<Rightarrow> message list \<Rightarrow> string \<Rightarrow> bool \<Rightarrow> int \<Rightarrow> string res" where
  "render_transition index messages thinking_mode drop_thinking last_user_idx =
     (let msg = messages ! index; task = mget ''task'' msg in
      if index + 1 < length messages \<and> \<not> role_is ''assistant'' (messages ! (index + 1)) \<and>
         \<not> role_is ''latest_reminder'' (messages ! (index + 1)) then Ok []
      else if task \<noteq> JNull then
        (case task of
           JStr t \<Rightarrow>
             (case dict_get DS_TASK_SP_TOKENS t of
                None \<Rightarrow> Err AssertionError
              | Some sp \<Rightarrow>
                  Ok (if t \<noteq> ''action'' then sp
                      else ASSISTANT_SP_TOKEN @
                           (if thinking_mode \<noteq> ''thinking'' then thinking_end_token else thinking_start_token) @ sp))
         | v \<Rightarrow> (if hashable v then Err AssertionError else Err TypeError))
      else if starts_turn msg index then
        Ok (ASSISTANT_SP_TOKEN @
            (if \<not> drop_thinking \<and> thinking_mode = ''thinking'' then thinking_start_token
             else if drop_thinking \<and> thinking_mode = ''thinking'' \<and> int index \<ge> last_user_idx
             then thinking_start_token else thinking_end_token))
      else Ok [])"

definition render_message ::
  "py_env \<Rightarrow> nat \<Rightarrow> message list \<Rightarrow> string \<Rightarrow> bool \<Rightarrow> json \<Rightarrow> int option \<Rightarrow> string res" where
  "render_message env index messages thinking_mode drop_thinking reasoning_effort given_last_user_idx =
     bindE (assertE (index < length messages)) (\<lambda>_.
     bindE (assertE (thinking_mode = ''chat'' \<or> thinking_mode = ''thinking'')) (\<lambda>_.
     let msg = messages ! index in
     bindE (case given_last_user_idx of None \<Rightarrow> find_last_user_index messages | Some i \<Rightarrow> Ok i) (\<lambda>last_user_idx.
     bindE (if truthy (mget ''tools'' msg) then tools_from_openai_format (mget ''tools'' msg) else Ok []) (\<lambda>tools.
     bindE (if truthy (mget ''tool_calls'' msg) then tool_calls_from_openai_format (mget ''tool_calls'' msg)
            else Ok []) (\<lambda>tool_calls.
     bindE (render_reasoning_effort index thinking_mode reasoning_effort) (\<lambda>effort_prompt.
     let prefix = (if index = 0 \<and> (effort_prompt \<noteq> [] \<or> role_is ''system'' msg) then SYSTEM_SP_TOKEN else []) @
                  effort_prompt in
     bindE (render_role env index messages thinking_mode drop_thinking last_user_idx tools tool_calls) (\<lambda>body.
     bindE (render_transition index messages thinking_mode drop_thinking last_user_idx) (\<lambda>transition.
     Ok (prefix @ body @ transition)))))))))"

definition keep_roles :: "string list" where
  "keep_roles = [''user'', ''system'', ''tool'', ''latest_reminder'', ''direct_search_results'']"

definition drop_thinking_step :: "int \<Rightarrow> nat \<times> message \<Rightarrow> message list \<Rightarrow> message list res" where
  "drop_thinking_step last_user_idx im result =
     (let (idx, msg) = im; role = mget ''role'' msg in
      if \<not> hashable role then Err TypeError
      else if role \<in> JStr ` set keep_roles \<or> int idx \<ge> last_user_idx then Ok (result @ [msg])
      else if role = JStr ''assistant'' then Ok (result @ [dict_pop ''reasoning_content'' msg])
      else Ok result)"

definition drop_thinking_messages :: "message list \<Rightarrow> message list res" where
  "drop_thinking_messages messages =
     bindE (find_last_user_index messages) (\<lambda>last_user_idx.
     foldE (drop_thinking_step last_user_idx) (zip [0..<length messages] messages) [])"

text \<open>\<open>range(num_to_render)\<close> is empty for a negative count.\<close>

definition encode_messages ::
  "py_env \<Rightarrow> message list \<Rightarrow> string \<Rightarrow> message list \<Rightarrow> bool \<Rightarrow> bool \<Rightarrow> json \<Rightarrow> string res" where
  "encode_messages env messages0 thinking_mode context0 drop_thinking add_default_bos_token reasoning_effort =
     bindE (merge_tool_messages context0) (\<lambda>context.
     bindE (merge_tool_messages messages0) (\<lambda>messages.
     bindE (sort_tool_results_by_call_order (context @ messages)) (\<lambda>full0.
     let context1 = take (length context) full0;
         prompt = (if add_default_bos_token \<and> length context = 0 then bos_token else []);
         drop_eff = (drop_thinking \<and> \<not> (\<exists>m \<in> set full0. truthy (mget ''tools'' m))) in
     bindE (if thinking_mode = ''thinking'' \<and> drop_eff then
              bindE (drop_thinking_messages full0) (\<lambda>full1.
              bindE (drop_thinking_messages context1) (\<lambda>kept.
              Ok (full1, int (length full1) - int (length kept), length kept)))
            else Ok (full0, int (length messages), length context)) (\<lambda>(full, num_to_render, context_len).
     bindE (find_last_user_index full) (\<lambda>last_user_idx.
     bindE (mapE (\<lambda>idx. render_message env (idx + context_len) full thinking_mode drop_eff reasoning_effort
                          (Some last_user_idx)) [0..<nat num_to_render]) (\<lambda>parts.
     Ok (prompt @ concat parts)))))))"

section \<open>The serving wrapper\<close>

fun contains :: "string \<Rightarrow> string \<Rightarrow> bool" where
  "contains p [] = (p = [])"
| "contains p (c # s) = (starts_with p (c # s) \<or> contains p s)"

definition reject_image_placeholder :: "json \<Rightarrow> unit res" where
  "reject_image_placeholder text =
     (case text of JStr s \<Rightarrow> (if contains IMAGE_PLACEHOLDER s then Err ValueError else Ok ()) | _ \<Rightarrow> Ok ())"

definition normalize_part :: "json \<Rightarrow> json res" where
  "normalize_part block =
     bindE (jget ''type'' block) (\<lambda>part_type.
     if part_type = JStr ''text'' then
       bindE (jget_or ''text'' (JStr []) block) (\<lambda>text.
       bindE (reject_image_placeholder text) (\<lambda>_. Ok text))
     else if part_type \<in> {JStr ''image_url'', JStr ''input_image'', JStr ''image_pil''}
     then Ok (JStr IMAGE_PLACEHOLDER)
     else Err ValueError)"

definition valid_roles :: "string list" where
  "valid_roles = [''system'', ''developer'', ''user'', ''assistant'', ''tool'', ''latest_reminder'']"

definition normalize_message :: "message \<Rightarrow> message res" where
  "normalize_message message0 =
     (if mget ''role'' message0 \<notin> JStr ` set valid_roles then Err ValueError
      else
        (let message = (case dict_get message0 ''reasoning'' of
                          Some r \<Rightarrow> dict_set ''reasoning_content'' r message0 | None \<Rightarrow> message0);
             content = mget ''content'' message in
         bindE (reject_image_placeholder (mget ''reasoning_content'' message)) (\<lambda>_.
         bindE (reject_image_placeholder content) (\<lambda>_.
         case content of
           JList blocks \<Rightarrow>
             bindE (mapE normalize_part blocks) (\<lambda>parts.
             bindE (join_json (nl @ nl) parts) (\<lambda>text.
             Ok (dict_set ''content'' (JStr text) message)))
         | _ \<Rightarrow> Ok message))))"

definition normalize_messages :: "message list \<Rightarrow> message list res" where
  "normalize_messages messages = mapE normalize_message messages"

text \<open>Set the tools of the first system message, inserting one if there is none.\<close>

fun set_system_tools :: "json \<Rightarrow> message list \<Rightarrow> message list option" where
  "set_system_tools tools [] = None"
| "set_system_tools tools (m # ms) =
     (if role_is ''system'' m then Some (dict_set ''tools'' tools m # ms)
      else map_option (Cons m) (set_system_tools tools ms))"

definition add_tools :: "json \<Rightarrow> message list \<Rightarrow> message list" where
  "add_tools tools conversation =
     (if truthy tools then
        (case set_system_tools tools conversation of
           Some ms \<Rightarrow> ms
         | None \<Rightarrow> [(''role'', JStr ''system''), (''content'', JStr []), (''tools'', tools)] # conversation)
      else conversation)"

definition effort_valid :: "json \<Rightarrow> bool" where
  "effort_valid effort =
     (case effort of JInt i \<Rightarrow> 1 \<le> i \<and> i \<le> 100
                   | JStr s \<Rightarrow> s \<in> set (dict_keys REASONING_EFFORT_MAPPINGS)
                   | _ \<Rightarrow> False)"

text \<open>The prompt of \<open>apply_chat_template\<close>; with \<open>tokenize\<close> the caller encodes it.\<close>

definition apply_chat_template :: "py_env \<Rightarrow> message list \<Rightarrow> json \<Rightarrow> message \<Rightarrow> string res" where
  "apply_chat_template env messages tools kwargs =
     bindE (normalize_messages messages) (\<lambda>conversation0.
     let conversation = add_tools tools conversation0;
         thinking0 = (truthy (mget ''thinking'' kwargs) \<or> truthy (mget ''enable_thinking'' kwargs));
         thinking1 = (if ''thinking'' \<notin> set (dict_keys kwargs) \<and> ''enable_thinking'' \<notin> set (dict_keys kwargs)
                      then True else thinking0);
         effort0 = mget ''reasoning_effort'' kwargs;
         thinking = (thinking1 \<and> effort0 \<noteq> JStr ''none'');
         effort = (if effort0 = JStr ''none'' \<or> effort0 = JNull then JStr ''high'' else effort0)
     in if \<not> effort_valid effort then Err ValueError
        else encode_messages env conversation (if thinking then ''thinking'' else ''chat'') []
               (truthy (get_or ''drop_thinking'' (JBool True) kwargs)) True effort)"

section \<open>Tool-call arguments\<close>

lemma decode_object: "json_plain (JObj d) \<Longrightarrow> decode_arguments env (Suc n) (JStr (to_json (JObj d))) = JObj d"
  by (cases n) (simp_all add: to_json_def json_roundtrip del: json_plain.simps json_dumps.simps)

text \<open>C31: The arguments of a tool call are rendered the same whether the client sends them as an object, as the JSON text of that object, or as the doubly encoded JSON text, for every object of distinct keys without floats, nested values included.\<close>

theorem arguments_encoding_independent:
  assumes "json_plain (JObj d)"
  shows "encode_arguments_to_dsml env [(''name'', n), (''arguments'', JStr (to_json (JObj d)))] =
      encode_arguments_to_dsml env [(''name'', n), (''arguments'', JObj d)] \<and>
    encode_arguments_to_dsml env [(''name'', n), (''arguments'', JStr (to_json (JStr (to_json (JObj d)))))] =
      encode_arguments_to_dsml env [(''name'', n), (''arguments'', JObj d)] \<and>
    encode_arguments_to_dsml env [(''name'', n), (''arguments'', JObj d)] =
      Ok (py_join nl (map (\<lambda>(k, v). dsml_parameter k v) d))"
proof -
  have "json_loads (float_repr env) (to_json (JStr (to_json (JObj d)))) = Some (JStr (to_json (JObj d)))"
    by (simp add: to_json_def json_roundtrip del: json_dumps.simps)
  then show ?thesis using decode_object [OF assms, of env 0] decode_object [OF assms, of env 1]
    by (simp add: encode_arguments_to_dsml_def numeral_2_eq_2 del: json_dumps.simps)
qed

definition demo_env :: py_env where
  "demo_env = \<lparr>float_repr = (\<lambda>s. s), py_str = (\<lambda>_. ''None'')\<rparr>"

definition demo_arguments :: "(string \<times> json) list" where
  "demo_arguments = [(''city'', JStr ''Oslo''), (''days'', JList [JInt 3, JBool True, JNull])]"

theorem arguments_encoding_independent_witness:
  "encode_arguments_to_dsml demo_env [(''name'', JStr ''f''), (''arguments'', JStr (to_json (JObj demo_arguments)))] =
      encode_arguments_to_dsml demo_env [(''name'', JStr ''f''), (''arguments'', JObj demo_arguments)] \<and>
    encode_arguments_to_dsml demo_env [(''name'', JStr ''f''), (''arguments'', JStr (to_json (JStr (to_json (JObj demo_arguments)))))] =
      encode_arguments_to_dsml demo_env [(''name'', JStr ''f''), (''arguments'', JObj demo_arguments)] \<and>
    encode_arguments_to_dsml demo_env [(''name'', JStr ''f''), (''arguments'', JObj demo_arguments)] =
      Ok (py_join nl (map (\<lambda>(k, v). dsml_parameter k v) demo_arguments))"
  by (rule arguments_encoding_independent) (simp add: demo_arguments_def)

section \<open>The order of tool results\<close>

text \<open>A block as the encoder expects it: an object whose tool id can be a key.\<close>

fun block_ok :: "json \<Rightarrow> bool" where
  "block_ok (JObj d) = hashable (get_or ''tool_use_id'' (JStr []) d)"
| "block_ok _ = False"

definition tool_result :: "json \<Rightarrow> bool" where
  "tool_result b \<longleftrightarrow> is_tool_result b = Ok True"

definition call_rank :: "(json, nat) dict \<Rightarrow> json \<Rightarrow> nat" where
  "call_rank order b = projr (block_key order b)"

lemma is_tool_result_Ok: "block_ok b \<Longrightarrow> is_tool_result b = Ok (tool_result b)"
  by (cases b) (auto simp: is_tool_result_def tool_result_def)

lemma block_key_Ok: "block_ok b \<Longrightarrow> block_key order b = Ok (call_rank order b)"
  by (cases b) (auto simp: block_key_def call_rank_def hash_key_def split: json.splits)

lemma filterE_tool_results:
  "\<forall>b \<in> set bs. block_ok b \<Longrightarrow> filterE is_tool_result bs = Ok (filter tool_result bs)"
  by (induction bs) (simp_all add: is_tool_result_Ok)

lemma sort_key_zip:
  "map snd (sort_key fst (zip (map f xs) xs)) = sort_key f xs"
proof -
  have z: "zip (map f xs) xs = map (\<lambda>x. (f x, x)) xs" for xs by (induction xs) auto
  have "sort_key fst (map (\<lambda>x. (f x, x)) xs) = map (\<lambda>x. (f x, x)) (sort_key f xs)"
  proof (induction xs)
    case (Cons x xs)
    have "insort_key fst (f x, x) (map (\<lambda>x. (f x, x)) ys) = map (\<lambda>x. (f x, x)) (insort_key f x ys)" for ys
      by (induction ys) auto
    then show ?case using Cons by simp
  qed simp
  then show ?thesis by (simp add: z comp_def)
qed

text \<open>Tool results are replaced by tool results, other blocks stay.\<close>

definition keeps_place :: "json \<Rightarrow> json \<Rightarrow> bool" where
  "keeps_place b r \<longleftrightarrow> (if tool_result b then tool_result r else r = b)"

lemma refill_Ok:
  assumes "\<forall>b \<in> set bs. block_ok b" and "length ss = length (filter tool_result bs)" and "\<forall>s \<in> set ss. tool_result s"
  shows "\<exists>r. refill bs ss = Ok r \<and> list_all2 keeps_place bs r \<and> filter tool_result r = ss"
  using assms
proof (induction bs arbitrary: ss)
  case (Cons b bs)
  have b: "is_tool_result b = Ok (tool_result b)" using Cons.prems(1) by (simp add: is_tool_result_Ok)
  show ?case
  proof (cases "tool_result b")
    case True
    then obtain s ss' where ss: "ss = s # ss'" using Cons.prems(2) by (cases ss) auto
    then have "\<exists>r. refill bs ss' = Ok r \<and> list_all2 keeps_place bs r \<and> filter tool_result r = ss'"
      using Cons.prems True by (intro Cons.IH) simp_all
    then obtain r where "refill bs ss' = Ok r" "list_all2 keeps_place bs r" "filter tool_result r = ss'"
      by (elim exE conjE)
    then show ?thesis using b Cons.prems(3) True
      by (intro exI [of _ "s # r"]) (simp add: keeps_place_def [of b s] ss)
  next
    case False
    then have "\<exists>r. refill bs ss = Ok r \<and> list_all2 keeps_place bs r \<and> filter tool_result r = ss"
      using Cons.prems by (intro Cons.IH) simp_all
    then obtain r where "refill bs ss = Ok r" "list_all2 keeps_place bs r" "filter tool_result r = ss"
      by (elim exE conjE)
    then show ?thesis using b False
      by (intro exI [of _ "b # r"]) (simp add: keeps_place_def [of b b])
  qed
qed simp

lemma sort_blocks_spec:
  assumes "\<forall>b \<in> set blocks. block_ok b"
  shows "\<exists>r. sort_blocks order blocks = Ok r \<and> list_all2 keeps_place blocks r \<and>
    filter tool_result r =
      (if order = [] then filter tool_result blocks else sort_key (call_rank order) (filter tool_result blocks))"
proof -
  let ?t = "filter tool_result blocks"
  show ?thesis
  proof (cases "length ?t > 1 \<and> order \<noteq> []")
    case True
    have "mapE (block_key order) ?t = Ok (map (call_rank order) ?t)"
      by (rule mapE_Ok) (use assms block_key_Ok in auto)
    then have "sort_blocks order blocks = refill blocks (sort_key (call_rank order) ?t)"
      using True by (simp add: sort_blocks_def filterE_tool_results [OF assms] sort_key_zip)
    moreover have "\<exists>r. refill blocks (sort_key (call_rank order) ?t) = Ok r \<and> list_all2 keeps_place blocks r \<and>
        filter tool_result r = sort_key (call_rank order) ?t"
      by (rule refill_Ok [OF assms]) simp_all
    ultimately show ?thesis using True by simp
  next
    case False
    have "sort_blocks order blocks = Ok blocks"
      unfolding sort_blocks_def filterE_tool_results [OF assms] bindE_simps if_not_P [OF False] ..
    moreover have "order = [] \<or> sort_key (call_rank order) ?t = ?t"
    proof (cases ?t)
      case (Cons a l)
      then show ?thesis using False by (cases l) auto
    qed simp
    moreover have "list_all2 keeps_place blocks blocks" by (simp add: list.rel_refl keeps_place_def)
    ultimately show ?thesis by auto
  qed
qed

text \<open>C32: Sorting the tool results of a user turn always succeeds on blocks whose tool ids are hashable, leaves every block that is no tool result in its place, and puts the tool results, as a stable sort by the position of their call in the preceding assistant message, into the positions of tool results; results of calls the assistant did not make count as position 0.\<close>

theorem sort_blocks_exact:
  assumes "\<forall>b \<in> set blocks. block_ok b"
  shows "\<exists>r. sort_blocks order blocks = Ok r \<and> list_all2 keeps_place blocks r \<and>
    filter tool_result r =
      (if order = [] then filter tool_result blocks else sort_key (call_rank order) (filter tool_result blocks))"
  by (rule sort_blocks_spec [OF assms])

definition demo_blocks :: "json list" where
  "demo_blocks =
     [JObj [(''type'', JStr ''tool_result''), (''tool_use_id'', JStr ''b''), (''content'', JStr ''2'')],
      JObj [(''type'', JStr ''text''), (''text'', JStr ''hi'')],
      JObj [(''type'', JStr ''tool_result''), (''tool_use_id'', JStr ''a''), (''content'', JStr ''1'')]]"

definition demo_order :: "(json, nat) dict" where
  "demo_order = [(JStr ''a'', 0), (JStr ''b'', 1)]"

theorem sort_blocks_exact_witness:
  "\<exists>r. sort_blocks demo_order demo_blocks = Ok r \<and> list_all2 keeps_place demo_blocks r \<and>
    filter tool_result r =
      (if demo_order = [] then filter tool_result demo_blocks
       else sort_key (call_rank demo_order) (filter tool_result demo_blocks))"
  by (rule sort_blocks_exact) code_simp


section \<open>Image placeholders\<close>

fun occurrences :: "string \<Rightarrow> string \<Rightarrow> nat" where
  "occurrences p [] = 0"
| "occurrences p (c # s) = (if starts_with p (c # s) then 1 else 0) + occurrences p s"

lemma contains_occurrences: "p \<noteq> [] \<Longrightarrow> contains p s \<longleftrightarrow> occurrences p s > 0"
  by (induction s) auto

lemma starts_with_sep: "c \<notin> set p \<Longrightarrow> starts_with p (a @ c # b) \<longleftrightarrow> starts_with p a"
proof (induction p arbitrary: a)
  case (Cons x p)
  then show ?case by (cases a) auto
qed simp

lemma occurrences_sep:
  "c \<notin> set p \<Longrightarrow> p \<noteq> [] \<Longrightarrow> occurrences p (a @ c # b) = occurrences p a + occurrences p b"
proof (induction a)
  case Nil
  then show ?case by (cases p) auto
next
  case (Cons x a)
  then show ?case using starts_with_sep [of c p "x # a" b] by simp
qed

lemma occurrences_join:
  "CHR 0x0A \<notin> set p \<Longrightarrow> p \<noteq> [] \<Longrightarrow> occurrences p (py_join (nl @ nl) ss) = sum_list (map (occurrences p) ss)"
proof (induction ss)
  case (Cons s ss)
  then show ?case
    using occurrences_sep [of "CHR 0x0A" p s "nl @ py_join (nl @ nl) ss"]
      occurrences_sep [of "CHR 0x0A" p "[]" "py_join (nl @ nl) ss"]
    by (cases ss) auto
qed simp

lemma image_placeholder_facts:
  "CHR 0x0A \<notin> set IMAGE_PLACEHOLDER" "IMAGE_PLACEHOLDER \<noteq> []" "occurrences IMAGE_PLACEHOLDER IMAGE_PLACEHOLDER = 1"
  by code_simp+

fun image_part :: "json \<Rightarrow> bool" where
  "image_part (JObj d) = (mget ''type'' d \<in> {JStr ''image_url'', JStr ''input_image'', JStr ''image_pil''})"
| "image_part _ = False"

fun image_parts :: "json \<Rightarrow> nat" where
  "image_parts (JList bs) = length (filter image_part bs)"
| "image_parts _ = 0"

lemma reject_Ok_iff:
  "reject_image_placeholder v = Ok u \<longleftrightarrow> (\<forall>s. v = JStr s \<longrightarrow> occurrences IMAGE_PLACEHOLDER s = 0)"
  by (auto simp: reject_image_placeholder_def contains_occurrences image_placeholder_facts split: json.splits)

lemma normalize_part_occurrences:
  assumes "normalize_part b = Ok (JStr s)"
  shows "occurrences IMAGE_PLACEHOLDER s = (if image_part b then 1 else 0)"
proof (cases b)
  case (JObj d)
  then show ?thesis using assms image_placeholder_facts(3)
    by (auto simp: normalize_part_def bindE_eq_Inr_iff reject_Ok_iff split: if_splits)
qed (use assms in \<open>auto simp: normalize_part_def\<close>)

lemma mapE_eq_Ok_iff: "mapE f xs = Ok ys \<longleftrightarrow> list_all2 (\<lambda>x y. f x = Ok y) xs ys"
  by (induction xs arbitrary: ys) (auto simp: bindE_eq_Inr_iff list_all2_Cons1)

lemma parts_occurrences:
  assumes "mapE normalize_part bs = Ok parts" and "mapE as_str parts = Ok ss"
  shows "sum_list (map (occurrences IMAGE_PLACEHOLDER) ss) = length (filter image_part bs)"
  using assms
proof (induction bs arbitrary: parts ss)
  case (Cons b bs)
  then obtain p ps where p: "normalize_part b = Ok p" "mapE normalize_part bs = Ok ps" "parts = p # ps"
    by (auto simp: bindE_eq_Inr_iff)
  then obtain s ss' where "p = JStr s" "mapE as_str ps = Ok ss'" "ss = s # ss'"
    using Cons.prems(2) by (cases p) (auto simp: bindE_eq_Inr_iff)
  then show ?case using Cons.IH [OF p(2)] p(1) normalize_part_occurrences by simp
qed simp

lemma get_or_dict_set: "get_or k dflt (dict_set k' v m) = (if k = k' then v else get_or k dflt m)"
  by (simp add: get_or_def)

definition placeholders_ok :: "message \<Rightarrow> message \<Rightarrow> bool" where
  "placeholders_ok m m' \<longleftrightarrow>
     (\<forall>s. mget ''content'' m' = JStr s \<longrightarrow> occurrences IMAGE_PLACEHOLDER s = image_parts (mget ''content'' m)) \<and>
     (\<forall>s. mget ''reasoning_content'' m' = JStr s \<longrightarrow> occurrences IMAGE_PLACEHOLDER s = 0)"

lemma normalize_message_placeholders:
  assumes "normalize_message m = Ok m'"
  shows "placeholders_ok m m'"
proof -
  define m1 where "m1 = (case dict_get m ''reasoning'' of
    Some r \<Rightarrow> dict_set ''reasoning_content'' r m | None \<Rightarrow> m)"
  have c1: "mget ''content'' m1 = mget ''content'' m"
    by (simp add: m1_def get_or_dict_set split: option.split)
  have rej: "reject_image_placeholder (mget ''reasoning_content'' m1) = Ok ()"
    "reject_image_placeholder (mget ''content'' m) = Ok ()"
    and rest: "(case mget ''content'' m of JList blocks \<Rightarrow>
        bindE (mapE normalize_part blocks) (\<lambda>parts. bindE (join_json (nl @ nl) parts) (\<lambda>text.
        Ok (dict_set ''content'' (JStr text) m1))) | _ \<Rightarrow> Ok m1) = Ok m'"
    using assms c1 unfolding normalize_message_def Let_def m1_def [symmetric]
    by (auto simp: bindE_eq_Inr_iff split: if_splits)
  show ?thesis
  proof (cases "mget ''content'' m")
    case (JList bs)
    then obtain parts ss where "mapE normalize_part bs = Ok parts" "mapE as_str parts = Ok ss"
      "m' = dict_set ''content'' (JStr (py_join (nl @ nl) ss)) m1"
      using rest by (auto simp: bindE_eq_Inr_iff join_json_def)
    moreover have "occurrences IMAGE_PLACEHOLDER (py_join (nl @ nl) ss) = sum_list (map (occurrences IMAGE_PLACEHOLDER) ss)"
      using image_placeholder_facts by (intro occurrences_join)
    ultimately show ?thesis using rej(1) parts_occurrences JList
      by (simp add: placeholders_ok_def get_or_dict_set reject_Ok_iff)
  qed (use rest rej c1 in \<open>auto simp: placeholders_ok_def reject_Ok_iff\<close>)
qed

text \<open>C33: Normalised conversations carry exactly one image placeholder per image part: in every message the placeholder occurs in the content as often as the client sent image parts there, and never in the reasoning, so no client text can smuggle in a placeholder, not even one assembled from neighbouring text parts.\<close>

theorem placeholders_are_images:
  assumes "normalize_messages ms = Ok out"
  shows "list_all2 placeholders_ok ms out"
  using assms normalize_message_placeholders
  by (auto simp: normalize_messages_def mapE_eq_Ok_iff elim: list_all2_mono)

definition demo_image_message :: message where
  "demo_image_message = [(''role'', JStr ''user''), (''content'', JList
     [JObj [(''type'', JStr ''text''), (''text'', JStr ''what is'')],
      JObj [(''type'', JStr ''image_url''), (''image_url'', JStr ''u'')]])]"

theorem placeholders_are_images_witness:
  "list_all2 placeholders_ok [demo_image_message] (projr (normalize_messages [demo_image_message]))"
proof (rule placeholders_are_images)
  show "normalize_messages [demo_image_message] = Ok (projr (normalize_messages [demo_image_message]))"
    by code_simp
qed


section \<open>Encoding with a context\<close>

text \<open>A new assistant turn after a context that ends in a developer message.\<close>

definition dev_message :: "string \<Rightarrow> message" where
  "dev_message s = [(''role'', JStr ''developer''), (''content'', JStr s)]"

definition assistant_message :: "string \<Rightarrow> message" where
  "assistant_message s = [(''role'', JStr ''assistant''), (''content'', JStr s)]"

definition user_message :: "string \<Rightarrow> message" where
  "user_message s = [(''role'', JStr ''user''), (''content'', JStr s)]"

lemmas encode_simps = encode_messages_def merge_tool_messages_def merge_step_def get_or_def
  sort_tool_results_by_call_order_def sort_step_def sort_blocks_def is_tool_result_def drop_thinking_messages_def
  find_last_user_index_def starts_turn_def is_visible_block_def drop_thinking_step_def hashable_def keep_roles_def
  render_message_def render_reasoning_effort_def render_role_def render_user_def render_block_def render_extras_def
  render_transition_def render_assistant_def join_json_def on_last_def extend_blocks_def or_empty_def fmt_def
  dict_pop_def REASONING_EFFORT_MAPPINGS_def


text \<open>C34: With a context, dropping old reasoning can lose a new turn: the number of context messages is computed from the context pruned by itself, but a developer message is pruned only when a later user turn follows. After a context of one developer message, a new assistant turn is absent from the thinking-mode prompt whatever it says, while chat mode renders it.\<close>

theorem context_loses_new_turn:
  "encode_messages env [assistant_message a, user_message q] ''thinking'' [dev_message d] True True JNull =
     Ok (USER_SP_TOKEN @ q @ ASSISTANT_SP_TOKEN @ thinking_start_token) \<and>
   encode_messages env [assistant_message a, user_message q] ''chat'' [dev_message d] True True JNull =
     Ok (a @ eos_token @ USER_SP_TOKEN @ q @ ASSISTANT_SP_TOKEN @ thinking_end_token)"
  by (simp add: encode_simps dev_message_def assistant_message_def user_message_def Let_def)

section \<open>Well-typed conversations are encoded\<close>

definition tools_ok :: "json \<Rightarrow> bool" where
  "tools_ok v = (case v of JNull \<Rightarrow> True
     | JList ts \<Rightarrow> (\<forall>t \<in> set ts. case t of JObj d \<Rightarrow> ''function'' \<in> set (dict_keys d) | _ \<Rightarrow> False)
     | _ \<Rightarrow> False)"

definition call_ok :: "json \<Rightarrow> bool" where
  "call_ok tc = (case tc of
     JObj d \<Rightarrow> hashable (mget ''id'' d) \<and>
       (case dict_get d ''function'' of
          Some (JObj f) \<Rightarrow> ''name'' \<in> set (dict_keys f) \<and> ''arguments'' \<in> set (dict_keys f) \<and>
                          hashable (get_or ''id'' (JStr []) f)
        | _ \<Rightarrow> False)
   | _ \<Rightarrow> False)"

definition calls_ok :: "json \<Rightarrow> bool" where
  "calls_ok v = (case v of JNull \<Rightarrow> True | JList tcs \<Rightarrow> (\<forall>tc \<in> set tcs. call_ok tc) | _ \<Rightarrow> False)"

definition task_ok :: "json \<Rightarrow> bool" where
  "task_ok v = (case v of JNull \<Rightarrow> True | JStr t \<Rightarrow> t \<in> set (dict_keys DS_TASK_SP_TOKENS) | _ \<Rightarrow> False)"

text \<open>A message as the chat API sends it after normalisation: text content, lists of
  tools and tool calls with their functions, a known task.\<close>

definition well_typed :: "message \<Rightarrow> bool" where
  "well_typed m \<longleftrightarrow> mget ''role'' m \<in> JStr ` set valid_roles \<and> mget ''content_blocks'' m = JNull \<and>
     \<not> is_list (mget ''content'' m) \<and>
     (role_is ''user'' m \<longrightarrow> is_str (get_or ''content'' (JStr []) m)) \<and>
     (role_is ''developer'' m \<longrightarrow> is_str (mget ''content'' m) \<and> truthy (mget ''content'' m)) \<and>
     hashable (get_or ''tool_call_id'' (JStr []) m) \<and>
     tools_ok (mget ''tools'' m) \<and> calls_ok (mget ''tool_calls'' m) \<and> task_ok (mget ''task'' m)"

fun ready_block :: "json \<Rightarrow> bool" where
  "ready_block (JObj d) = (hashable (get_or ''tool_use_id'' (JStr []) d) \<and>
     (mget ''type'' d = JStr ''text'' \<and> is_str (get_or ''text'' (JStr []) d) \<or>
      mget ''type'' d = JStr ''tool_result'' \<and> \<not> is_list (get_or ''content'' (JStr []) d)))"
| "ready_block _ = False"

definition blocks_ready :: "message \<Rightarrow> bool" where
  "blocks_ready m \<longleftrightarrow>
     (\<exists>bs. dict_get m ''content_blocks'' = Some (JList bs) \<and> bs \<noteq> [] \<and> (\<forall>b \<in> set bs. ready_block b))"

text \<open>A message after the merge.\<close>

definition ready :: "message \<Rightarrow> bool" where
  "ready m \<longleftrightarrow> mget ''role'' m \<in> JStr ` set [''system'', ''developer'', ''user'', ''assistant'', ''latest_reminder''] \<and>
     (role_is ''developer'' m \<longrightarrow> is_str (mget ''content'' m) \<and> truthy (mget ''content'' m)) \<and>
     (if role_is ''user'' m then blocks_ready m else mget ''content_blocks'' m = JNull) \<and>
     tools_ok (mget ''tools'' m) \<and> calls_ok (mget ''tool_calls'' m) \<and> task_ok (mget ''task'' m)"

text \<open>The last message asks for an answer.\<close>

definition asks :: "message \<Rightarrow> bool" where
  "asks m \<longleftrightarrow> role_is ''user'' m \<and> mget ''task'' m = JNull"

lemma get_or_Some: "get_or k JNull m = v \<Longrightarrow> v \<noteq> JNull \<Longrightarrow> dict_get m k = Some v"
  by (auto simp: get_or_def or_default_def split: option.splits)

lemma extend_ready:
  assumes "ready m" "role_is ''user'' m" "\<forall>b \<in> set xs. ready_block b"
  shows "\<exists>m'. extend_blocks (Ok xs) (m, False) = Ok (m', False) \<and> ready m' \<and> mget ''role'' m' = mget ''role'' m
    \<and> mget ''task'' m' = mget ''task'' m"
proof -
  obtain bs where bs: "dict_get m ''content_blocks'' = Some (JList bs)" "bs \<noteq> []" "\<forall>b \<in> set bs. ready_block b"
    using assms(1,2) by (auto simp: ready_def blocks_ready_def)
  then have "extend_blocks (Ok xs) (m, False) = Ok (dict_set ''content_blocks'' (JList (bs @ xs)) m, False)"
    by (simp add: extend_blocks_def)
  moreover have "ready (dict_set ''content_blocks'' (JList (bs @ xs)) m)"
    using assms bs by (simp add: ready_def blocks_ready_def get_or_dict_set ball_Un)
  ultimately show ?thesis by (simp add: get_or_dict_set)
qed

lemma on_last_snoc: "on_last f (xs @ [x]) = bindE (f x) (\<lambda>y. Ok (xs @ [y]))"
  by (simp add: on_last_def)

text \<open>The state of the merge: ready messages, none aliased.\<close>

definition merged_ok :: "(message \<times> bool) list \<Rightarrow> bool" where
  "merged_ok mm \<longleftrightarrow> (\<forall>(m, a) \<in> set mm. ready m \<and> \<not> a)"

lemma merged_ok_simps [simp]: "merged_ok []" "merged_ok (xs @ [(m, a)]) \<longleftrightarrow> merged_ok xs \<and> ready m \<and> \<not> a"
  by (auto simp: merged_ok_def)

lemma merge_into_last:
  assumes "merged_ok mm" "mm \<noteq> []" "role_is ''user'' (fst (last mm))" "\<forall>b \<in> set xs. ready_block b"
  shows "\<exists>mm'. on_last (extend_blocks (Ok xs)) mm = Ok mm' \<and> merged_ok mm' \<and> mm' \<noteq> [] \<and>
    role_is ''user'' (fst (last mm')) \<and> mget ''task'' (fst (last mm')) = mget ''task'' (fst (last mm))"
proof -
  obtain ys m a where y: "mm = ys @ [(m, a)]" using assms(2) by (metis rev_exhaust surj_pair)
  then have "merged_ok ys" "ready m" "\<not> a" "role_is ''user'' m" using assms(1,3) by simp_all
  then show ?thesis using extend_ready [of m xs] assms(4) by (auto simp: y on_last_snoc)
qed

lemma merge_step_ready:
  assumes "well_typed msg" and "merged_ok mm"
  shows "\<exists>mm'. merge_step msg mm = Ok mm' \<and> merged_ok mm' \<and> mm' \<noteq> [] \<and> (asks msg \<longrightarrow> asks (fst (last mm')))"
proof -
  let ?into = "mm \<noteq> [] \<and> role_is ''user'' (fst (last mm)) \<and> ''content_blocks'' \<in> set (dict_keys (fst (last mm)))"
  consider "role_is ''tool'' msg" | "role_is ''user'' msg"
    | "\<not> role_is ''tool'' msg" "\<not> role_is ''user'' msg" by blast
  then show ?thesis
  proof cases
    case 1
    define blk where "blk = JObj [(''type'', JStr ''tool_result''),
      (''tool_use_id'', get_or ''tool_call_id'' (JStr []) msg), (''content'', get_or ''content'' (JStr []) msg)]"
    have "\<not> is_list (get_or ''content'' (JStr []) msg)" using assms(1)
      by (cases "dict_get msg ''content''") (auto simp: well_typed_def get_or_def)
    then have blk: "ready_block blk" using assms(1) by (simp add: blk_def well_typed_def get_or_def)
    have step: "merge_step msg mm = (if ?into then on_last (extend_blocks (Ok [blk])) mm
      else Ok (mm @ [([(''role'', JStr ''user''), (''content_blocks'', JList [blk])], False)]))"
      using 1 assms(1) by (simp add: merge_step_def blk_def well_typed_def Let_def)
    have new: "ready [(''role'', JStr ''user''), (''content_blocks'', JList [blk])]"
      using blk by (simp add: ready_def blocks_ready_def get_or_def tools_ok_def calls_ok_def task_ok_def)
    show ?thesis
    proof (cases ?into)
      case True
      then show ?thesis using merge_into_last [OF assms(2), of "[blk]"] blk step 1 by (auto simp: asks_def)
    next
      case False
      then show ?thesis using step new assms(2) 1 by (auto simp: asks_def)
    qed
  next
    case 2
    define blk where "blk = JObj [(''type'', JStr ''text''), (''text'', get_or ''content'' (JStr []) msg)]"
    have str: "is_str (get_or ''content'' (JStr []) msg)" using assms(1) 2 by (simp add: well_typed_def)
    then have nl: "\<not> is_list (get_or ''content'' (JStr []) msg)"
      by (cases "get_or ''content'' (JStr []) msg") auto
    have blk: "ready_block blk" using str by (simp add: blk_def get_or_def hashable_def)
    have step: "merge_step msg mm = (if ?into \<and> mget ''task'' (fst (last mm)) = JNull
      then on_last (extend_blocks (Ok [blk])) mm
      else Ok (mm @ [(dict_set ''content_blocks'' (JList [blk]) msg, False)]))"
      using 2 assms(1) nl by (simp add: merge_step_def blk_def well_typed_def Let_def)
    have new: "ready (dict_set ''content_blocks'' (JList [blk]) msg)"
      using blk 2 assms(1) by (auto simp: ready_def blocks_ready_def get_or_dict_set well_typed_def)
    show ?thesis
    proof (cases "?into \<and> mget ''task'' (fst (last mm)) = JNull")
      case True
      then show ?thesis using merge_into_last [OF assms(2), of "[blk]"] blk step by (auto simp: asks_def)
    next
      case False
      then show ?thesis using step new assms(2) by (auto simp: asks_def get_or_dict_set)
    qed
  next
    case 3
    then have "ready msg" using assms(1) by (auto simp: ready_def well_typed_def valid_roles_def)
    then show ?thesis using 3 assms(2) by (simp add: merge_step_def asks_def)
  qed
qed

lemma merge_tool_messages_Nil: "merge_tool_messages [] = Ok []"
  by (simp add: merge_tool_messages_def)

lemma merge_ready:
  assumes "\<forall>m \<in> set ms. well_typed m"
  shows "\<exists>out. merge_tool_messages ms = Ok out \<and> (\<forall>m \<in> set out. ready m) \<and>
    (ms \<noteq> [] \<longrightarrow> out \<noteq> [] \<and> (asks (last ms) \<longrightarrow> asks (last out)))"
proof -
  have "\<exists>mm'. foldE merge_step ms mm = Ok mm' \<and> merged_ok mm' \<and>
      (ms \<noteq> [] \<longrightarrow> mm' \<noteq> [] \<and> (asks (last ms) \<longrightarrow> asks (fst (last mm'))))" if "merged_ok mm" for mm
    using assms that
  proof (induction ms rule: rev_induct)
    case (snoc m ms)
    then obtain mm1 where "foldE merge_step ms mm = Ok mm1" "merged_ok mm1" by auto
    then show ?case using merge_step_ready [of m mm1] snoc.prems by (auto simp: foldE_append)
  qed simp
  from this [of "[]"] show ?thesis
    by (force simp: merge_tool_messages_def merged_ok_def last_map)
qed


text \<open>Ready messages that differ only in the order of their blocks.\<close>

definition same_turn :: "message \<Rightarrow> message \<Rightarrow> bool" where
  "same_turn m m' \<longleftrightarrow> ready m' \<and> mget ''role'' m' = mget ''role'' m \<and> mget ''task'' m' = mget ''task'' m"

lemma ready_block_ok: "ready_block b \<Longrightarrow> block_ok b"
  by (cases b) auto

lemma hash_key_Ok: "hashable v \<Longrightarrow> \<exists>k. hash_key v = Ok k"
  by (cases v) (auto simp: hash_key_def)

lemma call_order_step_Ok:
  assumes "call_ok tc"
  shows "\<exists>order'. call_order_step (i, tc) order = Ok order'"
proof -
  obtain d f where d: "tc = JObj d" "hashable (mget ''id'' d)" "dict_get d ''function'' = Some (JObj f)"
    "hashable (get_or ''id'' (JStr []) f)"
  proof (cases tc)
    case (JObj d)
    obtain fv where fv: "dict_get d ''function'' = Some fv"
      using assms JObj by (cases "dict_get d ''function''") (auto simp: call_ok_def)
    show ?thesis using that JObj assms fv by (cases fv) (auto simp: call_ok_def)
  qed (use assms in \<open>auto simp: call_ok_def\<close>)
  have "\<exists>k. hash_key (mget ''id'' d) = Ok k" "\<exists>k. hash_key (get_or ''id'' (JStr []) f) = Ok k"
    using hash_key_Ok d(2,4) by blast+
  then show ?thesis using d(3) by (auto simp: call_order_step_def d(1) get_or_def [of "''function''"])
qed

lemma call_order_Ok:
  assumes "calls_ok v" and "truthy v"
  shows "\<exists>order. call_order v = Ok order"
proof -
  obtain tcs where v: "v = JList tcs" "\<forall>tc \<in> set tcs. call_ok tc"
    using assms by (auto simp: calls_ok_def split: json.splits)
  have "\<exists>order'. foldE call_order_step xs order = Ok order'" if "\<forall>x \<in> set xs. call_ok (snd x)" for xs order
    using that
  proof (induction xs arbitrary: order)
    case (Cons x xs)
    then obtain o1 where "call_order_step x order = Ok o1" using call_order_step_Ok by (cases x) fastforce
    then show ?case using Cons by simp
  qed simp
  moreover have "\<forall>x \<in> set (zip [0..<length tcs] tcs). call_ok (snd x)"
    using v(2) by (auto dest: set_zip_rightD)
  ultimately show ?thesis by (simp add: call_order_def v(1))
qed

lemma sort_step_ready:
  assumes "ready m"
  shows "\<exists>order' m'. sort_step m (order, out) = Ok (order', out @ [m']) \<and> same_turn m m'"
proof -
  consider "role_is ''assistant'' m \<and> truthy (mget ''tool_calls'' m)"
    | "role_is ''user'' m" | "\<not> (role_is ''assistant'' m \<and> truthy (mget ''tool_calls'' m))" "\<not> role_is ''user'' m"
    by blast
  then show ?thesis
  proof cases
    case 1
    then obtain order' where "call_order (mget ''tool_calls'' m) = Ok order'"
      using call_order_Ok assms by (auto simp: ready_def)
    then show ?thesis using 1 assms by (auto simp: sort_step_def same_turn_def)
  next
    case 2
    then obtain bs where bs: "dict_get m ''content_blocks'' = Some (JList bs)" "bs \<noteq> []" "\<forall>b \<in> set bs. ready_block b"
      using assms by (auto simp: ready_def blocks_ready_def)
    then have b: "mget ''content_blocks'' m = JList bs" by (simp add: get_or_def)
    obtain r where r: "sort_blocks order bs = Ok r" "list_all2 keeps_place bs r"
      "filter tool_result r = (if order = [] then filter tool_result bs else sort_key (call_rank order) (filter tool_result bs))"
      using sort_blocks_spec [of bs order] bs(3) ready_block_ok by blast
    have "x \<in> set bs" if xr: "x \<in> set r" for x
    proof (cases "tool_result x")
      case True
      then have "x \<in> set (filter tool_result r)" using that by simp
      then show ?thesis unfolding r(3) by (auto split: if_splits)
    next
      case False
      obtain i where "i < length r" "x = r ! i" using xr by (auto simp: in_set_conv_nth)
      then show ?thesis using False r(2) by (metis list_all2_conv_all_nth keeps_place_def nth_mem)
    qed
    moreover have "r \<noteq> []" using r(2) bs(2) by auto
    ultimately have "ready (dict_set ''content_blocks'' (JList r) m)"
      using assms bs(3) 2 by (auto simp: ready_def blocks_ready_def get_or_dict_set)
    then have "same_turn m (if r = bs then m else dict_set ''content_blocks'' (JList r) m)"
      using assms by (simp add: same_turn_def get_or_dict_set)
    then show ?thesis using 2 b bs(2) r(1) by (simp add: sort_step_def)
  next
    case 3
    then show ?thesis using assms by (auto simp: sort_step_def same_turn_def)
  qed
qed

lemma sort_ready:
  assumes "\<forall>m \<in> set ms. ready m"
  shows "\<exists>out. sort_tool_results_by_call_order ms = Ok out \<and> list_all2 same_turn ms out"
proof -
  have "\<exists>order' out'. foldE sort_step ms (order, out) = Ok (order', out @ out') \<and> list_all2 same_turn ms out'" for order out
    using assms
  proof (induction ms arbitrary: order out)
    case (Cons m ms)
    then obtain order1 m' where 1: "sort_step m (order, out) = Ok (order1, out @ [m'])" "same_turn m m'"
      using sort_step_ready by fastforce
    obtain order2 out' where "foldE sort_step ms (order1, out @ [m']) = Ok (order2, (out @ [m']) @ out')"
      "list_all2 same_turn ms out'" using Cons by fastforce
    then show ?case using 1 by (intro exI [of _ order2] exI [of _ "m' # out'"]) simp
  qed simp
  from this [of "[]" "[]"] show ?thesis by (auto simp: sort_tool_results_by_call_order_def)
qed

lemma anyE_visible_Ok: "\<forall>b \<in> set bs. ready_block b \<Longrightarrow> \<exists>v. anyE is_visible_block bs = Ok v"
proof (induction bs)
  case (Cons b bs)
  then obtain v where "anyE is_visible_block bs = Ok v" by auto
  moreover obtain t where "is_visible_block b = Ok t"
    using Cons.prems by (cases b) (auto simp: is_visible_block_def)
  ultimately show ?case by (intro exI [of _ "t \<or> v"]) simp
qed (simp add: exI [of _ False])

lemma last_user_Ok:
  assumes "\<forall>m \<in> set ms. ready m" and "n \<le> length ms"
  shows "\<exists>i. last_user_loop ms n = Ok i \<and> i < int n"
  using assms(2)
proof (induction n)
  case (Suc n)
  have r: "ready (ms ! n)" using assms(1) Suc.prems by simp
  have "\<exists>v. (if truthy (mget ''content_blocks'' (ms ! n))
      then bindE (iter_json (mget ''content_blocks'' (ms ! n))) (anyE is_visible_block) else Ok True) = Ok v"
  proof (cases "role_is ''user'' (ms ! n)")
    case True
    then obtain bs where "mget ''content_blocks'' (ms ! n) = JList bs" "\<forall>b \<in> set bs. ready_block b"
      using r by (auto simp: ready_def blocks_ready_def get_or_def)
    then show ?thesis using anyE_visible_Ok [of bs] by (simp add: exI [of _ True])
  next
    case False
    then show ?thesis using r by (simp add: ready_def exI [of _ True])
  qed
  then show ?case using Suc by (auto simp: Let_def)
qed simp

lemma find_last_user_Ok:
  "\<forall>m \<in> set ms. ready m \<Longrightarrow> \<exists>i. find_last_user_index ms = Ok i \<and> i < int (length ms)"
  using last_user_Ok [of ms "length ms"] by (simp add: find_last_user_index_def)

lemma ready_pop: "ready m \<Longrightarrow> ready (dict_pop ''reasoning_content'' m)"
  by (auto simp: ready_def blocks_ready_def get_or_def dict_get_pop)

lemma drop_thinking_ready:
  assumes "\<forall>m \<in> set ms. ready m" and "ms \<noteq> []" and "asks (last ms)"
  shows "\<exists>out. drop_thinking_messages ms = Ok out \<and> (\<forall>m \<in> set out. ready m) \<and> out \<noteq> [] \<and> asks (last out)"
proof -
  obtain i where i: "find_last_user_index ms = Ok i" using find_last_user_Ok [OF assms(1)] by blast
  have step: "\<exists>out'. drop_thinking_step i (k, m) out = Ok out' \<and> (\<forall>m \<in> set out'. ready m) \<and>
      (role_is ''user'' m \<longrightarrow> out' = out @ [m])"
    if "ready m" "\<forall>m \<in> set out. ready m" for k m out
  proof -
    have role: "mget ''role'' m \<in> JStr ` {''system'', ''developer'', ''user'', ''assistant'', ''latest_reminder''}"
      using that(1) by (simp add: ready_def)
    then have "hashable (mget ''role'' m)" by (auto simp: hashable_def)
    then have "drop_thinking_step i (k, m) out =
      Ok (if mget ''role'' m \<in> JStr ` set keep_roles \<or> int k \<ge> i then out @ [m]
          else if role_is ''assistant'' m then out @ [dict_pop ''reasoning_content'' m] else out)"
      by (simp add: drop_thinking_step_def Let_def)
    moreover have "role_is ''user'' m \<Longrightarrow> mget ''role'' m \<in> JStr ` set keep_roles" by (simp add: keep_roles_def)
    ultimately show ?thesis using that ready_pop by simp
  qed
  have loop: "\<exists>out'. foldE (drop_thinking_step i) xs out = Ok out' \<and> (\<forall>m \<in> set out'. ready m)"
    if "\<forall>x \<in> set xs. ready (snd x)" "\<forall>m \<in> set out. ready m" for xs out
    using that
  proof (induction xs arbitrary: out)
    case (Cons x xs)
    obtain out1 where "drop_thinking_step i x out = Ok out1" "\<forall>m \<in> set out1. ready m"
      using step [of "snd x" out "fst x"] Cons.prems by auto
    then show ?case using Cons by simp
  qed simp
  obtain ys m where m: "ms = ys @ [m]" using assms(2) by (metis rev_exhaust)
  have zip: "zip [0..<length ms] ms = zip [0..<length ys] ys @ [(length ys, m)]" by (simp add: m)
  have "\<forall>x \<in> set (zip [0..<length ys] ys). ready (snd x)" using assms(1) by (auto simp: m dest: set_zip_rightD)
  then obtain out1 where out1: "foldE (drop_thinking_step i) (zip [0..<length ys] ys) [] = Ok out1" "\<forall>m \<in> set out1. ready m"
    using loop [of "zip [0..<length ys] ys" "[]"] by auto
  moreover have "role_is ''user'' m" "ready m" "asks m" using assms(1,3) by (simp_all add: m asks_def)
  ultimately obtain out2 where "drop_thinking_step i (length ys, m) out1 = Ok out2" "\<forall>m \<in> set out2. ready m"
    "out2 = out1 @ [m]" using step [of m out1 "length ys"] by auto
  then show ?thesis using out1(1) \<open>asks m\<close> i by (simp add: drop_thinking_messages_def zip foldE_append)
qed


lemma mapE_exists: "\<forall>x \<in> set xs. \<exists>y. f x = Ok y \<and> P y \<Longrightarrow> \<exists>ys. mapE f xs = Ok ys \<and> (\<forall>y \<in> set ys. P y)"
  by (induction xs) auto

lemma render_block_Ok: "ready_block b \<Longrightarrow> \<exists>y. render_block env b = Ok y \<and> is_str y"
proof (cases b)
  case (JObj d)
  assume "ready_block b"
  then show ?thesis using JObj
    by (cases "get_or ''content'' (JStr []) d") (auto simp: render_block_def)
qed auto

lemma as_str_Ok: "\<forall>v \<in> set vs. is_str v \<Longrightarrow> \<exists>s. join_json sep vs = Ok s"
proof -
  assume "\<forall>v \<in> set vs. is_str v"
  moreover have "is_str v \<Longrightarrow> \<exists>y. as_str v = Ok y \<and> True" for v by (cases v) auto
  ultimately have "\<forall>v \<in> set vs. \<exists>y. as_str v = Ok y \<and> True" by blast
  then show ?thesis using mapE_exists [of vs as_str "\<lambda>_. True"] by (auto simp: join_json_def)
qed

lemma render_user_Ok:
  assumes "ready m" "role_is ''user'' m"
  shows "\<exists>s. render_user env m = Ok s"
proof -
  obtain bs where bs: "mget ''content_blocks'' m = JList bs" "bs \<noteq> []" "\<forall>b \<in> set bs. ready_block b"
    using assms by (auto simp: ready_def blocks_ready_def get_or_def)
  then obtain ys where "mapE (render_block env) bs = Ok ys" "\<forall>y \<in> set ys. is_str y"
    using mapE_exists [of bs "render_block env" is_str] render_block_Ok by blast
  then show ?thesis using as_str_Ok [of ys "nl @ nl"] bs by (auto simp: render_user_def)
qed

lemma tools_ok_Ok: "tools_ok v \<Longrightarrow> truthy v \<Longrightarrow> \<exists>ts. tools_from_openai_format v = Ok ts"
proof -
  assume v: "tools_ok v" "truthy v"
  then obtain ts where ts: "v = JList ts" by (cases v) (auto simp: tools_ok_def)
  have "\<exists>y. jitem ''function'' t = Ok y \<and> True" if "t \<in> set ts" for t
  proof (cases t)
    case (JObj d)
    then have "''function'' \<in> fst ` set d" using v(1) that by (force simp: ts tools_ok_def)
    then show ?thesis using dict_get_key [of "''function''" d] JObj by auto
  qed (use v(1) that in \<open>force simp: ts tools_ok_def\<close>)+
  then show ?thesis using mapE_exists [of ts "jitem ''function''" "\<lambda>_. True"] by (auto simp: tools_from_openai_format_def ts)
qed

lemma call_ok_Ok:
  assumes "call_ok tc"
  shows "\<exists>y. bindE (jitem ''function'' tc) (\<lambda>f1. bindE (jitem ''name'' f1) (\<lambda>name.
       bindE (jitem ''function'' tc) (\<lambda>f2. bindE (jitem ''arguments'' f2) (\<lambda>arguments.
       Ok [(''name'', name), (''arguments'', arguments)])))) = Ok y \<and> ''arguments'' \<in> fst ` set y"
proof (cases tc)
  case (JObj d)
  obtain fv where fv: "dict_get d ''function'' = Some fv"
    using assms JObj by (cases "dict_get d ''function''") (auto simp: call_ok_def)
  then obtain f where f: "fv = JObj f" "''name'' \<in> fst ` set f" "''arguments'' \<in> fst ` set f"
    using assms JObj by (cases fv) (auto simp: call_ok_def)
  obtain a where "dict_get f ''name'' = Some a" by (rule exE [OF dict_get_key [OF f(2)]])
  moreover obtain b where "dict_get f ''arguments'' = Some b" by (rule exE [OF dict_get_key [OF f(3)]])
  ultimately show ?thesis using JObj fv f(1) by simp
qed (use assms in \<open>auto simp: call_ok_def\<close>)

lemma calls_ok_Ok:
  assumes "calls_ok v" "truthy v"
  shows "\<exists>tcs. tool_calls_from_openai_format v = Ok tcs \<and> (\<forall>tc \<in> set tcs. ''arguments'' \<in> fst ` set tc)"
proof -
  obtain xs where xs: "v = JList xs" "\<forall>tc \<in> set xs. call_ok tc"
    using assms by (cases v) (auto simp: calls_ok_def)
  show ?thesis unfolding tool_calls_from_openai_format_def xs(1) iter_json.simps bindE_simps
    by (rule mapE_exists) (use xs(2) call_ok_Ok in blast)
qed

lemma render_assistant_Ok:
  assumes "\<forall>tc \<in> set tcs. ''arguments'' \<in> fst ` set tc"
  shows "\<exists>s. render_assistant env i ms mode dr lu tcs = Ok s"
proof -
  have "\<exists>y. render_tool_call env tc = Ok y \<and> True" if "tc \<in> set tcs" for tc
  proof -
    have "''arguments'' \<in> fst ` set tc" using assms that by blast
    then obtain a where "dict_get tc ''arguments'' = Some a" by (elim dict_get_key [THEN exE])
    then show ?thesis by (simp add: render_tool_call_def encode_arguments_to_dsml_def Let_def)
  qed
  then obtain ys where "mapE (render_tool_call env) tcs = Ok ys"
    using mapE_exists [of tcs "render_tool_call env" "\<lambda>_. True"] by blast
  then show ?thesis by (simp add: render_assistant_def Let_def)
qed

lemma effort_Ok: "effort_valid e \<Longrightarrow> \<exists>s. render_reasoning_effort i mode e = Ok s"
proof (cases e)
  case (JStr s)
  assume "effort_valid e"
  then obtain b where "dict_get REASONING_EFFORT_MAPPINGS s = Some b"
    using JStr by (auto simp: effort_valid_def REASONING_EFFORT_MAPPINGS_def)
  then show ?thesis using JStr by (simp add: render_reasoning_effort_def)
qed (auto simp: effort_valid_def render_reasoning_effort_def)

lemma render_role_Ok:
  assumes "ready (ms ! i)" "\<forall>tc \<in> set tcs. ''arguments'' \<in> fst ` set tc"
  shows "\<exists>s. render_role env i ms mode dr lu ts tcs = Ok s"
proof -
  have dev: "\<exists>c. as_str (mget ''content'' (ms ! i)) = Ok c" if "role_is ''developer'' (ms ! i)"
    using assms(1) that by (cases "mget ''content'' (ms ! i)") (auto simp: ready_def)
  have "mget ''role'' (ms ! i) \<in> JStr ` {''system'', ''developer'', ''user'', ''assistant'', ''latest_reminder''}"
    using assms(1) by (simp add: ready_def)
  then consider "role_is ''system'' (ms ! i)" | "role_is ''developer'' (ms ! i)" | "role_is ''user'' (ms ! i)"
    | "role_is ''assistant'' (ms ! i)" | "role_is ''latest_reminder'' (ms ! i)" by auto
  then show ?thesis
  proof cases
    case 2
    then show ?thesis using dev assms(1) by (auto simp: render_role_def Let_def ready_def)
  next
    case 3
    then show ?thesis using render_user_Ok [OF assms(1)] by (simp add: render_role_def Let_def)
  next
    case 4
    then show ?thesis using render_assistant_Ok [OF assms(2)] by (simp add: render_role_def Let_def)
  qed (simp_all add: render_role_def Let_def)
qed

lemma render_transition_Ok:
  assumes "task_ok (mget ''task'' (ms ! i))"
  shows "\<exists>s. render_transition i ms mode dr lu = Ok s"
proof (cases "mget ''task'' (ms ! i)")
  case (JStr t)
  then have "t \<in> set (dict_keys DS_TASK_SP_TOKENS)" using assms by (simp add: task_ok_def)
  then obtain sp where "dict_get DS_TASK_SP_TOKENS t = Some sp"
    using dict_get_key [of t DS_TASK_SP_TOKENS] by auto
  then show ?thesis using JStr by (simp add: render_transition_def Let_def)
qed (use assms in \<open>auto simp: render_transition_def Let_def task_ok_def\<close>)


text \<open>The header after the last message that opens the answer.\<close>

definition answer_header :: "string \<Rightarrow> string" where
  "answer_header mode = ASSISTANT_SP_TOKEN @ (if mode = ''thinking'' then thinking_start_token else thinking_end_token)"

lemma render_message_Ok:
  assumes "ready (ms ! i)" and "i < length ms" and "mode = ''chat'' \<or> mode = ''thinking''" and "effort_valid e"
  shows "\<exists>pre tr. render_transition i ms mode dr lu = Ok tr \<and>
    render_message env i ms mode dr e (Some lu) = Ok (pre @ tr)"
proof -
  have ok: "tools_ok (mget ''tools'' (ms ! i))" "calls_ok (mget ''tool_calls'' (ms ! i))" "task_ok (mget ''task'' (ms ! i))"
    using assms(1) by (simp_all add: ready_def)
  obtain ts where ts: "(if truthy (mget ''tools'' (ms ! i)) then tools_from_openai_format (mget ''tools'' (ms ! i))
      else Ok []) = Ok ts"
    using tools_ok_Ok [OF ok(1)] by (cases "truthy (mget ''tools'' (ms ! i))") auto
  obtain tcs where tcs: "(if truthy (mget ''tool_calls'' (ms ! i))
      then tool_calls_from_openai_format (mget ''tool_calls'' (ms ! i)) else Ok []) = Ok tcs"
    "\<forall>tc \<in> set tcs. ''arguments'' \<in> fst ` set tc"
    using calls_ok_Ok [OF ok(2)] by (cases "truthy (mget ''tool_calls'' (ms ! i))") auto
  obtain ef where ef: "render_reasoning_effort i mode e = Ok ef" using effort_Ok [OF assms(4)] by blast
  obtain body where body: "render_role env i ms mode dr lu ts tcs = Ok body"
    using render_role_Ok [OF assms(1) tcs(2)] by blast
  obtain tr where tr: "render_transition i ms mode dr lu = Ok tr" using render_transition_Ok [OF ok(3)] by blast
  have "render_message env i ms mode dr e (Some lu) =
      Ok (((if i = 0 \<and> (ef \<noteq> [] \<or> role_is ''system'' (ms ! i)) then SYSTEM_SP_TOKEN else []) @ ef @ body) @ tr)"
    using assms(2,3) ts tcs(1) ef body tr by (simp add: render_message_def Let_def)
  then show ?thesis using tr by blast
qed

lemma answer_transition:
  assumes "ms \<noteq> []" "asks (last ms)" "lu < int (length ms)"
  shows "render_transition (length ms - 1) ms mode dr lu = Ok (answer_header mode)"
proof -
  have "last ms = ms ! (length ms - 1)" using assms(1) by (rule last_conv_nth)
  then show ?thesis using assms
    by (auto simp: render_transition_def answer_header_def asks_def starts_turn_def Let_def)
qed

lemma list_all2_last: "list_all2 P xs ys \<Longrightarrow> xs \<noteq> [] \<Longrightarrow> ys \<noteq> [] \<and> P (last xs) (last ys)"
  by (induction rule: list_all2_induct) (auto split: if_splits)

lemma mapE_snoc_exists:
  assumes "\<forall>x \<in> set xs. \<exists>y. f x = Ok y" and "f z = Ok (pre @ suf)"
  shows "\<exists>p. bindE (mapE f (xs @ [z])) (\<lambda>parts. Ok (b @ concat parts)) = Ok (b @ p @ suf)"
proof -
  have "\<forall>x \<in> set xs. \<exists>y. f x = Ok y \<and> True" using assms(1) by simp
  then obtain ys where ys: "mapE f xs = Ok ys" using mapE_exists [of xs f "\<lambda>_. True"] by blast
  have app: "mapE f (us @ vs) = bindE (mapE f us) (\<lambda>a. bindE (mapE f vs) (\<lambda>c. Ok (a @ c)))" for us vs
    by (induction us) (auto simp: bindE_def split: sum.splits)
  have "mapE f (xs @ [z]) = Ok (ys @ [pre @ suf])" using ys assms(2) by (simp add: app)
  then show ?thesis by simp
qed

text \<open>C13: Every well-typed conversation that ends in a user turn is encoded without error, in chat and in thinking mode, with and without dropping old reasoning, for every valid effort: tool messages are merged, no unknown role or tool message reaches the renderer, and the prompt starts with the begin-of-sentence token and ends with the assistant header, opening the reasoning in thinking mode and closing it in chat mode.\<close>

theorem encode_messages_complete:
  assumes "\<forall>m \<in> set ms. well_typed m" and "ms \<noteq> []" and "asks (last ms)"
    and "mode = ''chat'' \<or> mode = ''thinking''" and "effort_valid e"
  shows "\<exists>p. encode_messages env ms mode [] dr True e = Ok (bos_token @ p @ answer_header mode)"
proof -
  obtain merged where merged: "merge_tool_messages ms = Ok merged" "\<forall>m \<in> set merged. ready m" "merged \<noteq> []" "asks (last merged)"
    using merge_ready [OF assms(1)] assms(2,3) by blast
  obtain full0 where full0: "sort_tool_results_by_call_order merged = Ok full0" "list_all2 same_turn merged full0"
    using sort_ready [OF merged(2)] by blast
  have r0: "\<forall>m \<in> set full0. ready m" using full0(2) by (auto simp: list_all2_conv_all_nth in_set_conv_nth same_turn_def)
  have a0: "full0 \<noteq> []" "asks (last full0)"
    using list_all2_last [OF full0(2) merged(3)] merged(4) by (auto simp: same_turn_def asks_def)
  have len: "length full0 = length merged" using full0(2) by (simp add: list_all2_lengthD)
  define de where "de = (dr \<and> \<not> (\<exists>m \<in> set full0. truthy (mget ''tools'' m)))"
  obtain full where full: "(if mode = ''thinking'' \<and> de then
        bindE (drop_thinking_messages full0) (\<lambda>full1. bindE (drop_thinking_messages []) (\<lambda>kept.
          Ok (full1, int (length full1) - int (length kept), length kept)))
      else Ok (full0, int (length merged), 0)) = Ok (full, int (length full), 0)"
    "\<forall>m \<in> set full. ready m" "full \<noteq> []" "asks (last full)"
  proof (cases "mode = ''thinking'' \<and> de")
    case True
    obtain full1 where "drop_thinking_messages full0 = Ok full1" "\<forall>m \<in> set full1. ready m" "full1 \<noteq> []" "asks (last full1)"
      using drop_thinking_ready [OF r0 a0] by blast
    moreover have "drop_thinking_messages [] = Ok []" by (simp add: drop_thinking_messages_def find_last_user_index_def)
    ultimately show ?thesis using that True by simp
  next
    case False
    show ?thesis
    proof (rule that [of full0])
    qed (use r0 a0 len in \<open>simp_all only: if_not_P [OF False] not_False_eq_True\<close>)
  qed
  obtain lu where lu: "find_last_user_index full = Ok lu" "lu < int (length full)"
    using find_last_user_Ok [OF full(2)] by blast
  define n where "n = length full - 1"
  have n: "length full = Suc n" using full(3) by (simp add: n_def)
  let ?r = "\<lambda>i. render_message env (i + 0) full mode de e (Some lu)"
  have each: "\<exists>pre tr. render_transition i full mode de lu = Ok tr \<and> ?r i = Ok (pre @ tr)" if "i \<le> n" for i
  proof -
    have "ready (full ! i)" "i < length full" using full(2) that n by simp_all
    then show ?thesis using render_message_Ok [OF _ _ assms(4,5)] by simp
  qed
  have before: "\<forall>i \<in> set [0..<n]. \<exists>y. ?r i = Ok y"
  proof
    fix i assume "i \<in> set [0..<n]"
    then have "i \<le> n" by simp
    then obtain pre tr where "?r i = Ok (pre @ tr)" using each by blast
    then show "\<exists>y. ?r i = Ok y" by (rule exI)
  qed
  obtain pre tr where tr: "render_transition n full mode de lu = Ok tr" "?r n = Ok (pre @ tr)"
    using each [OF order_refl] by blast
  moreover have "tr = answer_header mode"
    using answer_transition [OF full(3,4) lu(2), of mode de] tr(1) by (simp add: n_def)
  ultimately have last: "?r n = Ok (pre @ answer_header mode)" by simp
  have "encode_messages env ms mode [] dr True e =
      bindE (mapE ?r ([0..<n] @ [n])) (\<lambda>parts. Ok (bos_token @ concat parts))"
    by (simp only: encode_messages_def merge_tool_messages_Nil merged(1) bindE_simps append_Nil full0(1) Let_def
        list.size(3) take_0 de_def [symmetric] full(1) prod.case lu(1) nat_int n upt_Suc if_True simp_thms zero_le)
  then show ?thesis using mapE_snoc_exists [OF before last] by simp
qed

definition demo_conversation :: "message list" where
  "demo_conversation =
     [[(''role'', JStr ''system''), (''content'', JStr ''be brief'')], user_message ''weather?'',
      [(''role'', JStr ''assistant''), (''reasoning_content'', JStr ''look it up''),
       (''tool_calls'', JList [JObj [(''id'', JStr ''c1''), (''function'', JObj
          [(''name'', JStr ''get''), (''arguments'', JStr ''x'')])]])],
      [(''role'', JStr ''tool''), (''tool_call_id'', JStr ''c1''), (''content'', JStr ''rain'')],
      user_message ''and now?'']"

theorem encode_messages_complete_witness:
  "\<exists>p. encode_messages demo_env demo_conversation ''thinking'' [] True True (JStr ''max'') =
     Ok (bos_token @ p @ answer_header ''thinking'')"
proof (rule encode_messages_complete)
  show "\<forall>m \<in> set demo_conversation. well_typed m" "demo_conversation \<noteq> []" "asks (last demo_conversation)"
    "effort_valid (JStr ''max'')" by code_simp+
qed simp

end
