(* ===== verification/Cudagraph.thy ===== *)
theory Cudagraph
  imports Prelude "HOL-Library.Product_Lexorder"
begin

text \<open>
  The CUDA-graph dispatcher (\<open>overlay/vllm/v1/cudagraph_dispatcher.py\<close>): the
  table of padded batch sizes, the keys of the graphs to capture, and the
  choice of a graph for a batch.

  \<open>CUDAGraphMode\<close> is not part of the repository.  Its three runtime members are
  a datatype, a configured mode is the record of the answers its methods give
  and of whether it equals NONE (so every mode is covered), and \<open>valid_runtime_modes()\<close>, the default
  descriptor \<open>BatchDescriptor(n)\<close> and \<open>get_captured_lora_counts\<close> are arguments.
  The key sets are lists without repetition; the order in which a Python set is
  iterated matters to no result below.
\<close>

section \<open>Configuration and state\<close>

datatype runtime_mode = MODE_NONE | PIECEWISE | FULL

record cg_mode =
  is_none :: bool
  has_full :: bool
  mixed_mode :: runtime_mode
  decode_mode :: runtime_mode
  separate_routine :: bool
  requires_piecewise_compilation :: bool

record batch_desc =
  desc_num_tokens :: nat
  desc_num_reqs :: "nat option"
  desc_uniform :: bool
  desc_has_lora :: bool
  desc_num_active_loras :: nat

record lora_config =
  max_loras :: nat
  specialize_active_lora :: bool

record cg_config =
  max_cudagraph_capture_size :: "nat option"
  cudagraph_capture_sizes :: "nat list option"
  compile_sizes :: "nat list"
  cudagraph_specialize_lora :: bool
  config_mode :: cg_mode
  attention_compiled_piecewise :: bool
  breakable_cudagraph_enabled :: bool
  max_num_seqs :: nat
  num_speculative_tokens :: nat
  lora :: "lora_config option"
  full_q1 :: bool

record dispatcher =
  uniform_decode_query_len :: nat
  keys_piecewise :: "batch_desc list"
  keys_full :: "batch_desc list"
  keys_initialized :: bool
  specialize_lora_count :: bool
  cudagraph_mode :: cg_mode
  bs_to_padded_graph_size :: "nat list option"
  captured_lora_counts :: "nat list option"

definition mode_none :: cg_mode where
  "mode_none = \<lparr>is_none = True, has_full = False, mixed_mode = MODE_NONE, decode_mode = MODE_NONE,
     separate_routine = False, requires_piecewise_compilation = False\<rparr>"

definition dispatcher_init :: "cg_config \<Rightarrow> dispatcher res" where
  "dispatcher_init cfg =
     bindE (assertE (\<not> requires_piecewise_compilation (config_mode cfg) \<or> attention_compiled_piecewise cfg \<or>
                     breakable_cudagraph_enabled cfg)) (\<lambda>_.
     Ok \<lparr>uniform_decode_query_len = 1 + num_speculative_tokens cfg,
         keys_piecewise = [], keys_full = [], keys_initialized = False,
         specialize_lora_count = (case lora cfg of None \<Rightarrow> False | Some l \<Rightarrow> specialize_active_lora l),
         cudagraph_mode = mode_none, bs_to_padded_graph_size = None, captured_lora_counts = None\<rparr>)"

section \<open>The table of padded sizes\<close>

definition list_set :: "nat \<Rightarrow> 'a \<Rightarrow> 'a list \<Rightarrow> 'a list res" where
  "list_set i v xs = (if i < length xs then Ok (xs[i := v]) else Err IndexError)"

definition fill_range :: "nat \<times> nat \<Rightarrow> nat list \<Rightarrow> nat list res" where
  "fill_range es table =
     (let (end, start) = es in
      foldE (\<lambda>bs t. list_set bs (if bs = start then start else end) t) [start..<end] table)"

definition padded_table :: "nat \<Rightarrow> nat list \<Rightarrow> nat list res" where
  "padded_table max_size capture_sizes =
     foldE fill_range (zip (capture_sizes @ [max_size + 1]) (0 # capture_sizes)) (replicate (max_size + 1) 0)"

definition check_compile_size :: "nat \<Rightarrow> nat list \<Rightarrow> nat \<Rightarrow> unit \<Rightarrow> unit res" where
  "check_compile_size max_size table sz u =
     (if sz \<le> max_size then
        (if sz < length table then (if table ! sz \<noteq> sz then Err ValueError else Ok ()) else Err IndexError)
      else Ok ())"

definition compute_bs_to_padded_graph_size :: "cg_config \<Rightarrow> dispatcher \<Rightarrow> dispatcher res" where
  "compute_bs_to_padded_graph_size cfg d =
     (case (max_cudagraph_capture_size cfg, cudagraph_capture_sizes cfg) of
        (Some max_size, Some capture_sizes) \<Rightarrow>
          bindE (padded_table max_size capture_sizes) (\<lambda>table.
          bindE (if compile_sizes cfg \<noteq> [] \<and> \<not> is_none (cudagraph_mode d)
                 then foldE (check_compile_size max_size table) (compile_sizes cfg) () else Ok ()) (\<lambda>_.
          Ok (d\<lparr>bs_to_padded_graph_size := Some table\<rparr>)))
      | _ \<Rightarrow> Err AssertionError)"

section \<open>Descriptors and keys\<close>

definition get_lora_cases :: "(nat \<Rightarrow> bool \<Rightarrow> nat list) \<Rightarrow> cg_config \<Rightarrow> dispatcher \<Rightarrow> nat list" where
  "get_lora_cases captured_counts cfg d =
     (case lora cfg of
        None \<Rightarrow> [0]
      | Some l \<Rightarrow> (if cudagraph_specialize_lora cfg then 0 # captured_counts (max_loras l) (specialize_lora_count d)
                   else [max_loras l + 1]))"

text \<open>The padded size and whether the batch stays uniform.\<close>

definition pad_uniform :: "cg_config \<Rightarrow> bool \<Rightarrow> nat \<Rightarrow> nat \<Rightarrow> nat \<Rightarrow> (nat \<times> bool) res" where
  "pad_uniform cfg uniform_full num_tokens q padded =
     (if \<not> uniform_full then Ok (padded, False)
      else if q = 0 then Err ZeroDivisionError
      else if padded mod q \<noteq> 0 then
        (case cudagraph_capture_sizes cfg of
           None \<Rightarrow> Err TypeError
         | Some sizes \<Rightarrow>
             (case filter (\<lambda>s. s \<ge> num_tokens \<and> s mod q = 0) sizes of
                s # _ \<Rightarrow> Ok (s, True)
              | [] \<Rightarrow> Ok (padded, False)))
      else Ok (padded, True))"

definition create_padded_batch_descriptor ::
  "cg_config \<Rightarrow> dispatcher \<Rightarrow> nat \<Rightarrow> bool \<Rightarrow> bool \<Rightarrow> nat \<Rightarrow> nat option \<Rightarrow> batch_desc res" where
  "create_padded_batch_descriptor cfg d num_tokens uniform_decode has_lora num_active_loras uniform_query_len =
     (let q = (case uniform_query_len of Some n \<Rightarrow> if n \<noteq> 0 then n else uniform_decode_query_len d
                                       | None \<Rightarrow> uniform_decode_query_len d) in
      case bs_to_padded_graph_size d of
        None \<Rightarrow> Err AttributeError
      | Some table \<Rightarrow>
          (if num_tokens \<ge> length table then Err IndexError
           else
             bindE (pad_uniform cfg (uniform_decode \<and> has_full (cudagraph_mode d)) num_tokens q (table ! num_tokens))
               (\<lambda>(padded, uniform).
             bindE (assertE (uniform \<longrightarrow> padded mod q = 0)) (\<lambda>_.
             Ok \<lparr>desc_num_tokens = padded,
                 desc_num_reqs = Some (if uniform then min (padded div q) (max_num_seqs cfg)
                                       else min padded (max_num_seqs cfg)),
                 desc_uniform = uniform, desc_has_lora = has_lora,
                 desc_num_active_loras = num_active_loras\<rparr>))))"

text \<open>\<open>replace(desc, num_reqs=None, uniform=False)\<close>.\<close>

definition relax :: "batch_desc \<Rightarrow> batch_desc" where
  "relax desc = desc\<lparr>desc_num_reqs := None, desc_uniform := False\<rparr>"

definition set_add :: "'a \<Rightarrow> 'a list \<Rightarrow> 'a list" where
  "set_add x xs = (if x \<in> set xs then xs else xs @ [x])"

definition add_cudagraph_key :: "runtime_mode \<Rightarrow> batch_desc \<Rightarrow> dispatcher \<Rightarrow> dispatcher res" where
  "add_cudagraph_key mode desc d =
     (case mode of
        PIECEWISE \<Rightarrow> Ok (d\<lparr>keys_piecewise := set_add desc (keys_piecewise d)\<rparr>)
      | FULL \<Rightarrow> Ok (d\<lparr>keys_full := set_add desc (keys_full d)\<rparr>)
      | MODE_NONE \<Rightarrow> Err AssertionError)"

abbreviation size_lora_product :: "nat list \<Rightarrow> nat list \<Rightarrow> (nat \<times> nat) list" where
  "size_lora_product sizes cases \<equiv> List.product sizes cases"

definition add_mixed_key :: "cg_config \<Rightarrow> nat \<times> nat \<Rightarrow> dispatcher \<Rightarrow> dispatcher res" where
  "add_mixed_key cfg bl d =
     (let (bs, n) = bl; mixed = mixed_mode (cudagraph_mode d) in
      bindE (create_padded_batch_descriptor cfg d bs False (n > 0) n None) (\<lambda>desc.
      add_cudagraph_key mixed (if mixed = PIECEWISE then relax desc else desc) d))"

definition add_decode_key :: "cg_config \<Rightarrow> nat option \<Rightarrow> nat \<times> nat \<Rightarrow> dispatcher \<Rightarrow> dispatcher res" where
  "add_decode_key cfg q bl d =
     (let (bs, n) = bl in
      bindE (create_padded_batch_descriptor cfg d bs True (n > 0) n q) (\<lambda>desc.
      add_cudagraph_key FULL desc d))"

text \<open>The FULL decode graphs: sizes for the configured query length, then one family
  per shorter query length (\<open>DSV41_FULL_Q1\<close>).\<close>

definition add_decode_graphs :: "cg_config \<Rightarrow> nat \<Rightarrow> nat list \<Rightarrow> nat list \<Rightarrow> dispatcher \<Rightarrow> dispatcher res" where
  "add_decode_graphs cfg query_len sizes cases d =
     (if query_len = 0 \<and> (\<exists>x \<in> set sizes. x \<le> query_len * max_num_seqs cfg \<and> x \<ge> query_len)
      then Err ZeroDivisionError
      else
        bindE (foldE (add_decode_key cfg None)
          (size_lora_product
             (filter (\<lambda>x. x \<le> query_len * max_num_seqs cfg \<and> x \<ge> query_len \<and> x mod query_len = 0) sizes)
             cases) d) (\<lambda>d5.
        if query_len > 1 \<and> full_q1 cfg then
          foldE (\<lambda>q. foldE (add_decode_key cfg (Some q))
            (size_lora_product (filter (\<lambda>x. x mod q = 0 \<and> x div q \<le> max_num_seqs cfg) sizes) cases))
            [1..<query_len] d5
        else Ok d5))"

definition initialize_cudagraph_keys ::
  "(nat \<Rightarrow> bool \<Rightarrow> nat list) \<Rightarrow> cg_config \<Rightarrow> cg_mode \<Rightarrow> nat \<Rightarrow> dispatcher \<Rightarrow> dispatcher res" where
  "initialize_cudagraph_keys captured_counts cfg mode query_len d0 =
     (let d1 = d0\<lparr>cudagraph_mode := mode\<rparr> in
      if is_none mode then Ok (d1\<lparr>keys_initialized := True\<rparr>)
      else
        bindE (compute_bs_to_padded_graph_size cfg d1) (\<lambda>d2.
        let cases = get_lora_cases captured_counts cfg d2;
            d3 = d2\<lparr>captured_lora_counts := Some (filter (\<lambda>n. n \<noteq> 0) cases)\<rparr>;
            sizes = or_default [] (cudagraph_capture_sizes cfg) in
        bindE (if mixed_mode mode \<noteq> MODE_NONE
               then foldE (add_mixed_key cfg) (size_lora_product sizes cases) d3 else Ok d3) (\<lambda>d4.
        bindE (if decode_mode mode = FULL \<and> separate_routine mode
               then add_decode_graphs cfg query_len sizes cases d4 else Ok d4) (\<lambda>d6.
        Ok (d6\<lparr>keys_initialized := True\<rparr>)))))"

section \<open>Dispatch\<close>

text \<open>\<open>bisect.bisect_left\<close> on the range from \<open>lo\<close> to \<open>hi\<close>.\<close>

function bisect_left :: "nat list \<Rightarrow> nat \<Rightarrow> nat \<Rightarrow> nat \<Rightarrow> nat" where
  "bisect_left a x lo hi =
     (if lo < hi then
        (let mid = (lo + hi) div 2
         in if a ! mid < x then bisect_left a x (mid + 1) hi else bisect_left a x lo mid)
      else lo)"
  by pat_completeness auto
termination by (relation "measure (\<lambda>(a, x, lo, hi). hi - lo)") auto

declare bisect_left.simps [simp del]

definition effective_loras :: "cg_config \<Rightarrow> dispatcher \<Rightarrow> bool \<Rightarrow> nat \<Rightarrow> nat res" where
  "effective_loras cfg d has_lora num_active_loras =
     (if has_lora \<and> num_active_loras > 0 then
        (if specialize_lora_count d then
           (case captured_lora_counts d of
              None \<Rightarrow> Err AttributeError
            | Some counts \<Rightarrow>
                (let idx = bisect_left counts num_active_loras 0 (length counts)
                 in Ok (if idx < length counts then counts ! idx else num_active_loras)))
         else (case lora cfg of None \<Rightarrow> Err AssertionError | Some l \<Rightarrow> Ok (max_loras l + 1)))
      else Ok num_active_loras)"

text \<open>\<open>dispatch\<close> takes \<open>valid_modes\<close> and \<open>invalid_modes\<close> as values: when a caller passes a plain set of
  valid modes, \<open>allowed_modes -= invalid_modes\<close> also shrinks the caller's set, which the model leaves out.\<close>

definition dispatch ::
  "runtime_mode list \<Rightarrow> (nat \<Rightarrow> batch_desc) \<Rightarrow> cg_config \<Rightarrow> dispatcher \<Rightarrow> nat \<Rightarrow> bool \<Rightarrow> bool \<Rightarrow> nat \<Rightarrow>
   runtime_mode list \<Rightarrow> runtime_mode list \<Rightarrow> nat option \<Rightarrow> (runtime_mode \<times> batch_desc) res" where
  "dispatch all_modes plain cfg d num_tokens uniform_decode has_lora num_active_loras valid_modes invalid_modes query_len =
     (let allowed0 = (if valid_modes \<noteq> [] then valid_modes else all_modes);
          allowed = filter (\<lambda>m. m \<notin> set invalid_modes) allowed0 in
      bindE (assertE (allowed \<noteq> [])) (\<lambda>_.
      if \<not> keys_initialized d \<or> is_none (cudagraph_mode d) \<or>
         (case max_cudagraph_capture_size cfg of None \<Rightarrow> True | Some m \<Rightarrow> num_tokens > m) \<or>
         set allowed \<subseteq> {MODE_NONE}
      then Ok (MODE_NONE, plain num_tokens)
      else
        bindE (effective_loras cfg d has_lora num_active_loras) (\<lambda>eff.
        let uniform = (uniform_decode \<and> separate_routine (cudagraph_mode d)) in
        bindE (create_padded_batch_descriptor cfg d num_tokens uniform has_lora eff (if uniform then query_len else None))
          (\<lambda>desc.
        if FULL \<in> set allowed \<and> desc \<in> set (keys_full d) then Ok (FULL, desc)
        else if PIECEWISE \<in> set allowed \<and> relax desc \<in> set (keys_piecewise d) then Ok (PIECEWISE, relax desc)
        else bindE (assertE (MODE_NONE \<in> set allowed)) (\<lambda>_. Ok (MODE_NONE, plain num_tokens))))))"

definition capture_order :: "batch_desc list \<Rightarrow> batch_desc list" where
  "capture_order descs = rev (sort_key (\<lambda>x. (desc_num_tokens x, desc_num_active_loras x)) (rev descs))"

definition get_capture_descs :: "dispatcher \<Rightarrow> (runtime_mode \<times> batch_desc list) list" where
  "get_capture_descs d =
     (if \<not> keys_initialized d \<or> is_none (cudagraph_mode d) then []
      else (if keys_piecewise d \<noteq> [] then [(PIECEWISE, capture_order (keys_piecewise d))] else []) @
           (if keys_full d \<noteq> [] then [(FULL, capture_order (keys_full d))] else []))"


section \<open>The padded size is the next capture size\<close>

text \<open>The first of an ascending list of sizes that is at least \<open>bs\<close>; \<open>m + 1\<close> if
  there is none.\<close>

definition first_ge :: "nat \<Rightarrow> nat list \<Rightarrow> nat \<Rightarrow> nat" where
  "first_ge m sizes bs = (case filter (\<lambda>s. s \<ge> bs) sizes of [] \<Rightarrow> m + 1 | s # _ \<Rightarrow> s)"

lemma first_ge_Cons: "first_ge m (s # ss) bs = (if bs \<le> s then s else first_ge m ss bs)"
  by (simp add: first_ge_def)

lemma fill_loop:
  "a \<le> b \<Longrightarrow> b \<le> length t \<Longrightarrow>
   \<exists>t'. foldE (\<lambda>bs t. list_set bs (v bs) t) [a..<b] t = Ok t' \<and> length t' = length t \<and>
     (\<forall>i < length t. t' ! i = (if a \<le> i \<and> i < b then v i else t ! i))"
proof (induction b rule: dec_induct)
  case (step n)
  then obtain t1 where "foldE (\<lambda>bs t. list_set bs (v bs) t) [a..<n] t = Ok t1" "length t1 = length t"
    "\<forall>i < length t. t1 ! i = (if a \<le> i \<and> i < n then v i else t ! i)" by auto
  then show ?case using step by (auto simp: foldE_append list_set_def nth_list_update less_Suc_eq)
qed auto

lemma fill_range_Ok:
  "a \<le> b \<Longrightarrow> b \<le> length t \<Longrightarrow>
   \<exists>t'. fill_range (b, a) t = Ok t' \<and> length t' = length t \<and>
     (\<forall>i < length t. t' ! i = (if a \<le> i \<and> i < b then (if i = a then a else b) else t ! i))"
  using fill_loop [of a b t "\<lambda>bs. if bs = a then a else b"] by (simp add: fill_range_def)

lemma table_loop:
  assumes "sorted_wrt (<) (a # ss)" and "\<forall>s \<in> set (a # ss). s \<le> m" and "length t = Suc m"
  shows "\<exists>t'. foldE fill_range (zip (ss @ [m + 1]) (a # ss)) t = Ok t' \<and> length t' = Suc m \<and>
    (\<forall>i \<le> m. t' ! i = (if i < a then t ! i else first_ge m (a # ss) i))"
  using assms
proof (induction ss arbitrary: a t)
  case Nil
  then show ?case using fill_range_Ok [of a "Suc m" t] by (auto simp: first_ge_def less_Suc_eq_le)
next
  case (Cons b ss)
  then obtain t1 where t1: "fill_range (b, a) t = Ok t1" "length t1 = Suc m"
    "\<forall>i < Suc m. t1 ! i = (if a \<le> i \<and> i < b then (if i = a then a else b) else t ! i)"
    using fill_range_Ok [of a b t] by auto
  obtain t2 where t2: "foldE fill_range (zip (ss @ [m + 1]) (b # ss)) t1 = Ok t2" "length t2 = Suc m"
    "\<forall>i \<le> m. t2 ! i = (if i < b then t1 ! i else first_ge m (b # ss) i)"
    using Cons.IH [of b t1] Cons.prems t1(2) by auto
  have "t2 ! i = (if i < a then t ! i else first_ge m (a # b # ss) i)" if "i \<le> m" for i
  proof (cases "i < b")
    case True
    then show ?thesis using t1(3) t2(3) that by (auto simp: first_ge_Cons)
  next
    case False
    then show ?thesis using t2(3) that Cons.prems(1) by (auto simp: first_ge_Cons)
  qed
  then show ?case using t1(1) t2(1,2) by simp
qed

text \<open>Capture sizes as the configuration provides them: ascending, positive, the last
  one the maximal size.\<close>

definition sizes_ok :: "nat \<Rightarrow> nat list \<Rightarrow> bool" where
  "sizes_ok m sizes \<longleftrightarrow> sorted_wrt (<) (0 # sizes) \<and> sizes \<noteq> [] \<and> last sizes = m"

lemma sizes_ok_le: "sizes_ok m sizes \<Longrightarrow> s \<in> set sizes \<Longrightarrow> 0 < s \<and> s \<le> m"
proof -
  assume a: "sizes_ok m sizes" "s \<in> set sizes"
  obtain xs where x: "sizes = xs @ [m]" using a(1) by (metis append_butlast_last_id sizes_ok_def)
  show ?thesis using a by (auto simp: sizes_ok_def x sorted_wrt_append)
qed

lemma padded_table_first_ge:
  assumes "sizes_ok m sizes"
  shows "\<exists>t. padded_table m sizes = Ok t \<and> length t = Suc m \<and> (\<forall>i \<le> m. t ! i = first_ge m (0 # sizes) i)"
proof -
  have "\<forall>s \<in> set (0 # sizes). s \<le> m" using sizes_ok_le [OF assms] by auto
  then show ?thesis using table_loop [of 0 sizes m "replicate (Suc m) 0"] assms
    by (simp add: sizes_ok_def padded_table_def)
qed

lemma first_ge_least:
  assumes "sorted_wrt (<) sizes" and "\<exists>s \<in> set sizes. bs \<le> s"
  shows "first_ge m sizes bs \<in> set sizes \<and> bs \<le> first_ge m sizes bs \<and>
    (\<forall>s \<in> set sizes. bs \<le> s \<longrightarrow> first_ge m sizes bs \<le> s)"
  using assms by (induction sizes) (auto simp: first_ge_Cons)

lemma first_ge_sizes:
  assumes "sizes_ok m sizes" "0 < n" "n \<le> m"
  shows "first_ge m (0 # sizes) n \<in> set sizes \<and> n \<le> first_ge m (0 # sizes) n \<and>
    (\<forall>s \<in> set sizes. n \<le> s \<longrightarrow> first_ge m (0 # sizes) n \<le> s)"
proof -
  have "\<exists>s \<in> set sizes. n \<le> s" using assms by (metis last_in_set sizes_ok_def)
  then show ?thesis using first_ge_least [of sizes n m] assms by (simp add: first_ge_Cons sizes_ok_def)
qed

lemma first_ge_self: "sizes_ok m sizes \<Longrightarrow> s \<in> set sizes \<Longrightarrow> first_ge m (0 # sizes) s = s"
  using first_ge_sizes [of m sizes s] sizes_ok_le [of m sizes s] by (auto intro: antisym)

text \<open>For ascending positive capture sizes that end in the maximal size, the padding table is computed without error and has an entry for every batch size up to the maximum: 0 stays 0, and every other size is padded to the smallest capture size that holds it, which leaves exactly the capture sizes unchanged.\<close>

theorem padded_table_smallest:
  assumes "sizes_ok m sizes"
  shows "\<exists>t. padded_table m sizes = Ok t \<and> length t = Suc m \<and> t ! 0 = 0 \<and>
    (\<forall>n. 0 < n \<and> n \<le> m \<longrightarrow> t ! n \<in> set sizes \<and> n \<le> t ! n \<and> (\<forall>s \<in> set sizes. n \<le> s \<longrightarrow> t ! n \<le> s) \<and>
       (t ! n = n \<longleftrightarrow> n \<in> set sizes))"
proof -
  obtain t where t: "padded_table m sizes = Ok t" "length t = Suc m" "\<forall>i \<le> m. t ! i = first_ge m (0 # sizes) i"
    using padded_table_first_ge [OF assms] by blast
  moreover have "t ! n = n \<longleftrightarrow> n \<in> set sizes" if "0 < n" "n \<le> m" for n
    using t(3) that first_ge_sizes [OF assms that] first_ge_self [OF assms, of n] by auto
  ultimately show ?thesis using first_ge_sizes [OF assms] by (auto simp: first_ge_Cons)
qed

lemma demo_sizes_ok: "sizes_ok 8 [1, 2, 8]"
  by (simp add: sizes_ok_def)

theorem padded_table_smallest_witness:
  "\<exists>t. padded_table 8 [1, 2, 8] = Ok t \<and> length t = Suc 8 \<and> t ! 0 = 0 \<and>
    (\<forall>n. 0 < n \<and> n \<le> 8 \<longrightarrow> t ! n \<in> set [1, 2, 8] \<and> n \<le> t ! n \<and> (\<forall>s \<in> set [1, 2, 8]. n \<le> s \<longrightarrow> t ! n \<le> s) \<and>
       (t ! n = n \<longleftrightarrow> n \<in> set [1, 2, 8]))"
  by (rule padded_table_smallest [OF demo_sizes_ok])


section \<open>The keys that are captured\<close>

text \<open>A configuration and mode for which keys can be built: valid capture sizes, no
  compile size that padding would change, and what the code relies on of the
  mode class (a mode whose mixed or decode mode is FULL has FULL).\<close>

definition setup_ok :: "cg_config \<Rightarrow> cg_mode \<Rightarrow> nat \<Rightarrow> nat list \<Rightarrow> bool" where
  "setup_ok cfg mode m sizes \<longleftrightarrow>
     sizes_ok m sizes \<and> max_cudagraph_capture_size cfg = Some m \<and> cudagraph_capture_sizes cfg = Some sizes \<and>
     (\<forall>s \<in> set (compile_sizes cfg). s \<in> set (0 # sizes) \<or> s > m) \<and> \<not> is_none mode \<and>
     (decode_mode mode = FULL \<or> mixed_mode mode = FULL \<longrightarrow> has_full mode)"

text \<open>A dispatcher whose padding table and mode are set.\<close>

definition table_ready :: "cg_mode \<Rightarrow> nat \<Rightarrow> nat list \<Rightarrow> nat \<Rightarrow> dispatcher \<Rightarrow> bool" where
  "table_ready mode m sizes q d \<longleftrightarrow> cudagraph_mode d = mode \<and> uniform_decode_query_len d = q \<and>
     (\<exists>t. bs_to_padded_graph_size d = Some t \<and> length t = Suc m \<and> (\<forall>i \<le> m. t ! i = first_ge m (0 # sizes) i))"

definition mixed_desc :: "cg_config \<Rightarrow> nat \<Rightarrow> nat \<Rightarrow> batch_desc" where
  "mixed_desc cfg bs n = \<lparr>desc_num_tokens = bs, desc_num_reqs = Some (min bs (max_num_seqs cfg)),
     desc_uniform = False, desc_has_lora = n > 0, desc_num_active_loras = n\<rparr>"

definition uniform_desc :: "cg_config \<Rightarrow> nat \<Rightarrow> nat \<Rightarrow> nat \<Rightarrow> batch_desc" where
  "uniform_desc cfg q bs n = \<lparr>desc_num_tokens = bs, desc_num_reqs = Some (min (bs div q) (max_num_seqs cfg)),
     desc_uniform = True, desc_has_lora = n > 0, desc_num_active_loras = n\<rparr>"

lemma compute_table_Ok:
  assumes "setup_ok cfg mode m sizes" and "cudagraph_mode d = mode"
  shows "\<exists>t. compute_bs_to_padded_graph_size cfg d = Ok (d\<lparr>bs_to_padded_graph_size := Some t\<rparr>) \<and>
    length t = Suc m \<and> (\<forall>i \<le> m. t ! i = first_ge m (0 # sizes) i)"
proof -
  have ok: "sizes_ok m sizes" using assms(1) by (simp add: setup_ok_def)
  obtain t where t: "padded_table m sizes = Ok t" "length t = Suc m" "\<forall>i \<le> m. t ! i = first_ge m (0 # sizes) i"
    using padded_table_first_ge [OF ok] by blast
  have "check_compile_size m t s u = Ok ()" if "s \<in> set (compile_sizes cfg)" for s u
  proof (cases "s \<le> m")
    case True
    then have "s \<in> set (0 # sizes)" using assms(1) that by (force simp: setup_ok_def)
    then have "first_ge m (0 # sizes) s = s" using first_ge_self [OF ok, of s] by (cases "s = 0") (auto simp: first_ge_Cons)
    then have "t ! s = s" using t(3) True by simp
    then show ?thesis using t(2) True by (simp add: check_compile_size_def)
  qed (simp add: check_compile_size_def)
  then have "foldE (check_compile_size m t) (compile_sizes cfg) () = Ok ()"
    by (subst foldE_Ok [where g = "\<lambda>_ _. ()"]) auto
  then show ?thesis using t assms
    by (intro exI [of _ t]) (simp add: compute_bs_to_padded_graph_size_def setup_ok_def)
qed

lemma create_mixed:
  assumes "table_ready mode m sizes q d" "sizes_ok m sizes" "bs \<in> set sizes"
  shows "create_padded_batch_descriptor cfg d bs False (n > 0) n None = Ok (mixed_desc cfg bs n)"
  using assms sizes_ok_le [OF assms(2,3)] first_ge_self [OF assms(2,3)]
  by (auto simp: create_padded_batch_descriptor_def table_ready_def pad_uniform_def mixed_desc_def Let_def)

lemma create_uniform:
  assumes "table_ready mode m sizes q d" "sizes_ok m sizes" "bs \<in> set sizes" "has_full mode"
    and "q' = (case oq of Some n \<Rightarrow> if n \<noteq> 0 then n else q | None \<Rightarrow> q)" "0 < q'" "bs mod q' = 0"
  shows "create_padded_batch_descriptor cfg d bs True (n > 0) n oq = Ok (uniform_desc cfg q' bs n)"
  using assms sizes_ok_le [OF assms(2,3)] first_ge_self [OF assms(2,3)]
  by (auto simp: create_padded_batch_descriptor_def table_ready_def pad_uniform_def uniform_desc_def Let_def)

lemma set_set_add [simp]: "set (set_add x xs) = insert x (set xs)"
  by (auto simp: set_add_def)

text \<open>Loops that only add keys.\<close>

lemma foldE_add_full:
  assumes "\<And>x K. x \<in> set xs \<Longrightarrow> f x (d\<lparr>keys_full := K\<rparr>) = Ok (d\<lparr>keys_full := set_add (g x) K\<rparr>)"
  shows "\<exists>K'. foldE f xs (d\<lparr>keys_full := K\<rparr>) = Ok (d\<lparr>keys_full := K'\<rparr>) \<and> set K' = set K \<union> g ` set xs"
  using assms
proof (induction xs arbitrary: K)
  case (Cons x xs)
  then show ?case using Cons.IH [of "set_add (g x) K"] by auto
qed auto

lemma foldE_add_piecewise:
  assumes "\<And>x K. x \<in> set xs \<Longrightarrow> f x (d\<lparr>keys_piecewise := K\<rparr>) = Ok (d\<lparr>keys_piecewise := set_add (g x) K\<rparr>)"
  shows "\<exists>K'. foldE f xs (d\<lparr>keys_piecewise := K\<rparr>) = Ok (d\<lparr>keys_piecewise := K'\<rparr>) \<and> set K' = set K \<union> g ` set xs"
  using assms
proof (induction xs arbitrary: K)
  case (Cons x xs)
  then show ?case using Cons.IH [of "set_add (g x) K"] by auto
qed auto

lemma table_ready_keys [simp]:
  "table_ready mode m sizes q (d\<lparr>keys_full := K\<rparr>) = table_ready mode m sizes q d"
  "table_ready mode m sizes q (d\<lparr>keys_piecewise := K\<rparr>) = table_ready mode m sizes q d"
  by (simp_all add: table_ready_def)

lemma add_mixed_keys:
  assumes "table_ready mode m sizes q d" "sizes_ok m sizes" "mixed_mode mode \<noteq> MODE_NONE"
  shows "\<exists>P F. foldE (add_mixed_key cfg) (List.product sizes cases) d =
      Ok (d\<lparr>keys_piecewise := P, keys_full := F\<rparr>) \<and>
    set P = set (keys_piecewise d) \<union> (if mixed_mode mode = PIECEWISE
      then {relax (mixed_desc cfg bs n) | bs n. bs \<in> set sizes \<and> n \<in> set cases} else {}) \<and>
    set F = set (keys_full d) \<union> (if mixed_mode mode = FULL
      then {mixed_desc cfg bs n | bs n. bs \<in> set sizes \<and> n \<in> set cases} else {})"
proof (cases "mixed_mode mode")
  case PIECEWISE
  have "add_mixed_key cfg x (d\<lparr>keys_piecewise := K\<rparr>) =
      Ok (d\<lparr>keys_piecewise := set_add ((\<lambda>(bs, n). relax (mixed_desc cfg bs n)) x) K\<rparr>)"
    if x: "x \<in> set (List.product sizes cases)" for x K
  proof -
    obtain bs n where b: "x = (bs, n)" "bs \<in> set sizes" using x by auto
    have "create_padded_batch_descriptor cfg (d\<lparr>keys_piecewise := K\<rparr>) bs False (n > 0) n None = Ok (mixed_desc cfg bs n)"
      using create_mixed [OF _ assms(2) b(2)] assms(1) by simp
    moreover have "cudagraph_mode d = mode" using assms(1) by (simp add: table_ready_def)
    ultimately show ?thesis using PIECEWISE by (simp add: b(1) add_mixed_key_def add_cudagraph_key_def)
  qed
  then obtain P where "foldE (add_mixed_key cfg) (List.product sizes cases) (d\<lparr>keys_piecewise := keys_piecewise d\<rparr>) =
      Ok (d\<lparr>keys_piecewise := P\<rparr>)"
    "set P = set (keys_piecewise d) \<union> (\<lambda>(bs, n). relax (mixed_desc cfg bs n)) ` set (List.product sizes cases)"
    using foldE_add_piecewise [where f = "add_mixed_key cfg" and g = "\<lambda>(bs, n). relax (mixed_desc cfg bs n)"] by blast
  then show ?thesis using PIECEWISE by (intro exI [of _ P] exI [of _ "keys_full d"]) (auto simp: image_iff)
next
  case FULL
  have "add_mixed_key cfg x (d\<lparr>keys_full := K\<rparr>) =
      Ok (d\<lparr>keys_full := set_add ((\<lambda>(bs, n). mixed_desc cfg bs n) x) K\<rparr>)"
    if x: "x \<in> set (List.product sizes cases)" for x K
  proof -
    obtain bs n where b: "x = (bs, n)" "bs \<in> set sizes" using x by auto
    have "create_padded_batch_descriptor cfg (d\<lparr>keys_full := K\<rparr>) bs False (n > 0) n None = Ok (mixed_desc cfg bs n)"
      using create_mixed [OF _ assms(2) b(2)] assms(1) by simp
    moreover have "cudagraph_mode d = mode" using assms(1) by (simp add: table_ready_def)
    ultimately show ?thesis using FULL by (simp add: b(1) add_mixed_key_def add_cudagraph_key_def)
  qed
  then obtain F where "foldE (add_mixed_key cfg) (List.product sizes cases) (d\<lparr>keys_full := keys_full d\<rparr>) =
      Ok (d\<lparr>keys_full := F\<rparr>)"
    "set F = set (keys_full d) \<union> (\<lambda>(bs, n). mixed_desc cfg bs n) ` set (List.product sizes cases)"
    using foldE_add_full [where f = "add_mixed_key cfg" and g = "\<lambda>(bs, n). mixed_desc cfg bs n"] by blast
  then show ?thesis using FULL by (intro exI [of _ "keys_piecewise d"] exI [of _ F]) (auto simp: image_iff)
qed (use assms(3) in simp)

lemma add_decode_keys:
  assumes "table_ready mode m sizes q d" "sizes_ok m sizes" "has_full mode" "set xs \<subseteq> set sizes"
    and "q' = (case oq of Some n \<Rightarrow> if n \<noteq> 0 then n else q | None \<Rightarrow> q)" "0 < q'" "\<forall>bs \<in> set xs. bs mod q' = 0"
  shows "\<exists>F. foldE (add_decode_key cfg oq) (List.product xs cases) d = Ok (d\<lparr>keys_full := F\<rparr>) \<and>
    set F = set (keys_full d) \<union> {uniform_desc cfg q' bs n | bs n. bs \<in> set xs \<and> n \<in> set cases}"
proof -
  have "add_decode_key cfg oq x (d\<lparr>keys_full := K\<rparr>) =
      Ok (d\<lparr>keys_full := set_add ((\<lambda>(bs, n). uniform_desc cfg q' bs n) x) K\<rparr>)"
    if x: "x \<in> set (List.product xs cases)" for x K
  proof -
    obtain bs n where b: "x = (bs, n)" "bs \<in> set sizes" "bs mod q' = 0" using x assms(4,7) by auto
    have "create_padded_batch_descriptor cfg (d\<lparr>keys_full := K\<rparr>) bs True (n > 0) n oq = Ok (uniform_desc cfg q' bs n)"
      using create_uniform [OF _ assms(2) b(2) assms(3,5,6) b(3)] assms(1) by simp
    then show ?thesis by (simp add: b(1) add_decode_key_def add_cudagraph_key_def)
  qed
  then obtain F where "foldE (add_decode_key cfg oq) (List.product xs cases) (d\<lparr>keys_full := keys_full d\<rparr>) =
      Ok (d\<lparr>keys_full := F\<rparr>)"
    "set F = set (keys_full d) \<union> (\<lambda>(bs, n). uniform_desc cfg q' bs n) ` set (List.product xs cases)"
    using foldE_add_full [where f = "add_decode_key cfg oq" and g = "\<lambda>(bs, n). uniform_desc cfg q' bs n"] by blast
  then show ?thesis by (intro exI [of _ F]) (auto simp: image_iff)
qed


text \<open>The uniform decode keys of one query length.\<close>

definition family :: "cg_config \<Rightarrow> nat list \<Rightarrow> nat list \<Rightarrow> nat \<Rightarrow> batch_desc set" where
  "family cfg sizes cases q = {uniform_desc cfg q bs n | bs n.
     (bs \<in> set sizes \<and> bs mod q = 0 \<and> bs \<le> q * max_num_seqs cfg) \<and> n \<in> set cases}"

lemma add_families:
  assumes "table_ready mode m sizes ql d" "sizes_ok m sizes" "has_full mode" "\<forall>q \<in> set qs. 0 < q"
  shows "\<exists>F. foldE (\<lambda>q. foldE (add_decode_key cfg (Some q))
      (List.product (filter (\<lambda>x. x mod q = 0 \<and> x div q \<le> max_num_seqs cfg) sizes) cases)) qs d =
      Ok (d\<lparr>keys_full := F\<rparr>) \<and> set F = set (keys_full d) \<union> (\<Union>q \<in> set qs. family cfg sizes cases q)"
  using assms(1,4)
proof (induction qs arbitrary: d)
  case Nil
  then show ?case by (intro exI [of _ "keys_full d"]) simp
next
  case (Cons q qs)
  let ?xs = "filter (\<lambda>x. x mod q = 0 \<and> x div q \<le> max_num_seqs cfg) sizes"
  have q: "0 < q" using Cons.prems(2) by simp
  have eq: "bs \<in> set ?xs \<longleftrightarrow> bs \<in> set sizes \<and> bs mod q = 0 \<and> bs \<le> q * max_num_seqs cfg" for bs
    using q by (auto simp: mod_eq_0_iff_dvd dvd_def)
  have fam: "{uniform_desc cfg q bs n | bs n. bs \<in> set ?xs \<and> n \<in> set cases} = family cfg sizes cases q"
    unfolding family_def eq ..
  obtain F1 where F1: "foldE (add_decode_key cfg (Some q)) (List.product ?xs cases) d = Ok (d\<lparr>keys_full := F1\<rparr>)"
    "set F1 = set (keys_full d) \<union> family cfg sizes cases q"
  proof -
    have "\<exists>F. foldE (add_decode_key cfg (Some q)) (List.product ?xs cases) d = Ok (d\<lparr>keys_full := F\<rparr>) \<and>
      set F = set (keys_full d) \<union> {uniform_desc cfg q bs n | bs n. bs \<in> set ?xs \<and> n \<in> set cases}"
      by (rule add_decode_keys [OF Cons.prems(1) assms(2,3)]) (use q in simp_all)
    then show ?thesis unfolding fam using that by blast
  qed
  then obtain F where "foldE (\<lambda>q. foldE (add_decode_key cfg (Some q))
      (List.product (filter (\<lambda>x. x mod q = 0 \<and> x div q \<le> max_num_seqs cfg) sizes) cases)) qs (d\<lparr>keys_full := F1\<rparr>) =
      Ok (d\<lparr>keys_full := F\<rparr>)" "set F = set F1 \<union> (\<Union>q \<in> set qs. family cfg sizes cases q)"
    using Cons.IH [of "d\<lparr>keys_full := F1\<rparr>"] Cons.prems by auto
  then show ?case using F1 by (intro exI [of _ F]) auto
qed

text \<open>Which query lengths have a family of graphs.\<close>

definition has_family :: "cg_config \<Rightarrow> nat \<Rightarrow> nat \<Rightarrow> bool" where
  "has_family cfg ql q \<longleftrightarrow> q = ql \<or> (0 < q \<and> q < ql \<and> full_q1 cfg)"

lemma add_decode_graphs_Ok:
  assumes d: "table_ready mode m sizes ql d" and "sizes_ok m sizes" "has_full mode" "0 < ql"
  shows "\<exists>F. add_decode_graphs cfg ql sizes cases d = Ok (d\<lparr>keys_full := F\<rparr>) \<and>
    set F = set (keys_full d) \<union> (\<Union>q \<in> {q. has_family cfg ql q}. family cfg sizes cases q)"
proof -
  let ?xs = "filter (\<lambda>x. x \<le> ql * max_num_seqs cfg \<and> x \<ge> ql \<and> x mod ql = 0) sizes"
  have "ql \<le> bs" if "bs \<in> set sizes" "bs mod ql = 0" for bs
    using sizes_ok_le [OF assms(2) that(1)] that(2) by (auto simp: mod_eq_0_iff_dvd dest: dvd_imp_le)
  then have eq: "bs \<in> set ?xs \<longleftrightarrow> bs \<in> set sizes \<and> bs mod ql = 0 \<and> bs \<le> ql * max_num_seqs cfg" for bs
    by auto
  have fam: "{uniform_desc cfg ql bs n | bs n. bs \<in> set ?xs \<and> n \<in> set cases} = family cfg sizes cases ql"
    unfolding family_def eq ..
  obtain F1 where F1: "foldE (add_decode_key cfg None) (List.product ?xs cases) d = Ok (d\<lparr>keys_full := F1\<rparr>)"
    "set F1 = set (keys_full d) \<union> family cfg sizes cases ql"
  proof -
    have "\<exists>F. foldE (add_decode_key cfg None) (List.product ?xs cases) d = Ok (d\<lparr>keys_full := F\<rparr>) \<and>
      set F = set (keys_full d) \<union> {uniform_desc cfg ql bs n | bs n. bs \<in> set ?xs \<and> n \<in> set cases}"
      by (rule add_decode_keys [OF d assms(2,3)]) (use assms(4) in simp_all)
    then show ?thesis unfolding fam using that by blast
  qed
  show ?thesis
  proof (cases "ql > 1 \<and> full_q1 cfg")
    case True
    obtain F where F: "foldE (\<lambda>q. foldE (add_decode_key cfg (Some q))
        (List.product (filter (\<lambda>x. x mod q = 0 \<and> x div q \<le> max_num_seqs cfg) sizes) cases)) [1..<ql]
        (d\<lparr>keys_full := F1\<rparr>) = Ok (d\<lparr>keys_full := F\<rparr>)"
      "set F = set F1 \<union> (\<Union>q \<in> set [1..<ql]. family cfg sizes cases q)"
      using add_families [of mode m sizes ql "d\<lparr>keys_full := F1\<rparr>" "[1..<ql]" cfg cases] assms by auto
    have "{q. has_family cfg ql q} = insert ql (set [1..<ql])" using True by (auto simp: has_family_def)
    then show ?thesis using F F1 True by (intro exI [of _ F]) (auto simp: add_decode_graphs_def)
  next
    case False
    then have "{q. has_family cfg ql q} = {ql}" using assms(4) by (auto simp: has_family_def)
    then show ?thesis using F1 False assms(4) by (intro exI [of _ F1]) (auto simp: add_decode_graphs_def)
  qed
qed

text \<open>What initialisation leaves behind.\<close>

definition keys_of :: "cg_config \<Rightarrow> cg_mode \<Rightarrow> nat list \<Rightarrow> nat list \<Rightarrow> nat \<Rightarrow> dispatcher \<Rightarrow> bool" where
  "keys_of cfg mode sizes cases ql d \<longleftrightarrow> keys_initialized d \<and>
     set (keys_piecewise d) = (if mixed_mode mode = PIECEWISE
       then {relax (mixed_desc cfg bs n) | bs n. bs \<in> set sizes \<and> n \<in> set cases} else {}) \<and>
     set (keys_full d) =
       (if mixed_mode mode = FULL then {mixed_desc cfg bs n | bs n. bs \<in> set sizes \<and> n \<in> set cases} else {}) \<union>
       (if decode_mode mode = FULL \<and> separate_routine mode
        then \<Union>q \<in> {q. has_family cfg ql q}. family cfg sizes cases q else {})"

lemma initialize_Ok:
  assumes ok: "setup_ok cfg mode m sizes" and "0 < ql" "uniform_decode_query_len d0 = ql"
    "keys_piecewise d0 = []" "keys_full d0 = []"
  shows "\<exists>d. initialize_cudagraph_keys cc cfg mode ql d0 = Ok d \<and> table_ready mode m sizes ql d \<and>
    specialize_lora_count d = specialize_lora_count d0 \<and>
    captured_lora_counts d = Some (filter (\<lambda>n. n \<noteq> 0) (get_lora_cases cc cfg d0)) \<and>
    keys_of cfg mode sizes (get_lora_cases cc cfg d0) ql d"
proof -
  have s: "sizes_ok m sizes" "\<not> is_none mode" "cudagraph_capture_sizes cfg = Some sizes"
    and full: "decode_mode mode = FULL \<Longrightarrow> has_full mode" using ok by (auto simp: setup_ok_def)
  let ?d1 = "d0\<lparr>cudagraph_mode := mode\<rparr>"
  obtain t where t: "compute_bs_to_padded_graph_size cfg ?d1 = Ok (?d1\<lparr>bs_to_padded_graph_size := Some t\<rparr>)"
    "length t = Suc m" "\<forall>i \<le> m. t ! i = first_ge m (0 # sizes) i"
    using compute_table_Ok [OF ok, of ?d1] by auto
  define cases where "cases = get_lora_cases cc cfg d0"
  have cases: "get_lora_cases cc cfg (?d1\<lparr>bs_to_padded_graph_size := Some t\<rparr>) = cases"
    by (simp add: cases_def get_lora_cases_def split: option.split)
  define d3 where "d3 = ?d1\<lparr>bs_to_padded_graph_size := Some t, captured_lora_counts := Some (filter (\<lambda>n. n \<noteq> 0) cases)\<rparr>"
  have d3: "table_ready mode m sizes ql d3" using t(2,3) assms(3) by (simp add: d3_def table_ready_def)
  obtain P F where PF: "(if mixed_mode mode \<noteq> MODE_NONE
      then foldE (add_mixed_key cfg) (List.product sizes cases) d3 else Ok d3) =
      Ok (d3\<lparr>keys_piecewise := P, keys_full := F\<rparr>)"
    "set P = (if mixed_mode mode = PIECEWISE
      then {relax (mixed_desc cfg bs n) | bs n. bs \<in> set sizes \<and> n \<in> set cases} else {})"
    "set F = (if mixed_mode mode = FULL
      then {mixed_desc cfg bs n | bs n. bs \<in> set sizes \<and> n \<in> set cases} else {})"
  proof (cases "mixed_mode mode = MODE_NONE")
    case True
    then show ?thesis using that [of "[]" "[]"] assms(4,5) by (simp add: d3_def)
  next
    case False
    then show ?thesis using that add_mixed_keys [OF d3 s(1) False, of cfg cases] assms(4,5) by (auto simp: d3_def)
  qed
  let ?d4 = "d3\<lparr>keys_piecewise := P, keys_full := F\<rparr>"
  have d4: "table_ready mode m sizes ql ?d4" using d3 by simp
  define G where "G = (if decode_mode mode = FULL \<and> separate_routine mode
    then \<Union>q \<in> {q. has_family cfg ql q}. family cfg sizes cases q else {})"
  obtain F' where F': "(if decode_mode mode = FULL \<and> separate_routine mode
      then add_decode_graphs cfg ql sizes cases ?d4 else Ok ?d4) = Ok (?d4\<lparr>keys_full := F'\<rparr>)" "set F' = set F \<union> G"
  proof (cases "decode_mode mode = FULL \<and> separate_routine mode")
    case True
    then show ?thesis using that add_decode_graphs_Ok [OF d4 s(1) full assms(2), of cfg cases] by (auto simp: G_def)
  next
    case False
    show ?thesis by (rule that [of F]) (simp_all only: if_not_P [OF False] G_def, simp_all)
  qed
  have "initialize_cudagraph_keys cc cfg mode ql d0 = Ok (?d4\<lparr>keys_full := F', keys_initialized := True\<rparr>)"
    unfolding initialize_cudagraph_keys_def Let_def t(1) bindE_simps cases d3_def [symmetric] s(3) or_default_simps
      PF(1) F'(1) using s(2) by simp
  moreover have "table_ready mode m sizes ql (?d4\<lparr>keys_full := F', keys_initialized := True\<rparr>)"
    using d3 by (simp add: table_ready_def)
  moreover have "keys_of cfg mode sizes cases ql (?d4\<lparr>keys_full := F', keys_initialized := True\<rparr>)"
    by (simp add: keys_of_def PF(2,3) F'(2) G_def)
  ultimately show ?thesis
    by (intro exI [of _ "?d4\<lparr>keys_full := F', keys_initialized := True\<rparr>"]) (simp add: d3_def cases_def [symmetric])
qed


section \<open>Which graph a batch gets\<close>

text \<open>A dispatcher after \<open>initialize_cudagraph_keys\<close> on a fresh one, without LoRA.\<close>

definition initialized :: "(nat \<Rightarrow> bool \<Rightarrow> nat list) \<Rightarrow> cg_config \<Rightarrow> cg_mode \<Rightarrow> dispatcher \<Rightarrow> bool" where
  "initialized cc cfg mode d \<longleftrightarrow> (\<exists>d0. dispatcher_init cfg = Ok d0 \<and>
     initialize_cudagraph_keys cc cfg mode (1 + num_speculative_tokens cfg) d0 = Ok d)"

abbreviation query_len :: "cg_config \<Rightarrow> nat" where
  "query_len cfg \<equiv> 1 + num_speculative_tokens cfg"

lemma initialized_facts:
  assumes "initialized cc cfg mode d" "setup_ok cfg mode m sizes" "lora cfg = None"
  shows "table_ready mode m sizes (query_len cfg) d" "keys_of cfg mode sizes [0] (query_len cfg) d"
proof -
  obtain d0 where d0: "dispatcher_init cfg = Ok d0" "initialize_cudagraph_keys cc cfg mode (query_len cfg) d0 = Ok d"
    using assms(1) by (auto simp: initialized_def)
  then have "uniform_decode_query_len d0 = query_len cfg" "keys_piecewise d0 = []" "keys_full d0 = []"
    by (auto simp: dispatcher_init_def bindE_eq_Inr_iff)
  moreover have "get_lora_cases cc cfg d0 = [0]" using assms(3) by (simp add: get_lora_cases_def)
  ultimately show "table_ready mode m sizes (query_len cfg) d" "keys_of cfg mode sizes [0] (query_len cfg) d"
    using initialize_Ok [OF assms(2), of "query_len cfg" d0 cc] d0(2) by auto
qed

text \<open>The size chosen for a batch: the smallest capture size, or for a uniform batch of
  query length \<open>q\<close> the smallest multiple of \<open>q\<close> among them if there is one.\<close>

definition uniform_size :: "nat list \<Rightarrow> nat \<Rightarrow> nat \<Rightarrow> nat option" where
  "uniform_size sizes q n = (case filter (\<lambda>s. n \<le> s \<and> s mod q = 0) sizes of [] \<Rightarrow> None | s # _ \<Rightarrow> Some s)"

lemma uniform_size_first_ge:
  assumes "sorted_wrt (<) sizes" "first_ge m sizes n \<in> set sizes" "n \<le> first_ge m sizes n" "first_ge m sizes n mod q = 0"
  shows "uniform_size sizes q n = Some (first_ge m sizes n)"
  using assms
proof (induction sizes)
  case (Cons s ss)
  show ?case
  proof (cases "n \<le> s")
    case True
    then show ?thesis using Cons.prems by (simp add: first_ge_Cons uniform_size_def)
  next
    case False
    then have "first_ge m (s # ss) n = first_ge m ss n" by (simp add: first_ge_Cons)
    moreover have "first_ge m (s # ss) n \<noteq> s" using False Cons.prems(3) by auto
    ultimately show ?thesis using Cons False by (simp add: uniform_size_def)
  qed
qed simp

lemma uniform_size_Some:
  assumes "uniform_size sizes q n = Some s"
  shows "s \<in> set sizes" "n \<le> s" "s mod q = 0"
proof -
  have "s \<in> set (filter (\<lambda>s. n \<le> s \<and> s mod q = 0) sizes)"
    using assms by (cases "filter (\<lambda>s. n \<le> s \<and> s mod q = 0) sizes") (auto simp: uniform_size_def simp del: set_filter)
  then show "s \<in> set sizes" "n \<le> s" "s mod q = 0" by auto
qed

lemma create_dispatch:
  assumes "table_ready mode m sizes ql d" "setup_ok cfg mode m sizes" "0 < n" "n \<le> m" "0 < ql"
    and q: "q = (case oq of Some k \<Rightarrow> if k \<noteq> 0 then k else ql | None \<Rightarrow> ql)"
  shows "create_padded_batch_descriptor cfg d n u h k oq =
    Ok (if u \<and> has_full mode then
          (case uniform_size sizes q n of
             Some s \<Rightarrow> \<lparr>desc_num_tokens = s, desc_num_reqs = Some (min (s div q) (max_num_seqs cfg)),
                        desc_uniform = True, desc_has_lora = h, desc_num_active_loras = k\<rparr>
           | None \<Rightarrow> \<lparr>desc_num_tokens = first_ge m (0 # sizes) n,
                      desc_num_reqs = Some (min (first_ge m (0 # sizes) n) (max_num_seqs cfg)),
                      desc_uniform = False, desc_has_lora = h, desc_num_active_loras = k\<rparr>)
        else \<lparr>desc_num_tokens = first_ge m (0 # sizes) n,
              desc_num_reqs = Some (min (first_ge m (0 # sizes) n) (max_num_seqs cfg)),
              desc_uniform = False, desc_has_lora = h, desc_num_active_loras = k\<rparr>)"
proof -
  have ok: "sizes_ok m sizes" "cudagraph_capture_sizes cfg = Some sizes" using assms(2) by (simp_all add: setup_ok_def)
  let ?p = "first_ge m (0 # sizes) n"
  have p: "?p \<in> set sizes" "n \<le> ?p" "?p = first_ge m sizes n"
    using first_ge_sizes [OF ok(1) assms(3,4)] assms(3) by (simp_all add: first_ge_Cons)
  have q0: "0 < q" using q assms(5) by (auto split: option.splits)
  obtain t where t: "bs_to_padded_graph_size d = Some t" "length t = Suc m" "t ! n = ?p"
    "cudagraph_mode d = mode" "uniform_decode_query_len d = ql"
    using assms(1,4) by (auto simp: table_ready_def)
  have us: "uniform_size sizes q n = Some ?p" if "?p mod q = 0"
    using uniform_size_first_ge [of sizes m n q] ok(1) p that by (simp add: sizes_ok_def)
  have "pad_uniform cfg (u \<and> has_full mode) n q ?p =
      Ok (if u \<and> has_full mode then (case uniform_size sizes q n of Some s \<Rightarrow> (s, True) | None \<Rightarrow> (?p, False))
          else (?p, False))"
  proof (cases "u \<and> has_full mode \<and> ?p mod q \<noteq> 0")
    case True
    then show ?thesis using q0 ok(2)
      by (cases "filter (\<lambda>s. n \<le> s \<and> s mod q = 0) sizes") (auto simp: pad_uniform_def uniform_size_def)
  next
    case False
    then show ?thesis using us q0 by (auto simp: pad_uniform_def)
  qed
  moreover have "s mod q = 0" if "uniform_size sizes q n = Some s" for s using uniform_size_Some(3) [OF that] .
  ultimately show ?thesis using t assms(4) q
    by (auto simp: create_padded_batch_descriptor_def Let_def split: option.splits)
qed


text \<open>The modes a call allows.\<close>

definition allowed_modes :: "runtime_mode list \<Rightarrow> runtime_mode list \<Rightarrow> runtime_mode list \<Rightarrow> runtime_mode set" where
  "allowed_modes all_modes valid_modes invalid_modes =
     set (if valid_modes \<noteq> [] then valid_modes else all_modes) - set invalid_modes"

text \<open>The descriptor a batch without LoRA is looked up under.\<close>

definition lookup_desc :: "cg_config \<Rightarrow> cg_mode \<Rightarrow> nat \<Rightarrow> nat list \<Rightarrow> nat \<Rightarrow> bool \<Rightarrow> nat \<Rightarrow> batch_desc" where
  "lookup_desc cfg mode m sizes n uniform q =
     (if uniform \<and> separate_routine mode \<and> has_full mode then
        (case uniform_size sizes q n of
           Some s \<Rightarrow> uniform_desc cfg q s 0
         | None \<Rightarrow> mixed_desc cfg (first_ge m (0 # sizes) n) 0)
      else mixed_desc cfg (first_ge m (0 # sizes) n) 0)"

lemma dispatch_eq:
  assumes "initialized cc cfg mode d" "setup_ok cfg mode m sizes" "lora cfg = None" "0 < n" "n \<le> m"
    and "q = (case oq of Some k \<Rightarrow> if k \<noteq> 0 then k else query_len cfg | None \<Rightarrow> query_len cfg)"
    and allowed: "\<not> allowed_modes all_modes vm im \<subseteq> {MODE_NONE}"
  shows "dispatch all_modes plain cfg d n uniform False 0 vm im oq =
    (let desc = lookup_desc cfg mode m sizes n uniform q in
     if FULL \<in> allowed_modes all_modes vm im \<and> desc \<in> set (keys_full d) then Ok (FULL, desc)
     else if PIECEWISE \<in> allowed_modes all_modes vm im \<and> relax desc \<in> set (keys_piecewise d) then Ok (PIECEWISE, relax desc)
     else bindE (assertE (MODE_NONE \<in> allowed_modes all_modes vm im)) (\<lambda>_. Ok (MODE_NONE, plain n)))"
proof -
  note facts = initialized_facts [OF assms(1-3)]
  have d: "keys_initialized d" "cudagraph_mode d = mode" "\<not> is_none mode" "max_cudagraph_capture_size cfg = Some m"
    using facts assms(2) by (simp_all add: keys_of_def table_ready_def setup_ok_def)
  let ?u = "uniform \<and> separate_routine mode"
  have "create_padded_batch_descriptor cfg d n ?u False 0 (if ?u then oq else None) =
      Ok (lookup_desc cfg mode m sizes n uniform q)"
    using create_dispatch [OF facts(1) assms(2,4,5), of q "if ?u then oq else None" ?u False 0] assms(6)
      create_dispatch [OF facts(1) assms(2,4,5), of "query_len cfg" None False False 0]
    by (cases "uniform \<and> separate_routine mode")
      (auto simp: lookup_desc_def uniform_desc_def mixed_desc_def split: option.splits)
  moreover have sets: "set (filter (\<lambda>m. m \<notin> set im) (if vm \<noteq> [] then vm else all_modes)) = allowed_modes all_modes vm im"
    by (auto simp: allowed_modes_def)
  moreover have "filter (\<lambda>m. m \<notin> set im) (if vm \<noteq> [] then vm else all_modes) \<noteq> []"
  proof
    assume "filter (\<lambda>m. m \<notin> set im) (if vm \<noteq> [] then vm else all_modes) = []"
    then show False using sets allowed by (metis empty_set empty_subsetI)
  qed
  ultimately show ?thesis using d assms(5) allowed
    by (simp add: dispatch_def effective_loras_def Let_def)
qed

lemma lookup_desc_size:
  assumes "setup_ok cfg mode m sizes" "0 < n" "n \<le> m"
  shows "desc_num_tokens (lookup_desc cfg mode m sizes n uniform q) \<in> set sizes \<and>
    n \<le> desc_num_tokens (lookup_desc cfg mode m sizes n uniform q)"
proof -
  have "sizes_ok m sizes" using assms(1) by (simp add: setup_ok_def)
  then show ?thesis using first_ge_sizes [OF _ assms(2,3), of sizes] uniform_size_Some [of sizes q n]
    by (auto simp: lookup_desc_def mixed_desc_def uniform_desc_def split: option.split)
qed

text \<open>C11: A batch is only ever sent to a graph that was captured, of an allowed mode, and large enough for it: when the dispatcher of a model without LoRA answers FULL or PIECEWISE for a batch within the capture range, the returned descriptor is one of the keys of that mode, the mode is allowed, and its token count is a capture size that holds the batch.\<close>

theorem dispatch_sound:
  assumes "initialized cc cfg mode d" "setup_ok cfg mode m sizes" "lora cfg = None" "0 < n" "n \<le> m"
    and "dispatch all_modes plain cfg d n uniform False 0 vm im oq = Ok (rt, desc)" "rt \<noteq> MODE_NONE"
  shows "rt \<in> allowed_modes all_modes vm im \<and>
    desc \<in> set (if rt = FULL then keys_full d else keys_piecewise d) \<and>
    desc_num_tokens desc \<in> set sizes \<and> n \<le> desc_num_tokens desc"
proof -
  define q where "q = (case oq of Some k \<Rightarrow> if k \<noteq> 0 then k else query_len cfg | None \<Rightarrow> query_len cfg)"
  have "set (filter (\<lambda>m. m \<notin> set im) (if vm \<noteq> [] then vm else all_modes)) = allowed_modes all_modes vm im"
    by (auto simp: allowed_modes_def)
  then have "\<not> allowed_modes all_modes vm im \<subseteq> {MODE_NONE}"
    using assms(6,7) by (auto simp: dispatch_def Let_def bindE_eq_Inr_iff)
  note eq = dispatch_eq [OF assms(1-5) q_def this, of plain uniform, unfolded assms(6), symmetric]
  show ?thesis using eq assms(7) lookup_desc_size [OF assms(2,4,5), of uniform q]
    by (auto simp: Let_def bindE_eq_Inr_iff relax_def split: if_splits)
qed

text \<open>C17: Graphs are used where they exist.  With a piecewise mixed mode, every batch of at most the maximal size
  runs on some graph if piecewise graphs are allowed.  A uniform decode batch of a query length \<open>q\<close> with its own
  graph family is padded to \<open>s\<close>, the smallest capture size that holds it and is a multiple of \<open>q\<close>; if
  \<open>s \<le> q * max_num_seqs\<close>, it runs on the FULL graph of exactly that query length and size.  (Without that bound it
  may run on a graph of another query length.)\<close>

theorem dispatch_complete:
  assumes "initialized cc cfg mode d" "setup_ok cfg mode m sizes" "lora cfg = None" "0 < n" "n \<le> m"
    and "q = (case oq of Some k \<Rightarrow> if k \<noteq> 0 then k else query_len cfg | None \<Rightarrow> query_len cfg)"
  shows "(mixed_mode mode = PIECEWISE \<and> PIECEWISE \<in> allowed_modes all_modes vm im \<longrightarrow>
      (\<exists>rt desc. dispatch all_modes plain cfg d n uniform False 0 vm im oq = Ok (rt, desc) \<and> rt \<noteq> MODE_NONE)) \<and>
    (decode_mode mode = FULL \<and> separate_routine mode \<and> FULL \<in> allowed_modes all_modes vm im \<and>
     has_family cfg (query_len cfg) q \<and> uniform_size sizes q n = Some s \<and> s \<le> q * max_num_seqs cfg \<longrightarrow>
      dispatch all_modes plain cfg d n True False 0 vm im oq = Ok (FULL, uniform_desc cfg q s 0) \<and>
      desc_num_reqs (uniform_desc cfg q s 0) = Some (s div q) \<and> n \<le> s)"
proof -
  have keys: "keys_of cfg mode sizes [0] (query_len cfg) d" using initialized_facts(2) [OF assms(1-3)] .
  have full: "decode_mode mode = FULL \<Longrightarrow> has_full mode" using assms(2) by (simp add: setup_ok_def)
  have "\<exists>rt desc. dispatch all_modes plain cfg d n uniform False 0 vm im oq = Ok (rt, desc) \<and> rt \<noteq> MODE_NONE"
    if a: "mixed_mode mode = PIECEWISE" "PIECEWISE \<in> allowed_modes all_modes vm im"
  proof -
    let ?l = "lookup_desc cfg mode m sizes n uniform q"
    have "relax ?l = relax (mixed_desc cfg (desc_num_tokens ?l) 0)"
      by (simp add: lookup_desc_def relax_def mixed_desc_def uniform_desc_def split: option.split)
    moreover have "desc_num_tokens ?l \<in> set sizes" using lookup_desc_size [OF assms(2,4,5)] by blast
    ultimately have "relax ?l \<in> set (keys_piecewise d)" using keys a(1) by (auto simp: keys_of_def)
    moreover have "\<not> allowed_modes all_modes vm im \<subseteq> {MODE_NONE}" using a(2) by auto
    ultimately show ?thesis using dispatch_eq [OF assms(1-6), of all_modes vm im plain uniform] a(2)
      by (simp add: Let_def)
  qed
  moreover have "dispatch all_modes plain cfg d n True False 0 vm im oq = Ok (FULL, uniform_desc cfg q s 0) \<and>
      desc_num_reqs (uniform_desc cfg q s 0) = Some (s div q) \<and> n \<le> s"
    if a: "decode_mode mode = FULL" "separate_routine mode" "FULL \<in> allowed_modes all_modes vm im"
      "has_family cfg (query_len cfg) q" "uniform_size sizes q n = Some s" "s \<le> q * max_num_seqs cfg"
  proof -
    have "lookup_desc cfg mode m sizes n True q = uniform_desc cfg q s 0"
      using a full by (simp add: lookup_desc_def)
    moreover have "uniform_desc cfg q s 0 \<in> family cfg sizes [0] q"
      using uniform_size_Some [OF a(5)] a(6) by (auto simp: family_def)
    then have "uniform_desc cfg q s 0 \<in> set (keys_full d)" using keys a(1,2,4) by (auto simp: keys_of_def)
    moreover have "\<not> allowed_modes all_modes vm im \<subseteq> {MODE_NONE}" using a(3) by auto
    moreover have "0 < q" using a(4) by (auto simp: has_family_def)
    then have "s div q \<le> max_num_seqs cfg" using div_le_mono [OF a(6), of q] by simp
    ultimately show ?thesis using dispatch_eq [OF assms(1-6), of all_modes vm im plain True] a(3)
        uniform_size_Some [OF a(5)]
      by (simp add: Let_def uniform_desc_def)
  qed
  ultimately show ?thesis by blast
qed

text \<open>A configuration with sparse capture sizes and one draft token.\<close>

definition demo_mode :: cg_mode where
  "demo_mode = \<lparr>is_none = False, has_full = True, mixed_mode = PIECEWISE, decode_mode = FULL,
     separate_routine = True, requires_piecewise_compilation = True\<rparr>"

definition demo_cfg :: cg_config where
  "demo_cfg = \<lparr>max_cudagraph_capture_size = Some 8, cudagraph_capture_sizes = Some [1, 2, 8], compile_sizes = [],
     cudagraph_specialize_lora = False, config_mode = demo_mode, attention_compiled_piecewise = True,
     breakable_cudagraph_enabled = False, max_num_seqs = 4, num_speculative_tokens = 1, lora = None, full_q1 = True\<rparr>"

definition demo_dispatcher :: dispatcher where
  "demo_dispatcher = projr (initialize_cudagraph_keys (\<lambda>_ _. []) demo_cfg demo_mode 2 (projr (dispatcher_init demo_cfg)))"

definition demo_plain :: "nat \<Rightarrow> batch_desc" where
  "demo_plain n = \<lparr>desc_num_tokens = n, desc_num_reqs = None, desc_uniform = False, desc_has_lora = False,
     desc_num_active_loras = 0\<rparr>"

lemma demo_setup: "setup_ok demo_cfg demo_mode 8 [1, 2, 8]" "lora demo_cfg = None"
  by (simp_all add: setup_ok_def demo_cfg_def demo_mode_def sizes_ok_def)

lemma demo_initialized: "initialized (\<lambda>_ _. []) demo_cfg demo_mode demo_dispatcher"
proof -
  obtain d0 where d0: "dispatcher_init demo_cfg = Ok d0" "uniform_decode_query_len d0 = 2" "keys_piecewise d0 = []" "keys_full d0 = []"
    by (simp add: dispatcher_init_def demo_cfg_def)
  obtain d where "initialize_cudagraph_keys (\<lambda>_ _. []) demo_cfg demo_mode 2 d0 = Ok d"
    using initialize_Ok [OF demo_setup(1) _ d0(2-4)] by force
  moreover have "1 + num_speculative_tokens demo_cfg = 2" by (simp add: demo_cfg_def)
  ultimately show ?thesis using d0(1) unfolding initialized_def demo_dispatcher_def by (metis sum.sel(2))
qed

theorem dispatch_sound_witness:
  "dispatch [MODE_NONE, PIECEWISE, FULL] demo_plain demo_cfg demo_dispatcher 2 True False 0 [] [] None =
     Ok (FULL, uniform_desc demo_cfg 2 2 0) \<and>
   FULL \<in> allowed_modes [MODE_NONE, PIECEWISE, FULL] [] [] \<and>
   uniform_desc demo_cfg 2 2 0 \<in> set (if FULL = FULL then keys_full demo_dispatcher else keys_piecewise demo_dispatcher) \<and>
   desc_num_tokens (uniform_desc demo_cfg 2 2 0) \<in> set [1, 2, 8] \<and> 2 \<le> desc_num_tokens (uniform_desc demo_cfg 2 2 0)"
proof -
  have "dispatch [MODE_NONE, PIECEWISE, FULL] demo_plain demo_cfg demo_dispatcher 2 True False 0 [] [] None =
     Ok (FULL, uniform_desc demo_cfg 2 2 0)" by code_simp
  then show ?thesis
    using dispatch_sound [OF demo_initialized demo_setup, of 2 "[MODE_NONE, PIECEWISE, FULL]" demo_plain True "[]" "[]" None FULL]
    by auto
qed

theorem dispatch_complete_witness:
  "(\<exists>rt desc. dispatch [MODE_NONE, PIECEWISE, FULL] demo_plain demo_cfg demo_dispatcher 5 False False 0 [] [] None = Ok (rt, desc) \<and>
      rt \<noteq> MODE_NONE) \<and>
   dispatch [MODE_NONE, PIECEWISE, FULL] demo_plain demo_cfg demo_dispatcher 5 True False 0 [] [] None =
      Ok (FULL, uniform_desc demo_cfg 2 8 0)"
  using dispatch_complete [OF demo_initialized demo_setup, of 5 2 None "[MODE_NONE, PIECEWISE, FULL]" "[]" "[]" demo_plain False 8]
  by (simp add: demo_cfg_def demo_mode_def allowed_modes_def has_family_def uniform_size_def)

text \<open>C35: The graph families of different query lengths are not always kept apart: a descriptor records tokens and
  requests but not the query length, and its request count is capped.  Take a uniform batch of a query length
  \<open>q\<close> below that of the configuration, and suppose that the smallest capture size that is a multiple of \<open>q\<close> and holds
  the batch is the largest size of the configuration's own family, \<open>query_len\<close> tokens for each of
  \<open>max_num_seqs\<close> requests.  Then the batch is sent to that graph, which was captured for \<open>query_len\<close> tokens per request
  and is not one of the graphs of query length \<open>q\<close>.\<close>

theorem dispatch_confuses_families:
  assumes "initialized cc cfg mode d" "setup_ok cfg mode m sizes" "lora cfg = None" "0 < n" "n \<le> m"
    and "decode_mode mode = FULL" "separate_routine mode" "FULL \<in> allowed_modes all_modes vm im"
    and "0 < q" "q < query_len cfg" "0 < max_num_seqs cfg"
    and "s = query_len cfg * max_num_seqs cfg" "uniform_size sizes q n = Some s"
  shows "dispatch all_modes plain cfg d n True False 0 vm im (Some q) = Ok (FULL, uniform_desc cfg (query_len cfg) s 0)
    \<and> desc_num_reqs (uniform_desc cfg (query_len cfg) s 0) = Some (max_num_seqs cfg)
    \<and> desc_num_tokens (uniform_desc cfg (query_len cfg) s 0) = query_len cfg * max_num_seqs cfg
    \<and> uniform_desc cfg (query_len cfg) s 0 \<in> family cfg sizes [0] (query_len cfg)
    \<and> uniform_desc cfg (query_len cfg) s 0 \<notin> family cfg sizes [0] q"
proof -
  have keys: "keys_of cfg mode sizes [0] (query_len cfg) d" using initialized_facts(2) [OF assms(1-3)] .
  have full: "has_full mode" using assms(2,6) by (simp add: setup_ok_def)
  have lt: "q * max_num_seqs cfg < s" unfolding assms(12) by (rule mult_less_mono1 [OF assms(10,11)])
  have "s div query_len cfg = max_num_seqs cfg"
    unfolding assms(12) by (rule nonzero_mult_div_cancel_left) simp
  moreover have "max_num_seqs cfg \<le> s div q"
    using lt assms(9) by (simp add: less_eq_div_iff_mult_less_eq mult.commute)
  ultimately have same: "uniform_desc cfg q s 0 = uniform_desc cfg (query_len cfg) s 0"
    by (simp add: uniform_desc_def)
  have in_ql: "uniform_desc cfg (query_len cfg) s 0 \<in> family cfg sizes [0] (query_len cfg)"
  proof -
    have "s mod query_len cfg = 0" unfolding assms(12) by (rule mod_mult_self1_is_0)
    then show ?thesis
      using uniform_size_Some(1) [OF assms(13)] eq_refl [OF assms(12)] unfolding family_def
      by (intro CollectI exI [of _ s] exI [of _ "0 :: nat"] conjI refl) (assumption | simp only: list.set insert_iff simp_thms)+
  qed
  then have "uniform_desc cfg (query_len cfg) s 0 \<in> set (keys_full d)"
    using keys assms(6,7) by (auto simp: keys_of_def has_family_def)
  moreover have "lookup_desc cfg mode m sizes n True q = uniform_desc cfg (query_len cfg) s 0"
    using assms(7,13) full same by (simp add: lookup_desc_def)
  moreover have "\<not> allowed_modes all_modes vm im \<subseteq> {MODE_NONE}" using assms(8) by auto
  ultimately have run: "dispatch all_modes plain cfg d n True False 0 vm im (Some q) = Ok (FULL, uniform_desc cfg (query_len cfg) s 0)"
    using dispatch_eq [OF assms(1-5), of q "Some q" all_modes vm im plain True] assms(8,9) by (simp add: Let_def)
  have "uniform_desc cfg (query_len cfg) s 0 \<notin> family cfg sizes [0] q"
    using lt by (auto simp: family_def uniform_desc_def)
  then show ?thesis using run in_ql \<open>s div query_len cfg = _\<close> assms(12) by (simp add: uniform_desc_def)
qed

text \<open>Capture sizes 1, 2 and 8, four sequences, one draft token: three requests with one token each run on the graph
  of four requests with two tokens each.\<close>

theorem dispatch_confuses_families_witness:
  "query_len demo_cfg = 2 \<and>
   dispatch [MODE_NONE, PIECEWISE, FULL] demo_plain demo_cfg demo_dispatcher 3 True False 0 [] [] (Some 1) =
     Ok (FULL, uniform_desc demo_cfg (query_len demo_cfg) 8 0)"
proof (rule conjI)
  have sel: "num_speculative_tokens demo_cfg = 1" "max_num_seqs demo_cfg = 4" by (simp_all add: demo_cfg_def)
  then show "query_len demo_cfg = 2" by simp
  have size: "uniform_size [1, 2, 8] 1 3 = Some 8" by (simp add: uniform_size_def)
  show "dispatch [MODE_NONE, PIECEWISE, FULL] demo_plain demo_cfg demo_dispatcher 3 True False 0 [] [] (Some 1) =
     Ok (FULL, uniform_desc demo_cfg (query_len demo_cfg) 8 0)"
    by (rule conjunct1 [OF dispatch_confuses_families [OF demo_initialized demo_setup _ _ _ _ _ _ _ _ _ size]])
      (simp_all add: sel demo_mode_def allowed_modes_def)
qed

end
