(* ===== verification/Scheduler.thy ===== *)
theory Scheduler
  imports Prelude "HOL-Library.Multiset" "HOL-Library.List_Lexorder" "HOL-Library.Char_ord"
begin

text \<open>
  The request bookkeeping of the scheduler (\<open>overlay/vllm/v1/core/sched/scheduler.py\<close>,
  class \<open>Scheduler\<close>): the waiting, skipped and running queues, the life of a
  request from \<open>add_request\<close> to \<open>_free_blocks\<close>, preemption, streaming sessions
  and the deferred return of KV blocks to the pool.

  A \<open>Request\<close> is a mutable object shared by the dictionary \<open>requests\<close>, the queues
  and the sets.  Objects live in a store \<open>objs\<close> under their \<open>request_id\<close>; the
  dictionary, the queues and the sets hold ids.  The dictionary maps an id to the
  object with that id, so it is represented by its keys in insertion order.

  The KV cache manager, the request queues, the encoder cache manager, the
  connectors, the grammar manager and \<open>check_stop\<close> are other packages: they are the
  fields of the record \<open>env\<close>, acting on one external state of type \<open>'x\<close>.
\<close>

named_theorems sched_defs \<open>unfolding rules of the scheduler's operations\<close>

subsection \<open>Requests\<close>

type_synonym rid = string
type_synonym block = int

text \<open>\<open>FINISHED_OTHER\<close> stands for the finished statuses that \<open>check_stop\<close> may set and
  the scheduler does not name.\<close>

datatype request_status =
    WAITING
  | WAITING_FOR_STRUCTURED_OUTPUT_GRAMMAR
  | WAITING_FOR_REMOTE_KVS
  | WAITING_FOR_STREAMING_REQ
  | RUNNING
  | PREEMPTED
  | FINISHED_STOPPED
  | FINISHED_ABORTED
  | FINISHED_ERROR
  | FINISHED_OTHER nat

fun is_finished :: "request_status \<Rightarrow> bool" where
  "is_finished FINISHED_STOPPED = True"
| "is_finished FINISHED_ABORTED = True"
| "is_finished FINISHED_ERROR = True"
| "is_finished (FINISHED_OTHER _) = True"
| "is_finished _ = False"

record mm_feature =
  mm_identifier :: string
  mm_offset :: int
  mm_length :: int

text \<open>Arrival time and sampling parameters are only copied.\<close>

record streaming_update =
  u_mm_features :: "mm_feature list"
  u_prompt_token_ids :: "int list option"
  u_arrival_time :: int
  u_sampling_params :: string

record request =
  request_id :: rid
  status :: request_status
  prompt_token_ids :: "int list option"
  all_token_ids :: "int list"
  output_token_ids :: "int list"
  num_prompt_tokens :: int
  num_computed_tokens :: int
  spec_token_ids :: "int list"
  num_output_placeholders :: int
  num_in_flight_tokens :: int
  num_stale_output_tokens :: int
  drop_stale_output :: bool
  num_preemptions :: nat
  last_sched_seq :: nat
  is_prefill_chunk :: bool
  use_structured_output :: bool
  resumable :: bool
  streaming_queue :: "streaming_update option list option"
  mm_features :: "mm_feature list"
  arrival_time :: int
  sampling_params :: string
  is_pooling :: bool
  client_index :: int
  max_tokens :: int
  priority :: int
  next_decode_eligible_step :: int
  shared_prefix_boundary :: int
  lora_int_id :: "int option"

abbreviation num_tokens :: "request \<Rightarrow> int" where
  "num_tokens r \<equiv> int (length (all_token_ids r))"

subsection \<open>State and environment\<close>

datatype pause_state = UNPAUSED | PAUSED_NEW | PAUSED_ALL

datatype scheduling_policy = FCFS | PRIORITY

record 'x sched =
  world :: 'x
  objs :: "rid \<Rightarrow> request"
  requests :: "rid list"
  waiting :: "rid list"
  skipped_waiting :: "rid list"
  running :: "rid list"
  finished_req_ids :: "rid set"
  finished_req_ids_dict :: "(int \<Rightarrow> rid set) option"
  reset_preempted_req_ids :: "rid set"
  prev_step_scheduled_req_ids :: "rid set"
  num_waiting_for_streaming_input :: int
  finished_recving_kv_req_ids :: "rid set"
  failed_recving_kv_req_ids :: "rid set"
  grammar_compile_error_reqs :: "rid set"
  inflight_prefills :: "rid set"
  p_state :: pause_state
  dsv41_pp_sent :: "(rid, int) dict"
  re_block_ids :: "(rid, int list) dict"
  sched_step_seq :: nat
  processed_step_seq :: nat
  deferred_frees :: "(nat \<times> block list) list"
  current_step :: int
  prefill_capacity_bound :: bool
  skip_zero_block_ids :: "block set"

text \<open>The grammar of a structured request: not compiled yet, failed to compile, or ready.\<close>

datatype grammar_state = Grammar_Pending | Grammar_Error | Grammar_Ready

record 'x env =
  defer_block_free :: bool
  policy :: scheduling_policy
  max_model_len :: int
  block_size :: int
  needs_kv_cache_zeroing :: bool
  recompute_kv_load_failures :: bool
  is_mm_encoder_only :: bool
  num_sampled_tokens_per_step :: int
  routed_experts_gid :: "nat option"
  has_connector :: bool
  has_ec_connector :: bool
  is_kv_producer :: "bool option"
  supports_hma :: bool
  num_kv_cache_groups :: nat
  is_encoder_decoder :: bool
  num_prefill_lookahead :: int
  set_order :: "rid set \<Rightarrow> rid list"
  \<comment> \<open>the request queue class\<close>
  queue_add :: "(rid \<Rightarrow> request) \<Rightarrow> rid \<Rightarrow> rid list \<Rightarrow> rid list"
  queue_prepend :: "(rid \<Rightarrow> request) \<Rightarrow> rid \<Rightarrow> rid list \<Rightarrow> rid list"
  queue_remove :: "(rid \<Rightarrow> request) \<Rightarrow> rid set \<Rightarrow> rid list \<Rightarrow> rid list"
  queue_peek :: "(rid \<Rightarrow> request) \<Rightarrow> rid list \<Rightarrow> rid"
  request_less :: "request \<Rightarrow> request \<Rightarrow> bool"
  remove_all :: "rid list \<Rightarrow> rid set \<Rightarrow> rid list"
  \<comment> \<open>the KV cache manager and its block pool\<close>
  kv_free :: "'x \<Rightarrow> request \<Rightarrow> 'x"
  kv_pop_blocks_for_free :: "'x \<Rightarrow> request \<Rightarrow> block list \<times> 'x"
  pool_free_blocks :: "'x \<Rightarrow> block list \<Rightarrow> 'x"
  kv_cache_blocks :: "'x \<Rightarrow> request \<Rightarrow> int \<Rightarrow> 'x"
  kv_record_blocks_for_zeroing :: "'x \<Rightarrow> rid \<Rightarrow> int \<Rightarrow> 'x"
  kv_get_block_ids :: "'x \<Rightarrow> rid \<Rightarrow> block list list"
  kv_reset_prefix_cache :: "'x \<Rightarrow> bool \<times> 'x"
  kv_evict_blocks :: "'x \<Rightarrow> block set \<Rightarrow> 'x"
  kv_finalize_partial_tail_offloads :: "'x \<Rightarrow> request \<Rightarrow> (int \<times> int \<times> int) list \<times> 'x"
  kv_remove_skipped_blocks :: "'x \<Rightarrow> rid \<Rightarrow> int \<Rightarrow> int \<Rightarrow> 'x"
  kv_block_ids_for_computed :: "'x \<Rightarrow> rid \<Rightarrow> int \<Rightarrow> block list list"
  \<comment> \<open>the encoder cache manager and the connectors\<close>
  encoder_free :: "'x \<Rightarrow> request \<Rightarrow> 'x"
  encoder_cached_input_ids :: "'x \<Rightarrow> request \<Rightarrow> nat list"
  encoder_free_input :: "'x \<Rightarrow> request \<Rightarrow> nat \<Rightarrow> 'x"
  connector_new_request :: "'x \<Rightarrow> request \<Rightarrow> 'x"
  connector_register_tail ::
    "'x \<Rightarrow> request \<Rightarrow> block list list \<Rightarrow> (int \<times> int \<times> int) list \<Rightarrow> bool \<times> 'x"
  connector_request_finished :: "'x \<Rightarrow> request \<Rightarrow> block list \<Rightarrow> (bool \<times> string option) \<times> 'x"
  connector_request_finished_all_groups ::
    "'x \<Rightarrow> request \<Rightarrow> block list list \<Rightarrow> (bool \<times> string option) \<times> 'x"
  connector_update :: "'x \<Rightarrow> rid list \<Rightarrow> rid list \<Rightarrow> 'x"
  connector_reset_cache :: "'x \<Rightarrow> bool option \<times> 'x"
  connector_pending_push :: "'x \<Rightarrow> bool"
  ec_request_finished :: "'x \<Rightarrow> request \<Rightarrow> (bool \<times> string option) \<times> 'x"
  ec_pending_push :: "'x \<Rightarrow> bool"
  \<comment> \<open>requests and grammars\<close>
  update_block_hashes :: "request \<Rightarrow> request"
  from_request :: "request \<Rightarrow> streaming_update option"
  append_output_token_ids :: "request \<Rightarrow> int \<Rightarrow> request"
  check_stop :: "request \<Rightarrow> int \<Rightarrow> bool \<times> request"
  finished_reason :: "request_status \<Rightarrow> string option"
  structured_grammar :: "'x \<Rightarrow> rid \<Rightarrow> grammar_state"
  should_advance :: "'x \<Rightarrow> request \<Rightarrow> int list option \<Rightarrow> bool"
  grammar_validate :: "'x \<Rightarrow> rid \<Rightarrow> int list \<Rightarrow> int list"
  trim_reasoning :: "'x \<Rightarrow> request \<Rightarrow> int list \<Rightarrow> int list"
  grammar_accept :: "'x \<Rightarrow> rid \<Rightarrow> int list \<Rightarrow> bool \<times> 'x"

definition init_sched :: "'x \<Rightarrow> bool \<Rightarrow> 'x sched" where
  "init_sched w include_finished_set = \<lparr>
    world = w, objs = (\<lambda>i. undefined), requests = [], waiting = [], skipped_waiting = [], running = [],
    finished_req_ids = {}, finished_req_ids_dict = (if include_finished_set then Some (\<lambda>_. {}) else None),
    reset_preempted_req_ids = {}, prev_step_scheduled_req_ids = {}, num_waiting_for_streaming_input = 0,
    finished_recving_kv_req_ids = {}, failed_recving_kv_req_ids = {}, grammar_compile_error_reqs = {},
    inflight_prefills = {}, p_state = UNPAUSED, dsv41_pp_sent = [], re_block_ids = [],
    sched_step_seq = 0, processed_step_seq = 0, deferred_frees = [],
    current_step = 0, prefill_capacity_bound = False, skip_zero_block_ids = {}\<rparr>"

definition upd_req :: "rid \<Rightarrow> (request \<Rightarrow> request) \<Rightarrow> 'x sched \<Rightarrow> 'x sched" where
  "upd_req i f s = s\<lparr>objs := (objs s)(i := f (objs s i))\<rparr>"


lemma upd_req_sel [simp]:
  "objs (upd_req i f s) = (objs s)(i := f (objs s i))"
  "world (upd_req i f s) = world s"
  "requests (upd_req i f s) = requests s"
  "waiting (upd_req i f s) = waiting s"
  "skipped_waiting (upd_req i f s) = skipped_waiting s"
  "running (upd_req i f s) = running s"
  "num_waiting_for_streaming_input (upd_req i f s) = num_waiting_for_streaming_input s"
  "finished_recving_kv_req_ids (upd_req i f s) = finished_recving_kv_req_ids s"
  "failed_recving_kv_req_ids (upd_req i f s) = failed_recving_kv_req_ids s"
  "sched_step_seq (upd_req i f s) = sched_step_seq s"
  "processed_step_seq (upd_req i f s) = processed_step_seq s"
  "deferred_frees (upd_req i f s) = deferred_frees s"
  "dsv41_pp_sent (upd_req i f s) = dsv41_pp_sent s"
  "inflight_prefills (upd_req i f s) = inflight_prefills s"
  "finished_req_ids (upd_req i f s) = finished_req_ids s"
  "p_state (upd_req i f s) = p_state s"
  by (simp_all add: upd_req_def)

subsection \<open>Freeing blocks\<close>

definition free_request_blocks :: "'x env \<Rightarrow> rid \<Rightarrow> 'x sched \<Rightarrow> 'x sched" where
  "free_request_blocks e i s =
    (if \<not> defer_block_free e \<or> last_sched_seq (objs s i) \<le> processed_step_seq s
     then s\<lparr>world := kv_free e (world s) (objs s i)\<rparr>
     else
       let (blocks, w) = kv_pop_blocks_for_free e (world s) (objs s i);
           s = s\<lparr>world := w\<rparr>
       in if blocks = [] then s
          else s\<lparr>deferred_frees := deferred_frees s @ [(sched_step_seq s, blocks)]\<rparr>)"

definition free_cow_retained_blocks :: "'x env \<Rightarrow> block list \<Rightarrow> nat \<Rightarrow> 'x sched \<Rightarrow> 'x sched" where
  "free_cow_retained_blocks e blocks fence_seq s =
    (if \<not> defer_block_free e \<or> fence_seq \<le> processed_step_seq s
     then s\<lparr>world := pool_free_blocks e (world s) blocks\<rparr>
     else s\<lparr>deferred_frees := deferred_frees s @ [(fence_seq, rev blocks)]\<rparr>)"

fun drain_loop ::
  "'x env \<Rightarrow> nat \<Rightarrow> (nat \<times> block list) list \<Rightarrow> 'x \<Rightarrow> (nat \<times> block list) list \<times> 'x" where
  "drain_loop e seq [] w = ([], w)"
| "drain_loop e seq ((fence, blocks) # q) w =
    (if fence > seq then ((fence, blocks) # q, w)
     else drain_loop e seq q (pool_free_blocks e w (rev blocks)))"

definition drain_deferred_frees :: "'x env \<Rightarrow> 'x sched \<Rightarrow> 'x sched" where
  "drain_deferred_frees e s =
    (let (q, w) = drain_loop e (processed_step_seq s) (deferred_frees s) (world s)
     in s\<lparr>deferred_frees := q, world := w\<rparr>)"

text \<open>\<open>del self.requests[request.request_id]\<close> raises on an absent key.\<close>

definition free_blocks :: "'x env \<Rightarrow> rid \<Rightarrow> 'x sched \<Rightarrow> 'x sched res" where
  "free_blocks e i s =
    bindE (assertE (is_finished (status (objs s i)))) (\<lambda>_.
    let s = free_request_blocks e i s
    in if i \<in> set (requests s) then Ok (s\<lparr>requests := remove1 i (requests s)\<rparr>) else Err KeyError)"

definition connector_finished ::
  "'x env \<Rightarrow> rid \<Rightarrow> 'x sched \<Rightarrow> ((bool \<times> string option) \<times> 'x sched) res" where
  "connector_finished e i s =
    (if \<not> has_connector e then Ok ((False, None), s)
     else
       let r = objs s i;
           (tails, w) = (if is_kv_producer e = Some True
                         then kv_finalize_partial_tail_offloads e (world s) r
                         else ([], world s));
           w = kv_remove_skipped_blocks e w (request_id r)
                 (max 0 (num_computed_tokens r - num_in_flight_tokens r)) (num_prompt_tokens r);
           block_ids = kv_block_ids_for_computed e w (request_id r) (num_computed_tokens r);
           (tail_delay, w) = (if tails = [] then (False, w)
                              else connector_register_tail e w r block_ids tails)
       in if \<not> supports_hma e
          then bindE (assertE (num_kv_cache_groups e = 1)) (\<lambda>_.
               bindE (py_index block_ids 0) (\<lambda>b0.
               let ((delay, params), w) = connector_request_finished e w r b0
               in Ok ((delay \<or> tail_delay, params), s\<lparr>world := w\<rparr>)))
          else let ((delay, params), w) = connector_request_finished_all_groups e w r block_ids
               in Ok ((delay \<or> tail_delay, params), s\<lparr>world := w\<rparr>))"

definition free_request ::
  "'x env \<Rightarrow> rid \<Rightarrow> bool \<Rightarrow> 'x sched \<Rightarrow> ((string option \<times> string option) \<times> 'x sched) res" where
  "free_request e i delay_free_blocks s =
    (let s = s\<lparr>dsv41_pp_sent := dict_pop (request_id (objs s i)) (dsv41_pp_sent s)\<rparr>
     in bindE (assertE (is_finished (status (objs s i)))) (\<lambda>_.
        let s = s\<lparr>inflight_prefills := inflight_prefills s - {i}\<rparr>
        in bindE (connector_finished e i s) (\<lambda>((delay, kv_params), s).
        let ((ec_delay, ec_params), w) =
              (if has_ec_connector e then ec_request_finished e (world s) (objs s i)
               else ((False, None), world s));
            s = s\<lparr>world := encoder_free e w (objs s i)\<rparr>;
            s = s\<lparr>finished_req_ids := insert (request_id (objs s i)) (finished_req_ids s)\<rparr>;
            c = client_index (objs s i);
            s = s\<lparr>finished_req_ids_dict :=
                    map_option (\<lambda>d. d(c := insert (request_id (objs s i)) (d c)))
                      (finished_req_ids_dict s)\<rparr>
        in if delay_free_blocks \<or> delay \<or> ec_delay then Ok ((kv_params, ec_params), s)
           else bindE (free_blocks e i s) (\<lambda>s. Ok ((kv_params, ec_params), s)))))"

subsection \<open>Preemption\<close>

definition preempt_request :: "'x env \<Rightarrow> rid \<Rightarrow> bool \<Rightarrow> 'x sched \<Rightarrow> 'x sched res" where
  "preempt_request e i drop_stale s =
    bindE (assertE (status (objs s i) = RUNNING)) (\<lambda>_.
    let s = free_request_blocks e i s;
        s = s\<lparr>world := encoder_free e (world s) (objs s i),
              inflight_prefills := inflight_prefills s - {i}\<rparr>;
        s = upd_req i (\<lambda>r. r\<lparr>
              status := PREEMPTED,
              num_computed_tokens := 0,
              spec_token_ids := [],
              drop_stale_output := (drop_stale \<or> (drop_stale_output r \<and> num_stale_output_tokens r > 0)),
              num_stale_output_tokens := num_in_flight_tokens r,
              num_output_placeholders := 0,
              num_preemptions := num_preemptions r + 1\<rparr>) s
    in Ok (s\<lparr>waiting := queue_prepend e (objs s) i (waiting s),
             reset_preempted_req_ids :=
               insert (request_id (objs s i)) (reset_preempted_req_ids s)\<rparr>))"

text \<open>The loop \<open>while self.running: self._preempt_request(self.running.pop(), ..., True)\<close> of
  \<open>reset_prefix_cache\<close>, over the running list in reverse.\<close>

definition preempt_last :: "'x env \<Rightarrow> rid \<Rightarrow> 'x sched \<Rightarrow> 'x sched res" where
  "preempt_last e i s = preempt_request e i True (s\<lparr>running := butlast (running s)\<rparr>)"

definition reset_connector_cache :: "'x env \<Rightarrow> 'x sched \<Rightarrow> bool \<times> 'x sched" where
  "reset_connector_cache e s =
    (if \<not> has_connector e then (True, s)
     else let (r, w) = connector_reset_cache e (world s)
          in (r \<noteq> Some False, s\<lparr>world := w\<rparr>))"

definition reset_prefix_cache :: "'x env \<Rightarrow> bool \<Rightarrow> bool \<Rightarrow> 'x sched \<Rightarrow> (bool \<times> 'x sched) res" where
  "reset_prefix_cache e reset_running_requests reset_connector s =
    bindE (if reset_running_requests
           then bindE (foldE (preempt_last e) (rev (running s)) s)
                  (\<lambda>s. Ok (s\<lparr>prev_step_scheduled_req_ids := {}\<rparr>))
           else Ok s) (\<lambda>s.
    let (ok, w) = kv_reset_prefix_cache e (world s); s = s\<lparr>world := w\<rparr>
    in if reset_running_requests \<and> \<not> ok then Err RuntimeError
       else if reset_connector
       then let (c, s) = reset_connector_cache e s in Ok (c \<and> ok, s)
       else Ok (ok, s))"


subsection \<open>Waiting requests and streaming sessions\<close>

definition is_blocked_waiting_status :: "request_status \<Rightarrow> bool" where
  "is_blocked_waiting_status st =
    (st \<in> {WAITING_FOR_STRUCTURED_OUTPUT_GRAMMAR, WAITING_FOR_REMOTE_KVS, WAITING_FOR_STREAMING_REQ})"

definition enqueue_waiting_request :: "'x env \<Rightarrow> rid \<Rightarrow> 'x sched \<Rightarrow> 'x sched" where
  "enqueue_waiting_request e i s =
    (if is_blocked_waiting_status (status (objs s i))
     then s\<lparr>skipped_waiting := queue_add e (objs s) i (skipped_waiting s)\<rparr>
     else s\<lparr>waiting := queue_add e (objs s) i (waiting s)\<rparr>)"

datatype queue_choice = Waiting_Queue | Skipped_Queue

definition select_waiting_queue_for_scheduling :: "'x env \<Rightarrow> 'x sched \<Rightarrow> queue_choice option" where
  "select_waiting_queue_for_scheduling e s =
    (case policy e of
       FCFS \<Rightarrow> if skipped_waiting s \<noteq> [] then Some Skipped_Queue
               else if waiting s \<noteq> [] then Some Waiting_Queue else None
     | PRIORITY \<Rightarrow>
         if waiting s \<noteq> [] \<and> skipped_waiting s \<noteq> []
         then let w = queue_peek e (objs s) (waiting s); k = queue_peek e (objs s) (skipped_waiting s)
              in if request_less e (objs s w) (objs s k) then Some Waiting_Queue else Some Skipped_Queue
         else if waiting s \<noteq> [] then Some Waiting_Queue
         else if skipped_waiting s \<noteq> [] then Some Skipped_Queue else None)"

text \<open>Python slices clamp their bounds; a negative bound counts from the end.\<close>

definition clamp_index :: "int \<Rightarrow> nat \<Rightarrow> nat" where
  "clamp_index k n = (if k < 0 then nat (max 0 (int n + k)) else min (nat k) n)"

definition py_slice :: "int \<Rightarrow> int \<Rightarrow> 'a list \<Rightarrow> 'a list" where
  "py_slice a b xs = drop (clamp_index a (length xs)) (take (clamp_index b (length xs)) xs)"

definition update_request_as_session ::
  "'x env \<Rightarrow> rid \<Rightarrow> streaming_update \<Rightarrow> 'x sched \<Rightarrow> 'x sched res" where
  "update_request_as_session e i u s =
    (let r = objs s i;
         n = num_computed_tokens r;
         kept = py_slice (num_prompt_tokens r) n (all_token_ids r);
         all_ids = take (clamp_index n (length (all_token_ids r))) (all_token_ids r)
     in case prompt_token_ids r of None \<Rightarrow> Err AssertionError
        | Some prompt \<Rightarrow>
          (let base = int (length all_ids);
               feats = map (\<lambda>f. f\<lparr>mm_offset := mm_offset f + base\<rparr>) (u_mm_features u);
               new = or_default [] (u_prompt_token_ids u);
               prompt' = prompt @ kept @ new;
               r' = update_block_hashes e (r\<lparr>
                      all_token_ids := all_ids @ new,
                      output_token_ids := [],
                      prompt_token_ids := Some prompt',
                      mm_features := mm_features r @ feats\<rparr>);
               s = (if status r = WAITING_FOR_STREAMING_REQ
                    then s\<lparr>num_waiting_for_streaming_input := num_waiting_for_streaming_input s - 1\<rparr>
                    else s)
           in Ok (upd_req i (\<lambda>_. r'\<lparr>
                    num_prompt_tokens := int (length prompt'),
                    arrival_time := u_arrival_time u,
                    sampling_params := u_sampling_params u,
                    status := WAITING\<rparr>) s)))"

definition handle_stopped_request :: "'x env \<Rightarrow> rid \<Rightarrow> 'x sched \<Rightarrow> (bool \<times> 'x sched) res" where
  "handle_stopped_request e i s =
    (let r = objs s i
     in if \<not> resumable r then Ok (True, s)
        else case streaming_queue r of
          Some (u # us) \<Rightarrow>
            (let s = upd_req i (\<lambda>r. r\<lparr>streaming_queue := Some us\<rparr>) s
             in case u of None \<Rightarrow> Ok (True, s)
                | Some u \<Rightarrow> bindE (update_request_as_session e i u s) (\<lambda>s.
                    Ok (False, enqueue_waiting_request e i s)))
        | _ \<Rightarrow>
            (let s = upd_req i (\<lambda>r. r\<lparr>status := WAITING_FOR_STREAMING_REQ\<rparr>) s;
                 s = s\<lparr>num_waiting_for_streaming_input := num_waiting_for_streaming_input s + 1\<rparr>
             in Ok (False, enqueue_waiting_request e i s)))"

fun update_request_with_output ::
  "'x env \<Rightarrow> request \<Rightarrow> int list \<Rightarrow> request \<times> int list \<times> bool" where
  "update_request_with_output e r [] = (r, [], False)"
| "update_request_with_output e r (t # ts) =
    (let (stopped, r) = check_stop e (append_output_token_ids e r t) (max_model_len e)
     in if stopped then (r, [t], True)
        else let (r, ts', stopped) = update_request_with_output e r ts in (r, t # ts', stopped))"

subsection \<open>Adding and finishing requests\<close>

text \<open>First pass of \<open>finish_requests\<close>: the requests to finish, and the counter of
  sessions waiting for input.\<close>

definition finish_collect :: "'x sched \<Rightarrow> rid list \<Rightarrow> rid list" where
  "finish_collect s ids = filter (\<lambda>i. i \<in> set (requests s) \<and> \<not> is_finished (status (objs s i))) ids"

definition finish_one :: "'x env \<Rightarrow> request_status \<Rightarrow> rid \<Rightarrow> 'x sched \<Rightarrow> 'x sched res" where
  "finish_one e finished_status i s =
    (let remote = status (objs s i) = WAITING_FOR_REMOTE_KVS;
         delay = (remote \<and> request_id (objs s i) \<notin> finished_recving_kv_req_ids s);
         s = (if remote
              then s\<lparr>finished_recving_kv_req_ids := finished_recving_kv_req_ids s - {request_id (objs s i)},
                     failed_recving_kv_req_ids := failed_recving_kv_req_ids s - {request_id (objs s i)}\<rparr>
              else s);
         s = upd_req i (\<lambda>r. r\<lparr>status := finished_status\<rparr>) s
     in bindE (free_request e i delay s) (\<lambda>(_, s). Ok s))"

text \<open>\<open>request_ids\<close> is the collection the source iterates: one id, the ids of a set, or the
  keys of \<open>requests\<close> (\<open>None\<close>).\<close>

definition finish_requests ::
  "'x env \<Rightarrow> rid list option \<Rightarrow> request_status \<Rightarrow> 'x sched \<Rightarrow> (rid list \<times> 'x sched) res" where
  "finish_requests e request_ids finished_status s =
    bindE (assertE (is_finished finished_status)) (\<lambda>_.
    let valid = finish_collect s (or_default (requests s) request_ids);
        run = filter (\<lambda>i. status (objs s i) = RUNNING) valid;
        wait = filter (\<lambda>i. status (objs s i) \<noteq> RUNNING) valid;
        streaming = filter (\<lambda>i. status (objs s i) = WAITING_FOR_STREAMING_REQ) valid;
        s = s\<lparr>num_waiting_for_streaming_input :=
                num_waiting_for_streaming_input s - int (length streaming)\<rparr>;
        s = (if run = [] then s else s\<lparr>running := remove_all e (running s) (set run)\<rparr>);
        s = (if wait = [] then s
             else s\<lparr>waiting := queue_remove e (objs s) (set wait) (waiting s),
                    skipped_waiting := queue_remove e (objs s) (set wait) (skipped_waiting s)\<rparr>)
    in bindE (foldE (finish_one e finished_status) valid s) (\<lambda>s. Ok (valid, s)))"

definition add_request :: "'x env \<Rightarrow> request \<Rightarrow> 'x sched \<Rightarrow> 'x sched res" where
  "add_request e request s =
    (let i = request_id request
     in if i \<in> set (requests s)
        then (let update = from_request e request; existing = objs s i
              in if status existing \<noteq> WAITING_FOR_STREAMING_REQ
                 then (case streaming_queue existing of None \<Rightarrow> Err AssertionError
                       | Some q \<Rightarrow> Ok (upd_req i (\<lambda>r. r\<lparr>streaming_queue := Some (q @ [update])\<rparr>) s))
                 else (case update of
                         Some u \<Rightarrow> update_request_as_session e i u s
                       | None \<Rightarrow> bindE (finish_requests e (Some [i]) FINISHED_ABORTED s) (\<lambda>(_, s). Ok s)))
        else
          (let r = (if resumable request then request\<lparr>streaming_queue := Some []\<rparr> else request);
               s = enqueue_waiting_request e i (s\<lparr>objs := (objs s)(i := r)\<rparr>);
               s = s\<lparr>requests := requests s @ [i]\<rparr>
           in Ok (if has_connector e then s\<lparr>world := connector_new_request e (world s) r\<rparr> else s)))"

subsection \<open>Counters\<close>

definition get_request_counts :: "'x sched \<Rightarrow> nat \<times> nat" where
  "get_request_counts s = (length (running s), length (waiting s) + length (skipped_waiting s))"

definition set_pause_state :: "pause_state \<Rightarrow> 'x sched \<Rightarrow> 'x sched" where
  "set_pause_state p s = s\<lparr>p_state := p\<rparr>"

definition get_num_unfinished_requests :: "'x sched \<Rightarrow> int" where
  "get_num_unfinished_requests s =
    (if p_state s = PAUSED_ALL then 0
     else if p_state s = PAUSED_NEW then int (length (running s))
     else int (length (waiting s)) + int (length (skipped_waiting s))
            - num_waiting_for_streaming_input s + int (length (running s)))"

definition has_finished_requests :: "'x env \<Rightarrow> 'x sched \<Rightarrow> bool" where
  "has_finished_requests e s =
    (if finished_req_ids s \<noteq> {} then True
     else if \<not> has_connector e then False
     else length (requests s) > length (waiting s) + length (skipped_waiting s) + length (running s))"

definition has_requests :: "'x env \<Rightarrow> 'x sched \<Rightarrow> bool" where
  "has_requests e s =
    (get_num_unfinished_requests s > 0
     \<or> has_finished_requests e s
     \<or> (has_connector e \<and> connector_pending_push e (world s))
     \<or> (has_ec_connector e \<and> ec_pending_push e (world s)))"


subsection \<open>What each operation leaves alone\<close>

text \<open>Two states that agree on requests, queues and counters; freeing blocks changes
  only the external state, the deferred frees and the sets of notifications.\<close>

definition same_queues :: "'x sched \<Rightarrow> 'x sched \<Rightarrow> bool" where
  "same_queues s s' \<longleftrightarrow>
    objs s' = objs s \<and> waiting s' = waiting s \<and> skipped_waiting s' = skipped_waiting s
    \<and> running s' = running s
    \<and> num_waiting_for_streaming_input s' = num_waiting_for_streaming_input s"

lemma free_request_blocks_sel [simp]:
  "same_queues s (free_request_blocks e i s)"
  "requests (free_request_blocks e i s) = requests s"
  "objs (free_request_blocks e i s) = objs s"
  "waiting (free_request_blocks e i s) = waiting s"
  "skipped_waiting (free_request_blocks e i s) = skipped_waiting s"
  "running (free_request_blocks e i s) = running s"
  "num_waiting_for_streaming_input (free_request_blocks e i s) = num_waiting_for_streaming_input s"
  "sched_step_seq (free_request_blocks e i s) = sched_step_seq s"
  "processed_step_seq (free_request_blocks e i s) = processed_step_seq s"
  by (auto simp: free_request_blocks_def same_queues_def Let_def split: prod.splits)

lemma connector_finished_frame:
  assumes "connector_finished e i s = Ok (p, s')"
  shows "\<exists>w. s' = s\<lparr>world := w\<rparr>"
proof (cases "has_connector e")
  case False
  then have "s' = s\<lparr>world := world s\<rparr>" using assms by (simp add: connector_finished_def)
  then show ?thesis ..
next
  case True
  then show ?thesis using assms
    by (auto simp: connector_finished_def Let_def split_beta bindE_eq_Inr_iff split: if_splits)
qed

lemma free_blocks_frame:
  assumes "free_blocks e i s = Ok s'"
  shows "is_finished (status (objs s i)) \<and> i \<in> set (requests s) \<and> same_queues s s'
    \<and> requests s' = remove1 i (requests s)
    \<and> sched_step_seq s' = sched_step_seq s \<and> processed_step_seq s' = processed_step_seq s"
  using assms
  by (auto simp: free_blocks_def Let_def bindE_eq_Inr_iff same_queues_def split: if_splits)

lemma free_request_frame:
  assumes "free_request e i d s = Ok (p, s')"
  shows "is_finished (status (objs s i)) \<and> same_queues s s'
    \<and> (requests s' = requests s \<or> i \<in> set (requests s) \<and> requests s' = remove1 i (requests s))"
proof -
  define s0 where "s0 = s\<lparr>dsv41_pp_sent := dict_pop (request_id (objs s i)) (dsv41_pp_sent s),
    inflight_prefills := inflight_prefills s - {i}\<rparr>"
  from assms obtain d1 kp s1 where fin: "is_finished (status (objs s i))"
    and c: "connector_finished e i s0 = Ok ((d1, kp), s1)"
    by (auto simp: free_request_def Let_def bindE_eq_Inr_iff s0_def)
  from connector_finished_frame [OF c] have s1: "same_queues s s1" "requests s1 = requests s"
    by (auto simp: s0_def same_queues_def)
  have "same_queues s1 s' \<and>
     (requests s' = requests s1 \<or> i \<in> set (requests s1) \<and> requests s' = remove1 i (requests s1))"
    using assms c fin
    by (auto simp: free_request_def Let_def split_beta bindE_eq_Inr_iff s0_def same_queues_def
        split: if_splits dest!: free_blocks_frame)
  then show ?thesis using fin s1 by (auto simp: same_queues_def)
qed

subsection \<open>The queues of an external class\<close>

text \<open>What the code relies on: adding and prepending put one entry in, removing takes
  out exactly the listed requests, wherever the class keeps them, and a set is iterated
  without repetition; hashing, appending a token
  and the stop check change what their names say.\<close>

definition queue_laws :: "'x env \<Rightarrow> bool" where
  "queue_laws e \<longleftrightarrow>
    (\<forall>ob i q. mset (queue_add e ob i q) = add_mset i (mset q)) \<and>
    (\<forall>ob i q. mset (queue_prepend e ob i q) = add_mset i (mset q)) \<and>
    (\<forall>ob R q. mset (queue_remove e ob R q) = filter_mset (\<lambda>i. i \<notin> R) (mset q)) \<and>
    (\<forall>R q. remove_all e q R = filter (\<lambda>i. i \<notin> R) q) \<and>
    (\<forall>S. distinct (set_order e S) \<and> (finite S \<longrightarrow> set (set_order e S) = S))"

definition request_laws :: "'x env \<Rightarrow> bool" where
  "request_laws e \<longleftrightarrow>
    (\<forall>r. update_block_hashes e r = r) \<and>
    (\<forall>r t. append_output_token_ids e r t =
        r\<lparr>output_token_ids := output_token_ids r @ [t], all_token_ids := all_token_ids r @ [t]\<rparr>) \<and>
    (\<forall>r n. fst (check_stop e r n) = False \<longrightarrow> snd (check_stop e r n) = r) \<and>
    (\<forall>r n. fst (check_stop e r n) = True \<longrightarrow>
        (\<exists>st. is_finished st \<and> snd (check_stop e r n) = r\<lparr>status := st\<rparr>))"

lemma length_filter_mset: "mset xs = mset ys \<Longrightarrow> length (filter P xs) = length (filter P ys)"
  by (metis mset_filter size_mset)

lemma mset_add_facts:
  assumes "mset q' = add_mset i (mset q)"
  shows "set q' = insert i (set q)"
    and "distinct q' \<longleftrightarrow> i \<notin> set q \<and> distinct q"
    and "length (filter P q') = length (filter P q) + (if P i then 1 else 0)"
    and "length q' = Suc (length q)"
proof -
  show "set q' = insert i (set q)" using assms by (metis set_mset_add_mset_insert set_mset_mset)
  have "mset q' = mset (i # q)" using assms by simp
  then show "distinct q' \<longleftrightarrow> i \<notin> set q \<and> distinct q"
    by (simp only: mset_eq_imp_distinct_iff [of q' "i # q"] distinct.simps)
  show "length (filter P q') = length (filter P q) + (if P i then 1 else 0)"
    using length_filter_mset [of q' "i # q" P] assms by simp
  show "length q' = Suc (length q)" using assms by (metis size_add_mset size_mset)
qed

lemma mset_remove_facts:
  assumes "mset q' = filter_mset (\<lambda>i. i \<notin> R) (mset q)"
  shows "set q' = set q - R"
    and "distinct q \<Longrightarrow> distinct q'"
    and "length (filter P q') = length (filter (\<lambda>i. P i \<and> i \<notin> R) q)"
proof -
  have eq: "mset q' = mset (filter (\<lambda>i. i \<notin> R) q)" using assms by simp
  from mset_eq_setD [OF this] show "set q' = set q - R" by auto
  show "distinct q \<Longrightarrow> distinct q'" 
    using mset_eq_imp_distinct_iff [OF eq] by simp
  show "length (filter P q') = length (filter (\<lambda>i. P i \<and> i \<notin> R) q)"
    using length_filter_mset [OF eq, of P] by (simp add: conj_commute)
qed

lemma mset_without: "i \<notin> set xs \<Longrightarrow> filter_mset (\<lambda>j. j \<notin> {i}) (mset xs) = mset xs"
  by (induction xs) auto

lemma queue_lawsD:
  assumes "queue_laws e"
  shows "mset (queue_add e ob i q) = add_mset i (mset q)"
    and "mset (queue_prepend e ob i q) = add_mset i (mset q)"
    and "mset (queue_remove e ob R q) = filter_mset (\<lambda>i. i \<notin> R) (mset q)"
    and "remove_all e q R = filter (\<lambda>i. i \<notin> R) q"
  using assms by (simp_all add: queue_laws_def)

lemmas queue_add_facts = mset_add_facts [OF queue_lawsD(1)]
lemmas queue_prepend_facts = mset_add_facts [OF queue_lawsD(2)]
lemmas queue_remove_facts = mset_remove_facts [OF queue_lawsD(3)]


subsection \<open>The queue invariant\<close>

definition queued :: "'x sched \<Rightarrow> rid list" where
  "queued s = waiting s @ skipped_waiting s @ running s"

definition live :: "'x sched \<Rightarrow> rid \<Rightarrow> bool" where
  "live s i \<longleftrightarrow> i \<in> set (requests s) \<and> \<not> is_finished (status (objs s i))"

definition awaits_input :: "'x sched \<Rightarrow> rid \<Rightarrow> bool" where
  "awaits_input s i \<longleftrightarrow> status (objs s i) = WAITING_FOR_STREAMING_REQ"

text \<open>Invariant of a state whose requests \<open>D\<close> have just been taken out of their queue:
  every other unfinished request is in exactly one queue, its status fits the queue, and the
  counter counts the sessions that wait for input.\<close>

definition detached_inv :: "rid set \<Rightarrow> 'x sched \<Rightarrow> bool" where
  "detached_inv D s \<longleftrightarrow>
    distinct (requests s) \<and> distinct (queued s)
    \<and> (\<forall>i. i \<in> set (queued s) \<longleftrightarrow> live s i \<and> i \<notin> D)
    \<and> (\<forall>i\<in>D. live s i)
    \<and> (\<forall>i\<in>set (running s). status (objs s i) = RUNNING)
    \<and> (\<forall>i\<in>set (skipped_waiting s). status (objs s i) \<noteq> RUNNING)
    \<and> (\<forall>i\<in>set (waiting s). status (objs s i) \<in> {WAITING, PREEMPTED})
    \<and> num_waiting_for_streaming_input s = int (length (filter (awaits_input s) (skipped_waiting s)))
    \<and> (\<forall>i\<in>set (requests s). request_id (objs s i) = i)
    \<and> (\<forall>i\<in>set (requests s). awaits_input s i \<longrightarrow> streaming_queue (objs s i) \<in> {None, Some []})"

abbreviation sched_inv :: "'x sched \<Rightarrow> bool" where
  "sched_inv \<equiv> detached_inv {}"

lemma detached_invD:
  assumes "detached_inv D s"
  shows "distinct (requests s)" and "distinct (queued s)"
    and "i \<in> set (queued s) \<longleftrightarrow> live s i \<and> i \<notin> D"
    and "i \<in> D \<Longrightarrow> live s i"
    and "i \<in> set (running s) \<Longrightarrow> status (objs s i) = RUNNING"
    and "i \<in> set (skipped_waiting s) \<Longrightarrow> status (objs s i) \<noteq> RUNNING"
    and "i \<in> set (waiting s) \<Longrightarrow> status (objs s i) \<in> {WAITING, PREEMPTED}"
    and "num_waiting_for_streaming_input s = int (length (filter (awaits_input s) (skipped_waiting s)))"
    and "i \<in> set (requests s) \<Longrightarrow> request_id (objs s i) = i"
    and "i \<in> set (requests s) \<Longrightarrow> awaits_input s i \<Longrightarrow> streaming_queue (objs s i) \<in> {None, Some []}"
  using assms unfolding detached_inv_def by blast+

text \<open>Operations on the blocks and on the external state keep the invariant.\<close>

lemma detached_inv_cong:
  assumes "detached_inv D s" and "same_queues s s'" and "requests s' = requests s"
  shows "detached_inv D s'"
  using assms
  unfolding detached_inv_def same_queues_def queued_def live_def awaits_input_def by simp

lemma filter_awaits_upd:
  "i \<notin> set xs \<Longrightarrow> filter (awaits_input (upd_req i f s)) xs = filter (awaits_input s) xs"
  by (auto simp: awaits_input_def intro!: filter_cong split: if_splits)

text \<open>Changing the object of a detached request.\<close>

lemma detached_inv_upd:
  assumes inv: "detached_inv D s" and i: "i \<in> D"
    and f: "request_id (f (objs s i)) = i" "\<not> is_finished (status (f (objs s i)))"
      "status (f (objs s i)) = WAITING_FOR_STREAMING_REQ \<Longrightarrow>
        streaming_queue (f (objs s i)) \<in> {None, Some []}"
  shows "detached_inv D (upd_req i f s)"
proof -
  have nq: "i \<notin> set (queued s)" using detached_invD(3) [OF inv] i by blast
  have lv: "live (upd_req i f s) j = live s j" for j
    using f(2) detached_invD(4) [OF inv i] by (auto simp: live_def)
  have sk: "i \<notin> set (skipped_waiting s)" using nq by (simp add: queued_def)
  have aw: "awaits_input (upd_req i f s) j \<longleftrightarrow>
      (if j = i then status (f (objs s i)) = WAITING_FOR_STREAMING_REQ else awaits_input s j)" for j
    by (simp add: awaits_input_def)
  have q: "queued (upd_req i f s) = queued s" by (simp add: queued_def)
  have sub: "i \<notin> set (running s)" "i \<notin> set (waiting s)" using nq by (simp_all add: queued_def)
  show ?thesis
    using inv sub sk f unfolding detached_inv_def lv upd_req_sel filter_awaits_upd [OF sk] q aw
    by auto
qed

text \<open>Finishing a detached request takes it out of the live ones, whether its blocks are
  freed at once or later.\<close>

lemma detached_inv_finish:
  assumes inv: "detached_inv D s" and i: "i \<in> D"
    and st: "is_finished (status (f (objs s i)))" "request_id (f (objs s i)) = i"
    and s': "same_queues (upd_req i f s) s'"
      "requests s' = requests s \<or> requests s' = remove1 i (requests s)"
  shows "detached_inv (D - {i}) s'"
proof -
  have nq: "i \<notin> set (queued s)" using detached_invD(3) [OF inv] i by blast
  then have sk: "i \<notin> set (skipped_waiting s)" by (simp add: queued_def)
  have d: "distinct (requests s)" by (rule detached_invD(1) [OF inv])
  have rq: "set (requests s') \<subseteq> set (requests s)" "distinct (requests s')"
    "\<And>j. j \<noteq> i \<Longrightarrow> j \<in> set (requests s') \<longleftrightarrow> j \<in> set (requests s)"
    using s'(2) d by (auto simp: distinct_remove1 in_set_remove1 dest: set_remove1_subset [THEN subsetD])
  have ob: "objs s' = (objs s)(i := f (objs s i))" and q: "queued s' = queued s"
    "waiting s' = waiting s" "skipped_waiting s' = skipped_waiting s" "running s' = running s"
    "num_waiting_for_streaming_input s' = num_waiting_for_streaming_input s"
    using s'(1) by (simp_all add: same_queues_def queued_def)
  have lv: "live s' j \<longleftrightarrow> live s j \<and> j \<noteq> i" for j
    using st rq(3) [of j] by (cases "j = i") (simp_all add: live_def ob)
  have fl: "filter (awaits_input s') (skipped_waiting s) = filter (awaits_input s) (skipped_waiting s)"
    using sk by (intro filter_cong) (auto simp: awaits_input_def ob)
  have aw: "awaits_input s' j \<longleftrightarrow> j \<noteq> i \<and> awaits_input s j" for j
    using st(1) by (auto simp: awaits_input_def ob)
  show ?thesis
    using inv nq rq(1,2) st unfolding detached_inv_def lv q fl aw ob
    by (auto simp: queued_def)
qed

text \<open>Enqueueing a detached request.\<close>

lemma detached_inv_to_waiting:
  assumes inv: "detached_inv D s" and i: "i \<in> D"
    and st: "status (objs s i) \<in> {WAITING, PREEMPTED}"
    and q: "mset q = add_mset i (mset (waiting s))"
  shows "detached_inv (D - {i}) (s\<lparr>waiting := q\<rparr>)"
proof -
  have nq: "i \<notin> set (queued s)" using detached_invD(3) [OF inv] i by blast
  have lv: "live s i" by (rule detached_invD(4) [OF inv i])
  have aw: "awaits_input (s\<lparr>waiting := q\<rparr>) = awaits_input s" by (simp add: awaits_input_def fun_eq_iff)
  show ?thesis
    using inv nq lv st mset_add_facts(1,2) [OF q]
    unfolding detached_inv_def queued_def aw by (auto simp: live_def)
qed

lemma detached_inv_to_skipped:
  assumes inv: "detached_inv D s" and i: "i \<in> D" and st: "status (objs s i) \<noteq> RUNNING"
    and q: "mset q = add_mset i (mset (skipped_waiting s))"
  shows "detached_inv (D - {i})
    (s\<lparr>skipped_waiting := q,
       num_waiting_for_streaming_input := num_waiting_for_streaming_input s
         + (if awaits_input s i then 1 else 0)\<rparr>)"
proof -
  let ?s = "s\<lparr>skipped_waiting := q, num_waiting_for_streaming_input :=
      num_waiting_for_streaming_input s + (if awaits_input s i then 1 else 0)\<rparr>"
  have nq: "i \<notin> set (queued s)" using detached_invD(3) [OF inv] i by blast
  have lv: "live s i" by (rule detached_invD(4) [OF inv i])
  have aw: "awaits_input ?s = awaits_input s" by (simp add: awaits_input_def fun_eq_iff)
  have lv': "live ?s = live s" by (simp add: live_def fun_eq_iff)
  show ?thesis
    using inv nq lv st mset_add_facts(1,2) [OF q]
    unfolding detached_inv_def queued_def aw lv' by (auto simp: mset_add_facts(3) [OF q])
qed


text \<open>Taking requests out of their queues.\<close>

lemma detached_inv_detach:
  assumes inv: "detached_inv D s" and R: "\<And>i. i \<in> R \<Longrightarrow> i \<in> set (queued s)"
    and w: "mset w' = filter_mset (\<lambda>i. i \<notin> R) (mset (waiting s))"
    and k: "mset k' = filter_mset (\<lambda>i. i \<notin> R) (mset (skipped_waiting s))"
    and r: "mset r' = filter_mset (\<lambda>i. i \<notin> R) (mset (running s))"
    and n: "n = num_waiting_for_streaming_input s
              - int (length (filter (\<lambda>i. awaits_input s i \<and> i \<in> R) (skipped_waiting s)))"
  shows "detached_inv (D \<union> R)
    (s\<lparr>num_waiting_for_streaming_input := n, running := r', waiting := w', skipped_waiting := k'\<rparr>)"
proof -
  let ?s = "s\<lparr>num_waiting_for_streaming_input := n, running := r', waiting := w', skipped_waiting := k'\<rparr>"
  note sets = mset_remove_facts(1) [OF w] mset_remove_facts(1) [OF k] mset_remove_facts(1) [OF r]
  note dist = mset_remove_facts(2) [OF w] mset_remove_facts(2) [OF k] mset_remove_facts(2) [OF r]
  have aw: "awaits_input ?s = awaits_input s" and lv: "live ?s = live s"
    by (simp_all add: awaits_input_def live_def fun_eq_iff)
  have RL: "live s i" if "i \<in> R" for i using R [OF that] detached_invD(3) [OF inv] by blast
  have split: "length (filter P xs) = length (filter (\<lambda>i. P i \<and> i \<in> R) xs)
      + length (filter (\<lambda>i. P i \<and> i \<notin> R) xs)" for P and xs :: "rid list"
    by (induction xs) auto
  have cnt: "n = int (length (filter (awaits_input s) k'))"
    using detached_invD(8) [OF inv] n split [of "awaits_input s" "skipped_waiting s"]
    by (simp add: mset_remove_facts(3) [OF k])
  have q: "set (queued ?s) = set (queued s) - R"
    using sets by (auto simp: queued_def)
  have dq: "distinct (queued ?s)"
    using detached_invD(2) [OF inv] dist sets by (auto simp: queued_def)
  show ?thesis
    using inv RL cnt dq sets unfolding detached_inv_def aw lv q by auto
qed

lemma preempt_request_inv:
  assumes L: "queue_laws e" and inv: "detached_inv D s" and i: "i \<in> D"
    and ok: "preempt_request e i d s = Ok s'"
  shows "detached_inv (D - {i}) s'"
proof -
  obtain f s1 where s1: "same_queues s s1" "requests s1 = requests s"
    and f: "request_id (f (objs s i)) = request_id (objs s i)" "status (f (objs s i)) = PREEMPTED"
    and s': "same_queues ((upd_req i f s1)\<lparr>waiting := queue_prepend e (objs (upd_req i f s1)) i (waiting s1)\<rparr>) s'"
      "requests s' = requests s1"
  proof
    let ?f = "\<lambda>r. r\<lparr>status := PREEMPTED, num_computed_tokens := 0, spec_token_ids := [],
        drop_stale_output := (d \<or> (drop_stale_output r \<and> num_stale_output_tokens r > 0)),
        num_stale_output_tokens := num_in_flight_tokens r, num_output_placeholders := 0,
        num_preemptions := num_preemptions r + 1\<rparr>"
    let ?s = "free_request_blocks e i s"
    let ?s1 = "?s\<lparr>world := encoder_free e (world ?s) (objs s i),
        inflight_prefills := inflight_prefills ?s - {i}\<rparr>"
    show "same_queues s ?s1" "requests ?s1 = requests s" by (simp_all add: same_queues_def)
    show "request_id (?f (objs s i)) = request_id (objs s i)" "status (?f (objs s i)) = PREEMPTED"
      by simp_all
    show "same_queues ((upd_req i ?f ?s1)\<lparr>waiting := queue_prepend e (objs (upd_req i ?f ?s1)) i (waiting ?s1)\<rparr>) s'"
      "requests s' = requests ?s1"
      using ok by (auto simp: preempt_request_def bindE_eq_Inr_iff Let_def same_queues_def)
  qed
  have ob: "objs s1 = objs s" using s1 by (simp add: same_queues_def)
  have inv1: "detached_inv D s1" using detached_inv_cong [OF inv] s1 by blast
  have "i \<in> set (requests s)" using detached_invD(4) [OF inv i] by (simp add: live_def)
  then have "request_id (objs s i) = i" by (rule detached_invD(9) [OF inv])
  then have inv2: "detached_inv D (upd_req i f s1)"
    using f ob by (intro detached_inv_upd [OF inv1 i]) simp_all
  have "detached_inv (D - {i})
     ((upd_req i f s1)\<lparr>waiting := queue_prepend e (objs (upd_req i f s1)) i (waiting s1)\<rparr>)"
    using f ob by (intro detached_inv_to_waiting [OF inv2 i]) (simp_all add: queue_lawsD(2) [OF L])
  from detached_inv_cong [OF this s'(1)] s'(2) show ?thesis by simp
qed

lemma finish_one_inv:
  assumes inv: "detached_inv D s" and i: "i \<in> D" and fs: "is_finished fs"
    and ok: "finish_one e fs i s = Ok s'"
  shows "detached_inv (D - {i}) s'"
proof -
  define f :: "request \<Rightarrow> request" where "f = (\<lambda>r. r\<lparr>status := fs\<rparr>)"
  obtain s1 d p where s1: "same_queues s s1" "requests s1 = requests s"
    and fr: "free_request e i d (upd_req i f s1) = Ok (p, s')"
  proof (cases "status (objs s i) = WAITING_FOR_REMOTE_KVS")
    case False
    then obtain p where "free_request e i False (upd_req i f s) = Ok (p, s')"
      using ok by (auto simp: finish_one_def bindE_eq_Inr_iff f_def)
    then show ?thesis by (intro that) (simp_all add: same_queues_def)
  next
    case True
    let ?s = "s\<lparr>finished_recving_kv_req_ids := finished_recving_kv_req_ids s - {request_id (objs s i)},
               failed_recving_kv_req_ids := failed_recving_kv_req_ids s - {request_id (objs s i)}\<rparr>"
    from True obtain d p where "free_request e i d (upd_req i f ?s) = Ok (p, s')"
      using ok by (auto simp: finish_one_def bindE_eq_Inr_iff f_def)
    then show ?thesis by (intro that [of ?s]) (simp_all add: same_queues_def)
  qed
  have ob: "objs s1 = objs s" using s1 by (simp add: same_queues_def)
  have inv1: "detached_inv D s1" using detached_inv_cong [OF inv] s1 by blast
  have "i \<in> set (requests s)" using detached_invD(4) [OF inv i] by (simp add: live_def)
  then have "request_id (objs s i) = i" by (rule detached_invD(9) [OF inv])
  then show ?thesis
    using free_request_frame [OF fr] fs ob
    by (intro detached_inv_finish [OF inv1 i, of f]) (auto simp: f_def)
qed

lemma finish_fold_inv:
  assumes "detached_inv D s" and "set is \<subseteq> D" and "distinct is" and "is_finished fs"
    and "foldE (finish_one e fs) is s = Ok s'"
  shows "detached_inv (D - set is) s'"
  using assms
proof (induction "is" arbitrary: D s)
  case (Cons i "is")
  from Cons.prems(5) obtain s1 where s1: "finish_one e fs i s = Ok s1"
    and rest: "foldE (finish_one e fs) is s1 = Ok s'" by (auto simp: bindE_eq_Inr_iff)
  have "detached_inv (D - {i}) s1"
    using finish_one_inv [OF Cons.prems(1) _ Cons.prems(4) s1] Cons.prems(2) by simp
  then have "detached_inv (D - {i} - set is) s'"
    using Cons.prems rest by (intro Cons.IH) auto
  moreover have "D - {i} - set is = D - set (i # is)" by auto
  ultimately show ?case by (simp only:)
qed simp


lemma finish_collect_props:
  assumes "distinct ids"
  shows "distinct (finish_collect s ids)"
    and "i \<in> set (finish_collect s ids) \<longleftrightarrow> i \<in> set ids \<and> live s i"
  using assms by (auto simp: finish_collect_def live_def)

text \<open>The state of \<open>finish_requests\<close> between its two passes.\<close>

definition finish_detached :: "'x env \<Rightarrow> rid list \<Rightarrow> 'x sched \<Rightarrow> 'x sched" where
  "finish_detached e valid s =
    (let run = filter (\<lambda>i. status (objs s i) = RUNNING) valid;
         wait = filter (\<lambda>i. status (objs s i) \<noteq> RUNNING) valid;
         streaming = filter (\<lambda>i. status (objs s i) = WAITING_FOR_STREAMING_REQ) valid;
         s = s\<lparr>num_waiting_for_streaming_input :=
                num_waiting_for_streaming_input s - int (length streaming)\<rparr>;
         s = (if run = [] then s else s\<lparr>running := remove_all e (running s) (set run)\<rparr>)
     in (if wait = [] then s
         else s\<lparr>waiting := queue_remove e (objs s) (set wait) (waiting s),
                skipped_waiting := queue_remove e (objs s) (set wait) (skipped_waiting s)\<rparr>))"

lemma finish_requests_alt:
  "finish_requests e ids fs s =
    bindE (assertE (is_finished fs)) (\<lambda>_.
    let valid = finish_collect s (or_default (requests s) ids)
    in bindE (foldE (finish_one e fs) valid (finish_detached e valid s)) (\<lambda>s. Ok (valid, s)))"
  by (simp add: finish_requests_def finish_detached_def Let_def)

lemma finish_detached_inv:
  assumes L: "queue_laws e" and inv: "sched_inv s"
    and V: "distinct valid" "\<And>i. i \<in> set valid \<Longrightarrow> live s i"
  shows "detached_inv (set valid) (finish_detached e valid s)"
proof -
  define run where "run = filter (\<lambda>i. status (objs s i) = RUNNING) valid"
  define wait where "wait = filter (\<lambda>i. status (objs s i) \<noteq> RUNNING) valid"
  define r' where "r' = (if run = [] then running s else remove_all e (running s) (set run))"
  define w' where "w' = (if wait = [] then waiting s else queue_remove e (objs s) (set wait) (waiting s))"
  define k' where "k' = (if wait = [] then skipped_waiting s
      else queue_remove e (objs s) (set wait) (skipped_waiting s))"
  define n where "n = num_waiting_for_streaming_input s - int (length (filter (awaits_input s) valid))"
  have st: "\<And>i. i \<in> set (running s) \<Longrightarrow> i \<in> set run \<longleftrightarrow> i \<in> set valid"
    "\<And>i. i \<in> set (waiting s) \<Longrightarrow> i \<in> set wait \<longleftrightarrow> i \<in> set valid"
    "\<And>i. i \<in> set (skipped_waiting s) \<Longrightarrow> i \<in> set wait \<longleftrightarrow> i \<in> set valid"
    using detached_invD(5-7) [OF inv] by (fastforce simp: run_def wait_def)+
  have fm: "filter_mset (\<lambda>i. i \<notin> A) (mset xs) = filter_mset (\<lambda>i. i \<notin> B) (mset xs)"
    if "\<And>i. i \<in> set xs \<Longrightarrow> i \<in> A \<longleftrightarrow> i \<in> B" for A B and xs :: "rid list"
    using that by (intro filter_mset_cong) auto
  have keep: "filter_mset (\<lambda>i. i \<notin> set []) M = M" for M :: "rid multiset" by simp
  have r: "mset r' = filter_mset (\<lambda>i. i \<notin> set valid) (mset (running s))"
    using fm [OF st(1)] queue_lawsD(4) [OF L] keep [of "mset (running s)"]
    by (cases "run = []") (simp_all add: r'_def)
  have w: "mset w' = filter_mset (\<lambda>i. i \<notin> set valid) (mset (waiting s))"
    using fm [OF st(2)] queue_lawsD(3) [OF L] keep [of "mset (waiting s)"]
    by (cases "wait = []") (simp_all add: w'_def)
  have k: "mset k' = filter_mset (\<lambda>i. i \<notin> set valid) (mset (skipped_waiting s))"
    using fm [OF st(3)] queue_lawsD(3) [OF L] keep [of "mset (skipped_waiting s)"]
    by (cases "wait = []") (simp_all add: k'_def)
  have inq: "i \<in> set (queued s)" if "i \<in> set valid" for i
    using V(2) [OF that] detached_invD(3) [OF inv] by simp
  have "set (filter (awaits_input s) valid)
      = set (filter (\<lambda>i. awaits_input s i \<and> i \<in> set valid) (skipped_waiting s))"
    using inq detached_invD(5,7) [OF inv] by (fastforce simp: awaits_input_def queued_def)
  moreover have "distinct (skipped_waiting s)" using detached_invD(2) [OF inv] by (simp add: queued_def)
  ultimately have cnt: "length (filter (awaits_input s) valid)
      = length (filter (\<lambda>i. awaits_input s i \<and> i \<in> set valid) (skipped_waiting s))"
    using V(1) by (metis distinct_card distinct_filter)
  have "detached_inv ({} \<union> set valid)
    (s\<lparr>num_waiting_for_streaming_input := n, running := r', waiting := w', skipped_waiting := k'\<rparr>)"
    using inq cnt by (intro detached_inv_detach [OF inv _ w k r]) (simp_all add: n_def)
  moreover have "finish_detached e valid s =
    s\<lparr>num_waiting_for_streaming_input := n, running := r', waiting := w', skipped_waiting := k'\<rparr>"
    by (simp add: finish_detached_def Let_def n_def r'_def w'_def k'_def run_def wait_def
        awaits_input_def [abs_def])
  ultimately show ?thesis by simp
qed

lemma finish_requests_inv:
  assumes L: "queue_laws e" and inv: "sched_inv s" and d: "distinct (or_default (requests s) ids)"
    and ok: "finish_requests e ids fs s = Ok (valid, s')"
  shows "sched_inv s'"
proof -
  from ok have fs: "is_finished fs" and valid: "valid = finish_collect s (or_default (requests s) ids)"
    and fold: "foldE (finish_one e fs) valid (finish_detached e valid s) = Ok s'"
    by (auto simp: finish_requests_alt bindE_eq_Inr_iff Let_def)
  have V: "distinct valid" "\<And>i. i \<in> set valid \<Longrightarrow> live s i"
    using finish_collect_props [OF d] by (auto simp: valid)
  from finish_fold_inv [OF finish_detached_inv [OF L inv V] subset_refl V(1) fs fold]
  show ?thesis by simp
qed

text \<open>A session continues with its next input.\<close>

lemma update_session_effect:
  assumes L: "request_laws e" and ok: "update_request_as_session e i u s = Ok s'"
  shows "\<exists>f. status (f (objs s i)) = WAITING \<and> request_id (f (objs s i)) = request_id (objs s i)
    \<and> s' = (upd_req i f s)\<lparr>num_waiting_for_streaming_input :=
         num_waiting_for_streaming_input s - (if awaits_input s i then 1 else 0)\<rparr>"
proof -
  have h: "update_block_hashes e r = r" for r using L by (simp add: request_laws_def)
  obtain prompt where p: "prompt_token_ids (objs s i) = Some prompt"
    using ok by (auto simp: update_request_as_session_def Let_def split: option.splits)
  show ?thesis
    using ok
    by (auto simp: update_request_as_session_def Let_def p h awaits_input_def upd_req_def
        intro!: exI [of _ "\<lambda>_. objs s' i"])
qed


text \<open>Changing the status of a request that stays in the skipped queue.\<close>

lemma skipped_status_inv:
  assumes inv: "sched_inv s" and i: "i \<in> set (skipped_waiting s)"
    and f: "request_id (f (objs s i)) = i" "\<not> is_finished (status (f (objs s i)))"
      "status (f (objs s i)) \<noteq> RUNNING" "status (f (objs s i)) \<noteq> WAITING_FOR_STREAMING_REQ"
    and n: "n = num_waiting_for_streaming_input s - (if awaits_input s i then 1 else 0)"
  shows "sched_inv ((upd_req i f s)\<lparr>num_waiting_for_streaming_input := n\<rparr>)"
proof -
  have d: "distinct (skipped_waiting s)" "i \<notin> set (waiting s)" "i \<notin> set (running s)"
    using detached_invD(2) [OF inv] i by (auto simp: queued_def)
  note keep = mset_without
  from i d(1) obtain ys zs where sk: "skipped_waiting s = ys @ i # zs" and "i \<notin> set ys" "i \<notin> set zs"
    by (auto dest!: split_list)
  let ?k = "ys @ zs"
  have k: "mset ?k = filter_mset (\<lambda>j. j \<notin> {i}) (mset (skipped_waiting s))"
    using keep [OF \<open>i \<notin> set ys\<close>] keep [OF \<open>i \<notin> set zs\<close>] by (simp add: sk)
  have none: "filter (\<lambda>j. P j \<and> j = i) xs = []" if "i \<notin> set xs" for P and xs :: "rid list"
    using that by (induction xs) auto
  have one: "length (filter (\<lambda>j. P j \<and> j \<in> {i}) (skipped_waiting s)) = (if P i then 1 else 0)" for P
    using none [OF \<open>i \<notin> set ys\<close>] none [OF \<open>i \<notin> set zs\<close>] by (simp add: sk)
  let ?s1 = "s\<lparr>num_waiting_for_streaming_input := n, running := running s, waiting := waiting s,
      skipped_waiting := ?k\<rparr>"
  have inv1: "detached_inv ({} \<union> {i}) ?s1"
    using i n one [of "awaits_input s"]
    by (intro detached_inv_detach [OF inv _ keep [OF d(2), symmetric] k keep [OF d(3), symmetric]])
      (auto simp: queued_def)
  have inv2: "detached_inv ({} \<union> {i}) (upd_req i f ?s1)"
    using f by (intro detached_inv_upd [OF inv1]) simp_all
  have q: "mset (skipped_waiting s) = add_mset i (mset (skipped_waiting (upd_req i f ?s1)))"
    by (simp add: sk)
  have "sched_inv ((upd_req i f ?s1)\<lparr>skipped_waiting := skipped_waiting s,
      num_waiting_for_streaming_input := num_waiting_for_streaming_input (upd_req i f ?s1)
        + (if awaits_input (upd_req i f ?s1) i then 1 else 0)\<rparr>)"
    using detached_inv_to_skipped [OF inv2 _ _ q] f by simp
  then show ?thesis
    using f(4) by (simp add: awaits_input_def upd_req_def)
qed


lemma detached_inv_new:
  assumes inv: "sched_inv s" and i: "i \<notin> set (requests s)"
    and r: "request_id r = i" "\<not> is_finished (status r)" "status r \<noteq> WAITING_FOR_STREAMING_REQ"
  shows "detached_inv {i} (s\<lparr>objs := (objs s)(i := r), requests := requests s @ [i]\<rparr>)"
proof -
  let ?s = "s\<lparr>objs := (objs s)(i := r), requests := requests s @ [i]\<rparr>"
  have nq: "i \<notin> set (queued s)" using i detached_invD(3) [OF inv] by (simp add: live_def)
  then have nq': "i \<notin> set (waiting s)" "i \<notin> set (skipped_waiting s)" "i \<notin> set (running s)"
    by (simp_all add: queued_def)
  have lv: "live ?s j \<longleftrightarrow> live s j \<or> j = i" for j using r i by (auto simp: live_def)
  have aw: "awaits_input ?s j \<longleftrightarrow> awaits_input s j \<and> j \<noteq> i" for j
    using r by (auto simp: awaits_input_def)
  have fl: "filter (awaits_input ?s) (skipped_waiting s) = filter (awaits_input s) (skipped_waiting s)"
    using nq'(2) by (intro filter_cong) (auto simp: aw)
  have sel: "waiting ?s = waiting s" "skipped_waiting ?s = skipped_waiting s" "running ?s = running s"
    "queued ?s = queued s" "requests ?s = requests s @ [i]" "objs ?s = (objs s)(i := r)"
    "num_waiting_for_streaming_input ?s = num_waiting_for_streaming_input s"
    by (simp_all add: queued_def)
  show ?thesis
    using inv nq nq' i r unfolding detached_inv_def sel fl lv aw by auto
qed

lemma enqueue_inv:
  assumes L: "queue_laws e" and inv: "detached_inv D s" and i: "i \<in> D"
    and st: "status (objs s i) \<in> {WAITING, PREEMPTED} \<or> is_blocked_waiting_status (status (objs s i))"
  shows "detached_inv (D - {i}) ((enqueue_waiting_request e i s)\<lparr>num_waiting_for_streaming_input :=
    num_waiting_for_streaming_input s + (if awaits_input s i then 1 else 0)\<rparr>)"
proof (cases "is_blocked_waiting_status (status (objs s i))")
  case True
  then have "status (objs s i) \<noteq> RUNNING" by (auto simp: is_blocked_waiting_status_def)
  from detached_inv_to_skipped [OF inv i this queue_lawsD(1) [OF L, of "objs s" i "skipped_waiting s"]] True
  show ?thesis by (simp add: enqueue_waiting_request_def)
next
  case False
  then have na: "\<not> awaits_input s i" "status (objs s i) \<in> {WAITING, PREEMPTED}"
    using st by (auto simp: is_blocked_waiting_status_def awaits_input_def)
  from detached_inv_to_waiting [OF inv i na(2) queue_lawsD(1) [OF L, of "objs s" i "waiting s"]] False na(1)
  show ?thesis by (simp add: enqueue_waiting_request_def)
qed

lemma add_new_request_inv:
  assumes L: "queue_laws e" and inv: "sched_inv s" and r: "request_id r \<notin> set (requests s)"
    and new: "status r \<in> {WAITING, WAITING_FOR_STRUCTURED_OUTPUT_GRAMMAR}"
    and ok: "add_request e r s = Ok s'"
  shows "sched_inv s'"
proof -
  define i where "i = request_id r"
  define r' where "r' = (if resumable r then r\<lparr>streaming_queue := Some []\<rparr> else r)"
  let ?s = "s\<lparr>objs := (objs s)(i := r'), requests := requests s @ [i]\<rparr>"
  have r': "status r' = status r" "request_id r' = i" by (simp_all add: r'_def i_def)
  have inv1: "detached_inv {i} ?s"
    using r new r' by (intro detached_inv_new [OF inv]) (auto simp: i_def)
  have "status (objs ?s i) \<in> {WAITING, PREEMPTED} \<or> is_blocked_waiting_status (status (objs ?s i))"
    using new by (auto simp: r' is_blocked_waiting_status_def)
  from enqueue_inv [OF L inv1 _ this] new
  have q: "sched_inv (enqueue_waiting_request e i ?s)"
    by (auto simp: awaits_input_def r' enqueue_waiting_request_def split: if_splits)
  have "same_queues (enqueue_waiting_request e i ?s) s' \<and> requests s' = requests (enqueue_waiting_request e i ?s)"
    using ok r
    by (auto simp: add_request_def Let_def i_def [symmetric] r'_def [symmetric] same_queues_def
        enqueue_waiting_request_def)
  then show ?thesis using detached_inv_cong [OF q] by blast
qed

lemma streaming_queue_inv:
  assumes inv: "sched_inv s" and "\<not> awaits_input s i"
  shows "sched_inv (upd_req i (\<lambda>r. r\<lparr>streaming_queue := q\<rparr>) s)"
proof -
  let ?s = "upd_req i (\<lambda>r. r\<lparr>streaming_queue := q\<rparr>) s"
  have eq: "awaits_input ?s = awaits_input s" "live ?s = live s" "queued ?s = queued s"
    by (auto simp: awaits_input_def live_def queued_def fun_eq_iff)
  show ?thesis using assms unfolding detached_inv_def eq by auto
qed

lemma add_session_input_inv:
  assumes L: "queue_laws e" "request_laws e" and inv: "sched_inv s"
    and i: "request_id r \<in> set (requests s)" "request_id r = i" and aw: "awaits_input s i"
    and ok: "add_request e r s = Ok s'"
  shows "sched_inv s'"
proof (cases "from_request e r")
  case None
  then obtain valid where "finish_requests e (Some [i]) FINISHED_ABORTED s = Ok (valid, s')"
    using ok i aw by (auto simp: add_request_def Let_def awaits_input_def bindE_eq_Inr_iff)
  then show ?thesis by (rule finish_requests_inv [OF L(1) inv, rotated]) simp
next
  case (Some u)
  have "i \<in> set (queued s)" using detached_invD(3) [OF inv] i aw by (simp add: live_def awaits_input_def)
  then have sk: "i \<in> set (skipped_waiting s)"
    using detached_invD(5,7) [OF inv, of i] aw by (auto simp: queued_def awaits_input_def)
  have rid: "request_id (objs s i) = i" using i detached_invD(9) [OF inv] by simp
  from Some have "update_request_as_session e i u s = Ok s'"
    using ok i aw by (simp add: add_request_def Let_def awaits_input_def)
  from update_session_effect [OF L(2) this] obtain f where f: "status (f (objs s i)) = WAITING"
    "request_id (f (objs s i)) = request_id (objs s i)"
    "s' = (upd_req i f s)\<lparr>num_waiting_for_streaming_input :=
     num_waiting_for_streaming_input s - (if awaits_input s i then 1 else 0)\<rparr>" by blast
  show ?thesis using f(1,2) rid unfolding f(3) by (intro skipped_status_inv [OF inv sk]) simp_all
qed

lemma add_request_inv:
  assumes L: "queue_laws e" "request_laws e" and inv: "sched_inv s"
    and new: "status r \<in> {WAITING, WAITING_FOR_STRUCTURED_OUTPUT_GRAMMAR}"
    and ok: "add_request e r s = Ok s'"
  shows "sched_inv s'"
proof -
  consider "request_id r \<notin> set (requests s)"
    | "request_id r \<in> set (requests s)" "awaits_input s (request_id r)"
    | "request_id r \<in> set (requests s)" "\<not> awaits_input s (request_id r)" by blast
  then show ?thesis
  proof cases
    case 1 then show ?thesis by (rule add_new_request_inv [OF L(1) inv _ new ok])
  next
    case 2 then show ?thesis using add_session_input_inv [OF L inv _ refl _ ok] by blast
  next
    case 3
    then obtain q where "s' = upd_req (request_id r) (\<lambda>r'. r'\<lparr>streaming_queue := q\<rparr>) s"
      using ok by (auto simp: add_request_def Let_def awaits_input_def split: option.splits)
    then show ?thesis using streaming_queue_inv [OF inv 3(2)] by simp
  qed
qed

subsection \<open>A concrete environment\<close>

text \<open>FIFO queues, a reference-counting block manager and no connector, to evaluate the
  model on.\<close>

record demo_world =
  dw_owned :: "rid \<Rightarrow> block list"
  dw_ref :: "block \<Rightarrow> nat"

definition demo_release :: "block list \<Rightarrow> demo_world \<Rightarrow> demo_world" where
  "demo_release bs w = w\<lparr>dw_ref := (\<lambda>b. dw_ref w b - count_list bs b)\<rparr>"

definition demo_pop :: "demo_world \<Rightarrow> request \<Rightarrow> block list \<times> demo_world" where
  "demo_pop w r = (dw_owned w (request_id r), w\<lparr>dw_owned := (dw_owned w)(request_id r := [])\<rparr>)"

definition demo_env :: "demo_world env" where
  "demo_env = \<lparr>
    defer_block_free = True, policy = FCFS, max_model_len = 4, block_size = 2,
    needs_kv_cache_zeroing = False, recompute_kv_load_failures = True, is_mm_encoder_only = False,
    num_sampled_tokens_per_step = 1, routed_experts_gid = None, has_connector = False,
    has_ec_connector = False, is_kv_producer = None, supports_hma = False, num_kv_cache_groups = 1,
    is_encoder_decoder = False, num_prefill_lookahead = 0, set_order = sorted_list_of_set,
    queue_add = (\<lambda>ob i q. q @ [i]), queue_prepend = (\<lambda>ob i q. i # q),
    queue_remove = (\<lambda>ob R q. filter (\<lambda>i. i \<notin> R) q), queue_peek = (\<lambda>ob q. hd q),
    request_less = (\<lambda>a b. False), remove_all = (\<lambda>q R. filter (\<lambda>i. i \<notin> R) q),
    kv_free = (\<lambda>w r. demo_release (dw_owned w (request_id r)) (snd (demo_pop w r))),
    kv_pop_blocks_for_free = demo_pop, pool_free_blocks = (\<lambda>w bs. demo_release bs w),
    kv_cache_blocks = (\<lambda>w r n. w), kv_record_blocks_for_zeroing = (\<lambda>w i n. w),
    kv_get_block_ids = (\<lambda>w i. [dw_owned w i]), kv_reset_prefix_cache = (\<lambda>w. (True, w)),
    kv_evict_blocks = (\<lambda>w bs. w), kv_finalize_partial_tail_offloads = (\<lambda>w r. ([], w)),
    kv_remove_skipped_blocks = (\<lambda>w i p n. w), kv_block_ids_for_computed = (\<lambda>w i n. [dw_owned w i]),
    encoder_free = (\<lambda>w r. w), encoder_cached_input_ids = (\<lambda>w r. []), encoder_free_input = (\<lambda>w r k. w),
    connector_new_request = (\<lambda>w r. w), connector_register_tail = (\<lambda>w r b t. (False, w)),
    connector_request_finished = (\<lambda>w r b. ((False, None), w)),
    connector_request_finished_all_groups = (\<lambda>w r b. ((False, None), w)),
    connector_update = (\<lambda>w a b. w), connector_reset_cache = (\<lambda>w. (None, w)),
    connector_pending_push = (\<lambda>w. False), ec_request_finished = (\<lambda>w r. ((False, None), w)),
    ec_pending_push = (\<lambda>w. False), update_block_hashes = (\<lambda>r. r),
    from_request = (\<lambda>r. if resumable r
       then Some \<lparr>u_mm_features = [], u_prompt_token_ids = prompt_token_ids r, u_arrival_time = arrival_time r,
                  u_sampling_params = sampling_params r\<rparr> else None),
    append_output_token_ids = (\<lambda>r t. r\<lparr>output_token_ids := output_token_ids r @ [t],
       all_token_ids := all_token_ids r @ [t]\<rparr>),
    check_stop = (\<lambda>r n. if num_tokens r \<ge> n then (True, r\<lparr>status := FINISHED_OTHER 0\<rparr>) else (False, r)),
    finished_reason = (\<lambda>st. Some ''length''), structured_grammar = (\<lambda>w i. Grammar_Pending),
    should_advance = (\<lambda>w r ts. False), grammar_validate = (\<lambda>w i ts. ts), trim_reasoning = (\<lambda>w r ts. ts),
    grammar_accept = (\<lambda>w i ts. (True, w))\<rparr>"

lemma demo_env_laws: "queue_laws demo_env" "request_laws demo_env"
  by (auto simp: queue_laws_def request_laws_def demo_env_def intro: exI [of _ "FINISHED_OTHER 0"])

definition demo_request :: "rid \<Rightarrow> bool \<Rightarrow> request" where
  "demo_request i res = \<lparr>request_id = i, status = WAITING, prompt_token_ids = Some [7, 8, 9],
    all_token_ids = [7, 8, 9], output_token_ids = [], num_prompt_tokens = 3, num_computed_tokens = 0,
    spec_token_ids = [], num_output_placeholders = 0, num_in_flight_tokens = 0,
    num_stale_output_tokens = 0, drop_stale_output = False, num_preemptions = 0, last_sched_seq = 0,
    is_prefill_chunk = False, use_structured_output = False, resumable = res, streaming_queue = None,
    mm_features = [], arrival_time = 0, sampling_params = '''', is_pooling = False, client_index = 0,
    max_tokens = 16, priority = 0, next_decode_eligible_step = 0, shared_prefix_boundary = 0, lora_int_id = None\<rparr>"

end
