(* ===== verification/Sched_Output.thy ===== *)
theory Sched_Output
  imports Scheduler
begin

text \<open>
  What the scheduler does with the output of a step
  (\<open>overlay/vllm/v1/core/sched/scheduler.py\<close>): \<open>update_from_output\<close> with the stop check,
  the accounting of in-flight and stale tokens, the rollback of rejected drafts, failed KV
  loads and finished KV transfers, and the promotion of blocked requests.

  Log lines, statistics, log probabilities, routed experts and the fields of an
  output that are only passed through are left out.
\<close>

subsection \<open>KV transfers\<close>

text \<open>\<open>set.remove\<close> raises on an absent element.\<close>

definition set_remove :: "'a \<Rightarrow> 'a set \<Rightarrow> 'a set res" where
  "set_remove x S = (if x \<in> S then Ok (S - {x}) else Err KeyError)"

definition update_waiting_for_remote_kv :: "'x env \<Rightarrow> rid \<Rightarrow> 'x sched \<Rightarrow> 'x sched res" where
  "update_waiting_for_remote_kv e i s =
    bindE (assertE (has_connector e)) (\<lambda>_.
    let r = objs s i; n = num_computed_tokens r
    in bindE
      (if request_id r \<in> failed_recving_kv_req_ids s
       then
         let w = (if n \<noteq> 0
                  then let w = kv_cache_blocks e (world s) r n
                       in if needs_kv_cache_zeroing e
                          then kv_record_blocks_for_zeroing e w (request_id r) n else w
                  else kv_free e (world s) r)
         in Ok (s\<lparr>world := w,
                  failed_recving_kv_req_ids := failed_recving_kv_req_ids s - {request_id r}\<rparr>)
       else
         let s = s\<lparr>world := kv_cache_blocks e (world s) r n\<rparr>
         in Ok (if n = num_tokens r
                then upd_req i (\<lambda>r. r\<lparr>num_computed_tokens := num_tokens r - 1\<rparr>) s else s)) (\<lambda>s.
    bindE (set_remove (request_id r) (finished_recving_kv_req_ids s)) (\<lambda>S.
    Ok (s\<lparr>finished_recving_kv_req_ids := S\<rparr>))))"

definition try_promote_blocked_waiting_request :: "'x env \<Rightarrow> rid \<Rightarrow> 'x sched \<Rightarrow> (bool \<times> 'x sched) res" where
  "try_promote_blocked_waiting_request e i s =
    (case status (objs s i) of
       WAITING_FOR_REMOTE_KVS \<Rightarrow>
         if request_id (objs s i) \<notin> finished_recving_kv_req_ids s then Ok (False, s)
         else bindE (update_waiting_for_remote_kv e i s) (\<lambda>s.
              Ok (True, upd_req i (\<lambda>r. r\<lparr>status :=
                          if num_preemptions r \<noteq> 0 then PREEMPTED else WAITING\<rparr>) s))
     | WAITING_FOR_STRUCTURED_OUTPUT_GRAMMAR \<Rightarrow>
         (case structured_grammar e (world s) (request_id (objs s i)) of
            Grammar_Pending \<Rightarrow> Ok (False, s)
          | Grammar_Error \<Rightarrow> Ok (False, s\<lparr>grammar_compile_error_reqs :=
                insert (request_id (objs s i)) (grammar_compile_error_reqs s)\<rparr>)
          | Grammar_Ready \<Rightarrow> Ok (True, upd_req i (\<lambda>r. r\<lparr>status := WAITING\<rparr>) s))
     | WAITING_FOR_STREAMING_REQ \<Rightarrow>
         bindE (assertE (streaming_queue (objs s i) \<in> {None, Some []})) (\<lambda>_. Ok (False, s))
     | _ \<Rightarrow> Err AssertionError)"

record kv_connector_output =
  finished_recving :: "rid list"
  finished_sending :: "rid list"
  invalid_block_ids :: "block set"

definition xfer_recving :: "'x env \<Rightarrow> rid \<Rightarrow> 'x sched \<Rightarrow> 'x sched res" where
  "xfer_recving e i s =
    bindE (assertE (i \<in> set (requests s))) (\<lambda>_.
    if status (objs s i) = WAITING_FOR_REMOTE_KVS
    then Ok (s\<lparr>finished_recving_kv_req_ids := insert i (finished_recving_kv_req_ids s)\<rparr>)
    else bindE (assertE (is_finished (status (objs s i)))) (\<lambda>_. free_blocks e i s))"

definition xfer_sending :: "'x env \<Rightarrow> rid \<Rightarrow> 'x sched \<Rightarrow> 'x sched res" where
  "xfer_sending e i s = bindE (assertE (i \<in> set (requests s))) (\<lambda>_. free_blocks e i s)"

definition update_from_kv_xfer_finished ::
  "'x env \<Rightarrow> kv_connector_output \<Rightarrow> 'x sched \<Rightarrow> 'x sched res" where
  "update_from_kv_xfer_finished e out s =
    (let s = (if has_connector e
              then s\<lparr>world := connector_update e (world s) (finished_recving out) (finished_sending out)\<rparr>
              else s)
     in bindE (foldE (xfer_recving e) (finished_recving out) s)
          (foldE (xfer_sending e) (finished_sending out)))"

subsection \<open>Failed KV loads\<close>

text \<open>The state of the scan over the blocks of one request: affected, has marked a block of its
  own, the blocks marked so far, the tokens to recompute, the blocks to evict, and the request's
  \<open>num_computed_tokens\<close>.\<close>

record scan =
  sc_affected :: bool
  sc_own :: bool
  sc_marked :: "block set"
  sc_total :: int
  sc_evict :: "block set"
  sc_computed :: int

definition scan_block ::
  "int \<Rightarrow> block set \<Rightarrow> int \<Rightarrow> bool \<Rightarrow> block list \<Rightarrow> nat \<times> block \<Rightarrow> scan \<Rightarrow> scan" where
  "scan_block bs invalid rc evict_blocks block_ids = (\<lambda>(idx, b) sc.
    if b \<notin> invalid then sc
    else
      let sc = sc\<lparr>sc_affected := True\<rparr>
      in if b \<in> sc_marked sc then sc
         else
           let sc = sc\<lparr>sc_marked := insert b (sc_marked sc)\<rparr>
           in if sc_own sc then sc
              else
                let c = int idx * bs
                in sc\<lparr>sc_own := True, sc_computed := c, sc_total := sc_total sc + (rc - c),
                      sc_evict := (if evict_blocks then sc_evict sc \<union> set (drop idx block_ids)
                                   else sc_evict sc)\<rparr>)"

record 'x invalid_scan =
  is_state :: "'x sched"
  is_affected :: "rid set"
  is_total :: int
  is_evict :: "block set"
  is_marked :: "block set"

definition request_scan ::
  "'x env \<Rightarrow> block set \<Rightarrow> bool \<Rightarrow> request \<Rightarrow> int \<Rightarrow> block list \<Rightarrow> 'x invalid_scan \<Rightarrow> scan" where
  "request_scan e invalid evict_blocks r rc block_ids a =
    (let n = (rc + block_size e - 1) div block_size e
     in fold (scan_block (block_size e) invalid rc evict_blocks block_ids)
          (enumerate 0 (take (nat n) block_ids))
          \<lparr>sc_affected = False, sc_own = False, sc_marked = is_marked a, sc_total = is_total a,
           sc_evict = is_evict a, sc_computed = num_computed_tokens r\<rparr>)"

definition invalid_step ::
  "'x env \<Rightarrow> block set \<Rightarrow> (rid, int) dict \<Rightarrow> bool \<Rightarrow> rid \<Rightarrow> 'x invalid_scan \<Rightarrow> 'x invalid_scan res" where
  "invalid_step e invalid num_scheduled evict_blocks i a =
    (let s = is_state a; r = objs s i
     in case kv_get_block_ids e (world s) (request_id r) of
       [block_ids] \<Rightarrow>
         (let rc = num_computed_tokens r - or_default 0 (dict_get num_scheduled (request_id r));
              sc = request_scan e invalid evict_blocks r rc block_ids a;
              shared = (sc_affected sc \<and> \<not> sc_own sc);
              total = (if shared then sc_total sc + (sc_computed sc - rc) else sc_total sc);
              c = (if shared then rc else sc_computed sc)
          in Ok \<lparr>is_state = upd_req i (\<lambda>r. r\<lparr>num_computed_tokens := c\<rparr>) s,
                 is_affected = (if sc_affected sc then insert (request_id r) (is_affected a) else is_affected a),
                 is_total = total, is_evict = sc_evict sc, is_marked = sc_marked sc\<rparr>)
     | _ \<Rightarrow> Err ValueError)"

definition update_requests_with_invalid_blocks ::
  "'x env \<Rightarrow> rid list \<Rightarrow> block set \<Rightarrow> (rid, int) dict \<Rightarrow> bool \<Rightarrow> 'x sched \<Rightarrow> 'x invalid_scan res" where
  "update_requests_with_invalid_blocks e reqs invalid num_scheduled evict_blocks s =
    foldE (invalid_step e invalid num_scheduled evict_blocks) reqs
      \<lparr>is_state = s, is_affected = {}, is_total = 0, is_evict = {}, is_marked = {}\<rparr>"

definition handle_invalid_blocks ::
  "'x env \<Rightarrow> block set \<Rightarrow> (rid, int) dict \<Rightarrow> 'x sched \<Rightarrow> (rid set \<times> 'x sched) res" where
  "handle_invalid_blocks e invalid num_scheduled s =
    bindE (update_requests_with_invalid_blocks e
             (filter (\<lambda>i. status (objs s i) = WAITING_FOR_REMOTE_KVS) (skipped_waiting s))
             invalid num_scheduled False s) (\<lambda>a.
    bindE (update_requests_with_invalid_blocks e (running (is_state a)) invalid num_scheduled True
             (is_state a)) (\<lambda>b.
    let s = is_state b
    in if is_affected a = {} \<and> is_affected b = {} then Ok ({}, s)
       else
         let s = (if is_evict b \<noteq> {} \<and> \<not> recompute_kv_load_failures e
                  then s\<lparr>world := kv_evict_blocks e (world s) (is_evict b)\<rparr> else s)
         in if \<not> recompute_kv_load_failures e then Ok (is_affected a \<union> is_affected b, s)
            else Ok (is_affected b,
                     s\<lparr>failed_recving_kv_req_ids := failed_recving_kv_req_ids s \<union> is_affected a\<rparr>)))"


subsection \<open>The output of a step\<close>

record scheduler_output =
  num_scheduled_tokens :: "(rid, int) dict"
  total_num_scheduled_tokens :: int
  scheduled_spec_decode_tokens :: "(rid, int list) dict"
  has_structured_output_requests :: bool

text \<open>\<open>_update_after_schedule\<close>: the scheduled tokens count as computed and in flight, and the
  step is recorded as the last one that writes the request's blocks.\<close>

definition after_schedule_step ::
  "'x env \<Rightarrow> rid \<times> int \<Rightarrow> bool \<times> 'x sched \<Rightarrow> (bool \<times> 'x sched) res" where
  "after_schedule_step e = (\<lambda>(i, n) (structured, s).
    if i \<notin> set (requests s) then Err KeyError
    else
      let s = upd_req i (\<lambda>r.
                let r = r\<lparr>num_computed_tokens := num_computed_tokens r + n,
                          num_in_flight_tokens := num_in_flight_tokens r + n\<rparr>;
                    r = (if defer_block_free e then r\<lparr>last_sched_seq := sched_step_seq s\<rparr> else r)
                in r\<lparr>is_prefill_chunk :=
                       num_computed_tokens r < num_tokens r + num_output_placeholders r\<rparr>) s;
          r = objs s i
      in Ok (structured \<or> (use_structured_output r \<and> \<not> is_prefill_chunk r),
             if is_prefill_chunk r then s
             else s\<lparr>inflight_prefills := inflight_prefills s - {i}\<rparr>))"

text \<open>\<open>get_block_ids()[gid]\<close> of every scheduled request, when routed experts are returned.\<close>

definition snapshot_block_ids :: "'x env \<Rightarrow> nat \<Rightarrow> rid \<Rightarrow> (rid, int list) dict \<times> 'x
    \<Rightarrow> ((rid, int list) dict \<times> 'x) res" where
  "snapshot_block_ids e gid i = (\<lambda>(d, w).
    bindE (py_index (kv_get_block_ids e w i) (int gid)) (\<lambda>bs. Ok (dict_set i bs d, w)))"

definition update_after_schedule ::
  "'x env \<Rightarrow> scheduler_output \<Rightarrow> 'x sched \<Rightarrow> (scheduler_output \<times> 'x sched) res" where
  "update_after_schedule e so s =
    bindE (foldE (after_schedule_step e) (num_scheduled_tokens so)
             (has_structured_output_requests so, s)) (\<lambda>(structured, s).
    bindE (case routed_experts_gid e of None \<Rightarrow> Ok s
           | Some gid \<Rightarrow> bindE (foldE (snapshot_block_ids e gid) (dict_keys (num_scheduled_tokens so))
                                  (re_block_ids s, world s)) (\<lambda>(d, w). Ok (s\<lparr>re_block_ids := d\<rparr>))) (\<lambda>s.
    Ok (so\<lparr>has_structured_output_requests := structured\<rparr>,
        s\<lparr>finished_req_ids := {}, reset_preempted_req_ids := {}\<rparr>)))"

text \<open>The end of \<open>schedule()\<close>: a non-empty step advances the fence.\<close>

definition schedule_tail ::
  "'x env \<Rightarrow> scheduler_output \<Rightarrow> 'x sched \<Rightarrow> (scheduler_output \<times> 'x sched) res" where
  "schedule_tail e so s =
    update_after_schedule e so
      (if defer_block_free e \<and> total_num_scheduled_tokens so > 0
       then s\<lparr>sched_step_seq := sched_step_seq s + 1\<rparr> else s)"

text \<open>An empty \<open>sampled_token_ids\<close> or \<open>pooler_output\<close> is falsy, like an absent one;
  \<open>prompt_logprobs\<close> are the requests with prompt log probabilities.\<close>

record model_runner_output =
  sampled_token_ids :: "int list list"
  req_id_to_index :: "(rid, int) dict"
  pooler_output :: "string option list"
  prompt_logprobs :: "rid set"
  kv_output :: "kv_connector_output option"

record engine_core_output =
  out_request_id :: rid
  out_new_token_ids :: "int list"
  out_finish_reason :: "string option"
  out_pooling_output :: "string option"
  out_kv_transfer_params :: "string option"
  out_ec_transfer_params :: "string option"

record 'x out_acc =
  oa_state :: "'x sched"
  oa_stopped_running :: "rid set"
  oa_stopped_preempted :: "rid set"
  oa_outputs :: "(int, engine_core_output list) dict"

definition emit :: "int \<Rightarrow> engine_core_output \<Rightarrow> (int, engine_core_output list) dict
    \<Rightarrow> (int, engine_core_output list) dict" where
  "emit c out d = dict_set c (or_default [] (dict_get d c) @ [out]) d"

text \<open>The head of the loop body: in-flight tokens and the stale share drain together.\<close>

definition drain_tokens :: "'x sched \<Rightarrow> rid \<Rightarrow> int \<Rightarrow> (bool \<times> 'x sched) res" where
  "drain_tokens s i n =
    (if i \<notin> set (requests s) then Ok (False, s)
     else
       let s = upd_req i (\<lambda>r. r\<lparr>num_in_flight_tokens := num_in_flight_tokens r - n\<rparr>) s
       in if num_stale_output_tokens (objs s i) > 0
          then let s = upd_req i (\<lambda>r. r\<lparr>num_stale_output_tokens := num_stale_output_tokens r - n\<rparr>) s
               in bindE (assertE (num_stale_output_tokens (objs s i) \<ge> 0)) (\<lambda>_. Ok (True, s))
          else Ok (False, s))"

text \<open>Drafts the model rejected are taken back from the computed tokens.\<close>

definition roll_back_rejected :: "'x env \<Rightarrow> int list option \<Rightarrow> int list \<Rightarrow> bool \<Rightarrow> request \<Rightarrow> request" where
  "roll_back_rejected e spec generated is_stale r =
    (case spec of
       Some (t # ts) \<Rightarrow>
         if generated \<noteq> [] \<or> num_sampled_tokens_per_step e = 0
         then
           let num_draft = int (length (t # ts));
               num_accepted = max (int (length generated) - num_sampled_tokens_per_step e) 0;
               num_rejected = num_draft - num_accepted
           in if is_stale then r
              else
                let r = (if num_computed_tokens r > 0
                         then r\<lparr>num_computed_tokens := num_computed_tokens r - num_rejected\<rparr> else r)
                in (if num_output_placeholders r > 0
                    then r\<lparr>num_output_placeholders := num_output_placeholders r - num_rejected\<rparr> else r)
         else r
     | _ \<Rightarrow> r)"

text \<open>\<open>_free_encoder_inputs\<close>.\<close>

definition free_encoder_input_step :: "'x env \<Rightarrow> request \<Rightarrow> nat \<Rightarrow> 'x \<Rightarrow> 'x res" where
  "free_encoder_input_step e r k w =
    bindE (py_index (mm_features r) (int k)) (\<lambda>f.
    if is_encoder_decoder e \<and> num_computed_tokens r > 0 then Ok (encoder_free_input e w r k)
    else if mm_offset f + mm_length f + num_prefill_lookahead e
              \<le> num_computed_tokens r - num_output_placeholders r
    then Ok (encoder_free_input e w r k)
    else Ok w)"

definition free_encoder_inputs :: "'x env \<Rightarrow> rid \<Rightarrow> 'x sched \<Rightarrow> 'x sched res" where
  "free_encoder_inputs e i s =
    (let r = objs s i
     in bindE (foldE (free_encoder_input_step e r) (encoder_cached_input_ids e (world s) r) (world s))
          (\<lambda>w. Ok (s\<lparr>world := w\<rparr>)))"

text \<open>The stop check of one request: its new tokens, whether it stopped, the new object.\<close>

definition stop_check ::
  "'x env \<Rightarrow> string option \<Rightarrow> int list \<Rightarrow> request \<Rightarrow> request \<times> int list \<times> bool" where
  "stop_check e pooled generated r =
    (if generated \<noteq> [] then update_request_with_output e r generated
     else if is_pooling r \<and> pooled \<noteq> None then (r\<lparr>status := FINISHED_STOPPED\<rparr>, [], True)
     else if is_mm_encoder_only e \<and> num_computed_tokens r \<ge> num_prompt_tokens r
     then (r\<lparr>status := FINISHED_STOPPED\<rparr>, [], True)
     else (r, [], False))"

definition advance_grammar ::
  "'x env \<Rightarrow> int list \<Rightarrow> 'x \<Rightarrow> request \<times> bool \<Rightarrow> ((request \<times> bool) \<times> 'x) res" where
  "advance_grammar e new_tokens w = (\<lambda>(r, stopped).
    if new_tokens \<noteq> [] \<and> should_advance e w r (Some new_tokens)
    then bindE (assertE (structured_grammar e w (request_id r) = Grammar_Ready)) (\<lambda>_.
      let toks = trim_reasoning e w r new_tokens
      in if toks = [] then Ok ((r, stopped), w)
         else let (ok, w) = grammar_accept e w (request_id r) toks
              in Ok (if ok then (r, stopped)
                     else (r\<lparr>status := FINISHED_ERROR, resumable := False\<rparr>, True), w))
    else Ok ((r, stopped), w))"

definition handle_stop ::
  "'x env \<Rightarrow> rid \<Rightarrow> bool \<Rightarrow> 'x out_acc
    \<Rightarrow> ((string option \<times> string option \<times> string option) \<times> 'x out_acc) res" where
  "handle_stop e i was_running a =
    (let reason = finished_reason e (status (objs (oa_state a) i))
     in bindE (handle_stopped_request e i (oa_state a)) (\<lambda>(finished, s).
        bindE (if finished then free_request e i False s else Ok ((None, None), s)) (\<lambda>((kvp, ecp), s).
        Ok ((reason, kvp, ecp),
          (if was_running
           then a\<lparr>oa_state := s, oa_stopped_running := insert i (oa_stopped_running a)\<rparr>
           else a\<lparr>oa_state := s, oa_stopped_preempted := insert i (oa_stopped_preempted a)\<rparr>)))))"

definition settle_output ::
  "'x env \<Rightarrow> model_runner_output \<Rightarrow> int list \<Rightarrow> string option \<Rightarrow> rid \<Rightarrow> 'x out_acc \<Rightarrow> 'x out_acc res" where
  "settle_output e mo generated pooled i a =
    (let s = oa_state a;
         was_running = (status (objs s i) = RUNNING);
         (r, new_tokens, stopped) = stop_check e pooled generated (objs s i)
     in bindE (advance_grammar e new_tokens (world s) (r, stopped)) (\<lambda>((r, stopped), w).
        let s = (upd_req i (\<lambda>_. r) s)\<lparr>world := w\<rparr>;
            should_emit = (new_tokens \<noteq> [] \<or> pooled \<noteq> None \<or> stopped)
        in bindE (if stopped then handle_stop e i was_running (a\<lparr>oa_state := s\<rparr>)
                  else Ok ((None, None, None), a\<lparr>oa_state := s\<rparr>)) (\<lambda>((reason, kvp, ecp), a).
        if should_emit
        then Ok (a\<lparr>oa_outputs := emit (client_index (objs (oa_state a) i))
                   \<lparr>out_request_id = i, out_new_token_ids = new_tokens, out_finish_reason = reason,
                    out_pooling_output = pooled, out_kv_transfer_params = kvp,
                    out_ec_transfer_params = ecp\<rparr> (oa_outputs a)\<rparr>)
        else bindE (assertE (i \<notin> prompt_logprobs mo)) (\<lambda>_. Ok a))))"

definition deliver_output ::
  "'x env \<Rightarrow> model_runner_output \<Rightarrow> int list option \<Rightarrow> bool \<Rightarrow> rid \<Rightarrow> 'x out_acc \<Rightarrow> 'x out_acc res" where
  "deliver_output e mo spec is_stale i a =
    bindE (case dict_get (req_id_to_index mo) i of None \<Rightarrow> Err KeyError | Some k \<Rightarrow> Ok k) (\<lambda>k.
    bindE (if sampled_token_ids mo = [] then Ok [] else py_index (sampled_token_ids mo) k) (\<lambda>generated.
    let s = upd_req i (roll_back_rejected e spec generated is_stale) (oa_state a)
    in bindE (if mm_features (objs s i) \<noteq> [] then free_encoder_inputs e i s else Ok s) (\<lambda>s.
    bindE (if pooler_output mo = [] then Ok None else py_index (pooler_output mo) k) (\<lambda>pooled.
    settle_output e mo generated pooled i (a\<lparr>oa_state := s\<rparr>)))))"

definition output_step ::
  "'x env \<Rightarrow> scheduler_output \<Rightarrow> model_runner_output \<Rightarrow> rid set \<Rightarrow> rid \<times> int \<Rightarrow> 'x out_acc
    \<Rightarrow> 'x out_acc res" where
  "output_step e so mo failed = (\<lambda>(i, n) a.
    bindE (assertE (n > 0)) (\<lambda>_.
    bindE (drain_tokens (oa_state a) i n) (\<lambda>(is_stale, s).
    let a = a\<lparr>oa_state := s\<rparr>
    in if i \<in> failed then Ok a
       else if i \<notin> set (requests s) \<or> is_finished (status (objs s i)) then Ok a
       else if is_stale \<and> drop_stale_output (objs s i) then Ok a
       else deliver_output e mo (dict_get (scheduled_spec_decode_tokens so) i) is_stale i a)))"

text \<open>After the loop: the stopped requests leave the queues, requests with errors are
  finished, KV transfers are settled.\<close>

definition drop_stopped :: "'x env \<Rightarrow> 'x out_acc \<Rightarrow> 'x sched" where
  "drop_stopped e a =
    (let s = oa_state a;
         s = (if oa_stopped_running a = {} then s
              else s\<lparr>running := remove_all e (running s) (oa_stopped_running a)\<rparr>)
     in (if oa_stopped_preempted a = {} then s
         else s\<lparr>waiting := queue_remove e (objs s) (oa_stopped_preempted a) (waiting s),
                skipped_waiting :=
                  queue_remove e (objs s) (oa_stopped_preempted a) (skipped_waiting s)\<rparr>))"

definition output_tail ::
  "'x env \<Rightarrow> model_runner_output \<Rightarrow> rid set \<Rightarrow> 'x out_acc
    \<Rightarrow> ((int, engine_core_output list) dict \<times> 'x sched) res" where
  "output_tail e mo failed a =
    (let s = drop_stopped e a;
         errors = grammar_compile_error_reqs s \<union> (if recompute_kv_load_failures e then {} else failed);
         s = s\<lparr>grammar_compile_error_reqs := {}\<rparr>
     in bindE (if errors = {} then Ok ([], s)
               else finish_requests e (Some (set_order e errors)) FINISHED_ERROR s) (\<lambda>(error_reqs, s).
        let outs = fold (\<lambda>i. emit (client_index (objs s i))
                     \<lparr>out_request_id = request_id (objs s i), out_new_token_ids = [],
                      out_finish_reason = finished_reason e (status (objs s i)),
                      out_pooling_output = None, out_kv_transfer_params = None,
                      out_ec_transfer_params = None\<rparr>) error_reqs (oa_outputs a)
        in bindE (case kv_output mo of None \<Rightarrow> Ok s
                  | Some out \<Rightarrow> update_from_kv_xfer_finished e out s) (\<lambda>s.
        Ok (outs, s))))"

text \<open>The head of \<open>update_from_output\<close> on a non-empty step: the oldest step in flight is done, what
  waited for it goes back to the pool.\<close>

definition process_step :: "'x env \<Rightarrow> 'x sched \<Rightarrow> 'x sched" where
  "process_step e s = drain_deferred_frees e (s\<lparr>processed_step_seq := processed_step_seq s + 1\<rparr>)"

definition update_from_output ::
  "'x env \<Rightarrow> scheduler_output \<Rightarrow> model_runner_output \<Rightarrow> 'x sched
    \<Rightarrow> ((int, engine_core_output list) dict \<times> 'x sched) res" where
  "update_from_output e so mo s =
    (let s = (if defer_block_free e \<and> total_num_scheduled_tokens so > 0
              then process_step e s else s)
     in bindE (case kv_output mo of
                 Some out \<Rightarrow> if invalid_block_ids out \<noteq> {}
                   then handle_invalid_blocks e (invalid_block_ids out) (num_scheduled_tokens so) s
                   else Ok ({}, s)
               | None \<Rightarrow> Ok ({}, s)) (\<lambda>(failed, s).
        bindE (foldE (output_step e so mo failed) (num_scheduled_tokens so)
                 \<lparr>oa_state = s, oa_stopped_running = {}, oa_stopped_preempted = {}, oa_outputs = []\<rparr>)
          (output_tail e mo failed)))"

subsection \<open>Draft tokens\<close>

definition draft_step :: "'x env \<Rightarrow> rid \<times> int list \<Rightarrow> 'x sched \<Rightarrow> 'x sched" where
  "draft_step e = (\<lambda>(i, spec) s.
    if i \<notin> set (requests s) \<or> is_finished (status (objs s i)) then s
    else if is_prefill_chunk (objs s i) then upd_req i (\<lambda>r. r\<lparr>spec_token_ids := []\<rparr>) s
    else
      let spec = (if should_advance e (world s) (objs s i) None
                  then grammar_validate e (world s) i spec else spec)
      in upd_req i (\<lambda>r. r\<lparr>spec_token_ids := spec\<rparr>) s)"

definition update_draft_token_ids :: "'x env \<Rightarrow> (rid \<times> int list) list \<Rightarrow> 'x sched \<Rightarrow> 'x sched" where
  "update_draft_token_ids e drafts s = fold (draft_step e) drafts s"

definition draft_output_step ::
  "'x env \<Rightarrow> 'x sched \<Rightarrow> rid \<times> int list \<Rightarrow> (rid, int list) dict \<times> (rid, int) dict
    \<Rightarrow> (rid, int list) dict \<times> (rid, int) dict" where
  "draft_output_step e s = (\<lambda>(i, spec) (sched_spec, invalid).
    if i \<notin> set (requests s) \<or> is_finished (status (objs s i)) then (sched_spec, invalid)
    else case dict_get sched_spec i of
      Some (p # ps) \<Rightarrow>
        (let orig = length (p # ps);
             spec = take orig spec;
             spec = (if should_advance e (world s) (objs s i) None
                     then grammar_validate e (world s) i spec else spec);
             num_invalid = int orig - int (length spec)
         in if num_invalid \<noteq> 0
            then (dict_set i (spec @ replicate (nat num_invalid) (-1)) sched_spec,
                  dict_set i num_invalid invalid)
            else (dict_set i spec sched_spec, invalid))
    | _ \<Rightarrow> (sched_spec, invalid))"

definition update_draft_token_ids_in_output ::
  "'x env \<Rightarrow> (rid \<times> int list) list \<Rightarrow> 'x sched \<Rightarrow> (rid, int list) dict
    \<Rightarrow> (rid, int list) dict \<times> (rid, int) dict" where
  "update_draft_token_ids_in_output e drafts s sched_spec =
    fold (draft_output_step e s) drafts (sched_spec, [])"


subsection \<open>Every invalid block is recomputed\<close>

lemma scan_fold:
  fixes bl :: "block list" and invalid :: "block set"
  defines "bad k M \<equiv> set (take k bl) \<inter> invalid - M"
  assumes "sc = fold (scan_block bs invalid rc ev ids) (enumerate 0 (take k bl)) sc0" "\<not> sc_own sc0"
    and "k \<le> length bl"
  shows "sc_marked sc = sc_marked sc0 \<union> (set (take k bl) \<inter> invalid)
    \<and> (sc_own sc \<longleftrightarrow> bad k (sc_marked sc0) \<noteq> {})
    \<and> (sc_affected sc \<longleftrightarrow> sc_affected sc0 \<or> set (take k bl) \<inter> invalid \<noteq> {})
    \<and> (\<not> sc_own sc \<longrightarrow> sc_computed sc = sc_computed sc0)
    \<and> (sc_own sc \<longrightarrow> (\<exists>idx < k. bad idx (sc_marked sc0) = {} \<and> sc_computed sc = int idx * bs))"
  using assms(2-)
proof (induction k arbitrary: sc)
  case 0
  then show ?case by (simp add: bad_def)
next
  case (Suc k)
  let ?sc1 = "fold (scan_block bs invalid rc ev ids) (enumerate 0 (take k bl)) sc0"
  have k: "k < length bl" using Suc.prems by simp
  then have "enumerate 0 (take (Suc k) bl) = enumerate 0 (take k bl) @ [(k, bl ! k)]"
    by (simp add: take_Suc_conv_app_nth enumerate_append_eq)
  then have sc: "sc = scan_block bs invalid rc ev ids (k, bl ! k) ?sc1" using Suc.prems(1) by simp
  have set_k: "set (take (Suc k) bl) = insert (bl ! k) (set (take k bl))"
    using k by (simp add: take_Suc_conv_app_nth)
  note IH = Suc.IH [OF refl Suc.prems(2)] 
  have IH': "sc_marked ?sc1 = sc_marked sc0 \<union> (set (take k bl) \<inter> invalid)"
    "sc_own ?sc1 \<longleftrightarrow> bad k (sc_marked sc0) \<noteq> {}"
    "sc_affected ?sc1 \<longleftrightarrow> sc_affected sc0 \<or> set (take k bl) \<inter> invalid \<noteq> {}"
    "\<not> sc_own ?sc1 \<Longrightarrow> sc_computed ?sc1 = sc_computed sc0"
    "sc_own ?sc1 \<Longrightarrow> \<exists>idx < k. bad idx (sc_marked sc0) = {} \<and> sc_computed ?sc1 = int idx * bs"
    using IH k by simp_all
  have ex: "\<exists>idx < Suc k. bad idx (sc_marked sc0) = {} \<and> sc_computed ?sc1 = int idx * bs" if "sc_own ?sc1"
    using IH'(5) [OF that] less_SucI by blast
  have bad_Suc: "bad (Suc k) M = (if bl ! k \<in> invalid - M then insert (bl ! k) (bad k M) else bad k M)" for M
    by (auto simp: bad_def set_k)
  have old: "bad k (sc_marked sc0) \<noteq> {}"
    if "bl ! k \<in> invalid" "bl ! k \<in> sc_marked ?sc1" "bl ! k \<notin> sc_marked sc0"
    using that IH'(1) by (auto simp: bad_def)
  show ?case
  proof (cases "bl ! k \<in> invalid \<and> bl ! k \<notin> sc_marked ?sc1 \<and> \<not> sc_own ?sc1")
    case True
    then have new: "sc_affected sc" "sc_own sc" "sc_marked sc = insert (bl ! k) (sc_marked ?sc1)"
      "sc_computed sc = int k * bs"
      by (simp_all add: sc scan_block_def Let_def)
    have "bad k (sc_marked sc0) = {}" "bl ! k \<notin> sc_marked sc0" using True IH'(1,2) by auto
    then show ?thesis using new True IH'(1) by (auto simp: bad_Suc set_k)
  next
    case False
    then have own: "sc_own sc = sc_own ?sc1" "sc_computed sc = sc_computed ?sc1"
      and aff: "sc_affected sc \<longleftrightarrow> sc_affected ?sc1 \<or> bl ! k \<in> invalid"
      and mk: "sc_marked sc = sc_marked ?sc1 \<union> ({bl ! k} \<inter> invalid)"
      by (auto simp: sc scan_block_def Let_def)
    have "sc_own ?sc1 \<longleftrightarrow> bad (Suc k) (sc_marked sc0) \<noteq> {}"
      using False IH'(1,2) old by (auto simp: bad_Suc)
    moreover have "sc_marked sc = sc_marked sc0 \<union> (set (take (Suc k) bl) \<inter> invalid)"
      unfolding mk IH'(1) set_k by blast
    moreover have "sc_affected sc \<longleftrightarrow> sc_affected sc0 \<or> set (take (Suc k) bl) \<inter> invalid \<noteq> {}"
      unfolding aff IH'(3) set_k by blast
    ultimately show ?thesis using own ex IH'(4) by simp
  qed
qed


lemma block_below:
  assumes "(bs :: int) > 0" and "int idx * bs < rc"
  shows "idx < nat ((rc + bs - 1) div bs)"
proof -
  have "(int idx + 1) * bs \<le> rc + bs - 1" using assms by (simp add: algebra_simps)
  from zdiv_mono1 [OF this assms(1)] have "int idx + 1 \<le> (rc + bs - 1) div bs"
    using assms(1) by simp
  then show ?thesis by linarith
qed

lemma invalid_step_effect:
  assumes bs: "block_size e > 0" and rid: "request_id (objs (is_state a) i) = i"
    and ok: "invalid_step e invalid ns ev i a = Ok a'"
    and rc: "rc = num_computed_tokens (objs (is_state a) i) - or_default 0 (dict_get ns i)"
  obtains bl c where "kv_get_block_ids e (world (is_state a)) i = [bl]"
    "is_state a' = upd_req i (\<lambda>r. r\<lparr>num_computed_tokens := c\<rparr>) (is_state a)"
    "\<And>idx. idx < length bl \<Longrightarrow> bl ! idx \<in> invalid \<Longrightarrow> int idx * block_size e < rc \<Longrightarrow>
       c \<le> int idx * block_size e \<or> bl ! idx \<in> is_marked a"
    "\<And>b. b \<in> is_marked a' \<Longrightarrow> b \<in> is_marked a \<or>
       (\<exists>idx < length bl. bl ! idx = b \<and> c \<le> int idx * block_size e)"
proof -
  obtain bl where bl: "kv_get_block_ids e (world (is_state a)) i = [bl]"
    using ok rid by (auto simp: invalid_step_def Let_def split: list.splits)
  let ?bs = "block_size e" and ?M = "is_marked a"
  define n where "n = nat ((rc + ?bs - 1) div ?bs)"
  define k where "k = min n (length bl)"
  define sc0 where "sc0 = \<lparr>sc_affected = False, sc_own = False, sc_marked = ?M, sc_total = is_total a,
           sc_evict = is_evict a, sc_computed = num_computed_tokens (objs (is_state a) i)\<rparr>"
  define sc where "sc = fold (scan_block ?bs invalid rc ev bl) (enumerate 0 (take k bl)) sc0"
  have "take n bl = take k bl" by (cases "n \<le> length bl") (simp_all add: k_def min_def)
  then have rs: "request_scan e invalid ev (objs (is_state a) i) rc bl a = sc"
    by (simp add: request_scan_def Let_def sc_def sc0_def n_def)
  define c where "c = (if sc_affected sc \<and> \<not> sc_own sc then rc else sc_computed sc)"
  have st: "is_state a' = upd_req i (\<lambda>r. r\<lparr>num_computed_tokens := c\<rparr>) (is_state a)"
    and mk: "is_marked a' = sc_marked sc"
    using ok by (auto simp: invalid_step_def Let_def rid bl rc [symmetric] rs c_def)
  from scan_fold [of sc ?bs invalid rc ev bl k bl sc0, OF sc_def] have S:
    "sc_marked sc = ?M \<union> (set (take k bl) \<inter> invalid)"
    "sc_own sc \<longleftrightarrow> set (take k bl) \<inter> invalid - ?M \<noteq> {}"
    "sc_own sc \<Longrightarrow> \<exists>f < k. set (take f bl) \<inter> invalid - ?M = {} \<and> sc_computed sc = int f * ?bs"
    by (simp_all add: sc0_def k_def)
  show thesis
  proof (cases "sc_own sc")
    case True
    with S(3) obtain f where f: "f < k" "set (take f bl) \<inter> invalid - ?M = {}" "c = int f * ?bs"
      by (auto simp: c_def)
    have below: "bl ! j \<in> ?M" if "j < f" "bl ! j \<in> invalid" for j
    proof -
      have "bl ! j \<in> set (take f bl)" using that(1) f(1) by (auto simp: in_set_conv_nth k_def intro!: exI [of _ j])
      then show ?thesis using f(2) that(2) by blast
    qed
    show ?thesis
    proof (rule that [OF bl st])
      fix idx assume "idx < length bl" "bl ! idx \<in> invalid"
      then show "c \<le> int idx * ?bs \<or> bl ! idx \<in> ?M" using below [of idx] bs f(3) by (cases "idx < f") auto
    next
      fix b assume "b \<in> is_marked a'"
      then consider "b \<in> ?M" | j where "j < k" "b = bl ! j" "b \<in> invalid"
        unfolding mk S(1) by (auto simp: in_set_conv_nth k_def)
      then show "b \<in> ?M \<or> (\<exists>idx < length bl. bl ! idx = b \<and> c \<le> int idx * ?bs)"
      proof cases
        case 2
        then show ?thesis using below [of j] bs f(3) by (cases "j < f") (auto simp: k_def)
      qed simp
    qed
  next
    case False
    then have sub: "set (take k bl) \<inter> invalid \<subseteq> ?M" using S(2) by blast
    show ?thesis
    proof (rule that [OF bl st])
      fix idx assume i: "idx < length bl" "bl ! idx \<in> invalid" "int idx * ?bs < rc"
      then have "idx < k" using block_below [OF bs i(3)] by (simp add: k_def n_def)
      then have "bl ! idx \<in> set (take k bl)" by (auto simp: in_set_conv_nth k_def intro!: exI [of _ idx])
      then show "c \<le> int idx * ?bs \<or> bl ! idx \<in> ?M" using sub i(2) by blast
    next
      fix b assume "b \<in> is_marked a'"
      then show "b \<in> ?M \<or> (\<exists>idx < length bl. bl ! idx = b \<and> c \<le> int idx * ?bs)"
        unfolding mk S(1) using sub by blast
    qed
  qed
qed


text \<open>Request \<open>j\<close> will compute block \<open>b\<close> again: it holds the block at a position its computed
  tokens do not reach.\<close>

definition recomputes :: "'x env \<Rightarrow> 'x \<Rightarrow> 'x sched \<Rightarrow> rid \<Rightarrow> block \<Rightarrow> bool" where
  "recomputes e w s j b \<longleftrightarrow>
    (\<exists>bl idx. kv_get_block_ids e w j = [bl] \<and> idx < length bl \<and> bl ! idx = b
       \<and> num_computed_tokens (objs s j) \<le> int idx * block_size e)"

definition scan_inv :: "'x env \<Rightarrow> 'x sched \<Rightarrow> rid list \<Rightarrow> 'x invalid_scan \<Rightarrow> bool" where
  "scan_inv e s done a \<longleftrightarrow>
    world (is_state a) = world s
    \<and> (\<forall>j. j \<notin> set done \<longrightarrow> objs (is_state a) j = objs s j)
    \<and> (\<forall>b\<in>is_marked a. \<exists>j\<in>set done. recomputes e (world s) (is_state a) j b)"

lemma scan_inv_step:
  assumes bs: "block_size e > 0" and inv: "scan_inv e s done a" and i: "i \<notin> set done"
    and rid: "request_id (objs s i) = i" and ok: "invalid_step e invalid ns ev i a = Ok a'"
  shows "scan_inv e s (done @ [i]) a'"
    and "\<And>bl idx. kv_get_block_ids e (world s) i = [bl] \<Longrightarrow> idx < length bl \<Longrightarrow> bl ! idx \<in> invalid \<Longrightarrow>
       int idx * block_size e < num_computed_tokens (objs s i) - or_default 0 (dict_get ns i) \<Longrightarrow>
       num_computed_tokens (objs (is_state a') i) \<le> int idx * block_size e
       \<or> (\<exists>j\<in>set done. recomputes e (world s) (is_state a') j (bl ! idx))"
proof -
  have w: "world (is_state a) = world s" and ob: "objs (is_state a) i = objs s i"
    using inv i by (simp_all add: scan_inv_def)
  have ra: "request_id (objs (is_state a) i) = i" using rid ob by simp
  obtain bl c where bl: "kv_get_block_ids e (world (is_state a)) i = [bl]"
    and st: "is_state a' = upd_req i (\<lambda>r. r\<lparr>num_computed_tokens := c\<rparr>) (is_state a)"
    and own: "\<And>idx. idx < length bl \<Longrightarrow> bl ! idx \<in> invalid \<Longrightarrow>
       int idx * block_size e < num_computed_tokens (objs s i) - or_default 0 (dict_get ns i) \<Longrightarrow>
       c \<le> int idx * block_size e \<or> bl ! idx \<in> is_marked a"
    and mk: "\<And>b. b \<in> is_marked a' \<Longrightarrow> b \<in> is_marked a \<or>
       (\<exists>idx < length bl. bl ! idx = b \<and> c \<le> int idx * block_size e)"
    by (rule invalid_step_effect [OF bs ra ok refl]) (simp add: ob)
  have keep: "recomputes e (world s) (is_state a') j b = recomputes e (world s) (is_state a) j b"
    if "j \<in> set done" for j b
    using that i by (auto simp: recomputes_def st)
  have old: "\<exists>j\<in>set done. recomputes e (world s) (is_state a') j b" if "b \<in> is_marked a" for b
    using inv keep that by (auto simp: scan_inv_def)
  show "scan_inv e s (done @ [i]) a'"
    using inv old mk bl w unfolding scan_inv_def
    by (fastforce simp: st recomputes_def)
  show "num_computed_tokens (objs (is_state a') i) \<le> int idx * block_size e
       \<or> (\<exists>j\<in>set done. recomputes e (world s) (is_state a') j (bl' ! idx))"
    if "kv_get_block_ids e (world s) i = [bl']" "idx < length bl'" "bl' ! idx \<in> invalid"
      "int idx * block_size e < num_computed_tokens (objs s i) - or_default 0 (dict_get ns i)" for bl' idx
    using own [of idx] old that bl w by (auto simp: st)
qed

lemma scan_inv_fold:
  assumes bs: "block_size e > 0" and inv: "scan_inv e s done a" and "distinct (done @ reqs)"
    and "\<And>i. i \<in> set reqs \<Longrightarrow> request_id (objs s i) = i"
    and "foldE (invalid_step e invalid ns ev) reqs a = Ok a'"
  shows "scan_inv e s (done @ reqs) a' \<and>
    (\<forall>j. j \<notin> set reqs \<longrightarrow> objs (is_state a') j = objs (is_state a) j)"
  using assms(2-)
proof (induction reqs arbitrary: "done" a)
  case (Cons i reqs)
  from Cons.prems(4) obtain a1 where a1: "invalid_step e invalid ns ev i a = Ok a1"
    and rest: "foldE (invalid_step e invalid ns ev) reqs a1 = Ok a'" by (auto simp: bindE_eq_Inr_iff)
  have i: "i \<notin> set done" "request_id (objs s i) = i" using Cons.prems(2,3) by auto
  have inv1: "scan_inv e s (done @ [i]) a1"
    by (rule scan_inv_step(1) [OF bs Cons.prems(1) i a1])
  have "scan_inv e s ((done @ [i]) @ reqs) a' \<and>
    (\<forall>j. j \<notin> set reqs \<longrightarrow> objs (is_state a') j = objs (is_state a1) j)"
    using Cons.prems rest inv1 by (intro Cons.IH) auto
  moreover have "objs (is_state a1) j = objs (is_state a) j" if "j \<noteq> i" for j
    using a1 that by (auto simp: invalid_step_def Let_def split: list.splits)
  ultimately show ?case by auto
qed simp

subsection \<open>The queues after a step's output\<close>

lemma plain_upd_inv:
  assumes inv: "detached_inv D s"
    and f: "status (f (objs s i)) = status (objs s i)" "request_id (f (objs s i)) = request_id (objs s i)"
      "streaming_queue (f (objs s i)) = streaming_queue (objs s i)"
  shows "detached_inv D (upd_req i f s)"
proof -
  have eq: "awaits_input (upd_req i f s) = awaits_input s" "live (upd_req i f s) = live s"
    "queued (upd_req i f s) = queued s"
    by (auto simp: awaits_input_def live_def queued_def fun_eq_iff f)
  show ?thesis using inv unfolding detached_inv_def eq by (auto simp: f)
qed

lemma free_blocks_inv:
  assumes inv: "sched_inv s" and ok: "free_blocks e i s = Ok s'"
  shows "sched_inv s'"
proof -
  note fr = free_blocks_frame [OF ok]
  then have sq: "same_queues s s'" and nl: "\<not> live s i" and rq: "requests s' = remove1 i (requests s)"
    by (simp_all add: live_def)
  have d: "distinct (requests s)" by (rule detached_invD(1) [OF inv])
  have sub: "j \<in> set (requests s') \<longleftrightarrow> j \<in> set (requests s) \<and> j \<noteq> i" for j using d rq by auto
  have eq: "awaits_input s' = awaits_input s" "queued s' = queued s" "objs s' = objs s"
    "waiting s' = waiting s" "skipped_waiting s' = skipped_waiting s" "running s' = running s"
    "num_waiting_for_streaming_input s' = num_waiting_for_streaming_input s"
    using sq by (auto simp: same_queues_def awaits_input_def queued_def fun_eq_iff)
  have lv: "live s' = live s" using nl sub by (auto simp: live_def eq fun_eq_iff)
  have "distinct (requests s')" using d rq by simp
  then show ?thesis using inv sub unfolding detached_inv_def eq lv by auto
qed

lemma xfer_finished_inv:
  assumes inv: "sched_inv s" and ok: "update_from_kv_xfer_finished e out s = Ok s'"
  shows "sched_inv s'"
proof -
  have world: "sched_inv (s\<lparr>world := w\<rparr>)" if "sched_inv s" for s :: "'a sched" and w
    by (rule detached_inv_cong [OF that]) (simp_all add: same_queues_def)
  have recv: "sched_inv t'" if "sched_inv t" "xfer_recving e i t = Ok t'" for i t t'
  proof (cases "status (objs t i) = WAITING_FOR_REMOTE_KVS")
    case True
    show ?thesis
      by (rule detached_inv_cong [OF that(1)]) (use that(2) True in \<open>auto simp: xfer_recving_def same_queues_def bindE_eq_Inr_iff\<close>)
  next
    case False
    then have "free_blocks e i t = Ok t'" using that(2) by (auto simp: xfer_recving_def bindE_eq_Inr_iff)
    then show ?thesis by (rule free_blocks_inv [OF that(1)])
  qed
  have send: "sched_inv t'" if "sched_inv t" "xfer_sending e i t = Ok t'" for i t t'
    using that free_blocks_inv by (auto simp: xfer_sending_def bindE_eq_Inr_iff)
  define s0 where "s0 = (if has_connector e
     then s\<lparr>world := connector_update e (world s) (finished_recving out) (finished_sending out)\<rparr> else s)"
  have s0: "sched_inv s0" using world [OF inv] inv by (simp add: s0_def)
  from ok obtain s1 where s1: "foldE (xfer_recving e) (finished_recving out) s0 = Ok s1"
    and s2: "foldE (xfer_sending e) (finished_sending out) s1 = Ok s'"
    by (auto simp: update_from_kv_xfer_finished_def s0_def Let_def bindE_eq_Inr_iff split: if_splits)
  have "sched_inv s1" by (rule foldE_invariant [OF s1, where P = sched_inv]) (use s0 recv in blast)+
  then show ?thesis by (intro foldE_invariant [OF s2, where P = sched_inv]) (use send in blast)+
qed

lemma invalid_step_inv:
  assumes "detached_inv D (is_state a)" and "invalid_step e invalid ns ev i a = Ok a'"
  shows "detached_inv D (is_state a')"
  using assms by (auto simp: invalid_step_def Let_def split: list.splits intro!: plain_upd_inv)

lemma handle_invalid_blocks_inv:
  assumes inv: "sched_inv s" and ok: "handle_invalid_blocks e invalid ns s = Ok (failed, s')"
  shows "sched_inv s'"
proof -
  have fold: "sched_inv (is_state a)" if "sched_inv t"
    "update_requests_with_invalid_blocks e reqs invalid ns ev t = Ok a" for reqs ev t and a
    using foldE_invariant [OF that(2) [unfolded update_requests_with_invalid_blocks_def],
        where P = "\<lambda>a. sched_inv (is_state a)"] that(1) invalid_step_inv by fastforce
  from ok obtain a b where a: "update_requests_with_invalid_blocks e
      (filter (\<lambda>i. status (objs s i) = WAITING_FOR_REMOTE_KVS) (skipped_waiting s)) invalid ns False s = Ok a"
    and b: "update_requests_with_invalid_blocks e (running (is_state a)) invalid ns True (is_state a) = Ok b"
    and s': "same_queues (is_state b) s'" "requests s' = requests (is_state b)"
    unfolding handle_invalid_blocks_def bindE_eq_Inr_iff Let_def
    by (elim exE conjE) (rule that, assumption, assumption, auto simp: same_queues_def split: if_splits)
  have "sched_inv (is_state b)" using fold [OF fold [OF inv a] b] .
  then show ?thesis using s' by (rule detached_inv_cong)
qed

text \<open>What the stop check changes.\<close>

lemma update_with_output_spec:
  assumes L: "request_laws e" and "update_request_with_output e r ts = (r', ts', stopped)"
  shows "request_id r' = request_id r \<and> streaming_queue r' = streaming_queue r
    \<and> resumable r' = resumable r \<and> (if stopped then is_finished (status r') else status r' = status r)"
  using assms(2)
proof (induction ts arbitrary: r r' ts' stopped)
  case (Cons t ts)
  define r1 where "r1 = append_output_token_ids e r t"
  have r1: "request_id r1 = request_id r" "streaming_queue r1 = streaming_queue r"
    "resumable r1 = resumable r" "status r1 = status r"
    using L by (simp_all add: r1_def request_laws_def)
  show ?case
  proof (cases "fst (check_stop e r1 (max_model_len e))")
    case True
    then obtain st where st: "is_finished st" "snd (check_stop e r1 (max_model_len e)) = r1\<lparr>status := st\<rparr>"
      using L unfolding request_laws_def by blast
    then have "r' = r1\<lparr>status := st\<rparr>" "stopped" using Cons.prems True
      by (simp_all add: r1_def [symmetric] Let_def split_beta)
    then show ?thesis using st r1 by simp
  next
    case False
    then have "snd (check_stop e r1 (max_model_len e)) = r1" using L by (auto simp: request_laws_def)
    then obtain ts'' where "update_request_with_output e r1 ts = (r', ts'', stopped)"
      using Cons.prems False
      by (cases "update_request_with_output e r1 ts") (auto simp: r1_def [symmetric] Let_def split_beta)
    from Cons.IH [OF this] r1 show ?thesis by auto
  qed
qed simp

lemma stop_check_spec:
  assumes L: "request_laws e" and "stop_check e p g r = (r', ts', stopped)"
  shows "request_id r' = request_id r \<and> streaming_queue r' = streaming_queue r
    \<and> resumable r' = resumable r \<and> (if stopped then is_finished (status r') else status r' = status r)"
  using assms(2) update_with_output_spec [OF L, of r g r' ts' stopped]
  by (auto simp: stop_check_def split: if_splits)

lemma advance_grammar_spec:
  assumes "advance_grammar e ts w (r, stopped) = Ok ((r', stopped'), w')"
    and "if stopped then is_finished (status r) else status r = st"
  shows "request_id r' = request_id r \<and> streaming_queue r' = streaming_queue r
    \<and> (resumable r' \<longrightarrow> resumable r) \<and> (if stopped' then is_finished (status r') else status r' = st)"
  using assms
  by (auto simp: advance_grammar_def Let_def split_beta bindE_eq_Inr_iff split: if_splits)


lemma handle_stopped_spec:
  assumes L: "request_laws e" and fin: "is_finished (status (objs s i))"
    and ok: "handle_stopped_request e i s = Ok (finished, s')"
  shows "\<exists>f. request_id (f (objs s i)) = request_id (objs s i) \<and>
    (if finished then is_finished (status (f (objs s i))) \<and> s' = upd_req i f s
     else resumable (objs s i) \<and>
       (status (f (objs s i)) = WAITING \<or>
        status (f (objs s i)) = WAITING_FOR_STREAMING_REQ \<and> streaming_queue (f (objs s i)) \<in> {None, Some []}) \<and>
       s' = (enqueue_waiting_request e i (upd_req i f s))\<lparr>num_waiting_for_streaming_input :=
         num_waiting_for_streaming_input s
           + (if status (f (objs s i)) = WAITING_FOR_STREAMING_REQ then 1 else 0)\<rparr>)"
proof -
  let ?r = "objs s i"
  have upd2: "upd_req i g (upd_req i f s) = upd_req i (\<lambda>r. g (f r)) s" for f g
    by (simp add: upd_req_def)
  consider (plain) "\<not> resumable ?r" | (ended) us where "resumable ?r" "streaming_queue ?r = Some (None # us)"
    | (next_input) u us where "resumable ?r" "streaming_queue ?r = Some (Some u # us)"
    | (wait) "resumable ?r" "streaming_queue ?r \<in> {None, Some []}"
    by (cases "resumable ?r"; cases "streaming_queue ?r" rule: option.exhaust; auto) (metis list.exhaust option.exhaust)
  then show ?thesis
  proof cases
    case plain
    then show ?thesis using ok fin
      by (intro exI [of _ "\<lambda>r. r"]) (auto simp: handle_stopped_request_def upd_req_def)
  next
    case ended
    then show ?thesis using ok fin
      by (intro exI [of _ "\<lambda>r. r\<lparr>streaming_queue := Some us\<rparr>"]) (auto simp: handle_stopped_request_def)
  next
    case next_input
    define s1 where "s1 = upd_req i (\<lambda>r. r\<lparr>streaming_queue := Some us\<rparr>) s"
    obtain s2 where s2: "update_request_as_session e i u s1 = Ok s2"
      and s': "\<not> finished" "s' = enqueue_waiting_request e i s2"
      using ok next_input by (auto simp: handle_stopped_request_def s1_def bindE_eq_Inr_iff)
    have na: "\<not> awaits_input s1 i" using fin by (auto simp: awaits_input_def s1_def)
    from update_session_effect [OF L s2] na obtain f where f: "status (f (objs s1 i)) = WAITING"
      "request_id (f (objs s1 i)) = request_id (objs s1 i)" "s2 = upd_req i f s1" by (auto simp: upd_req_def)
    show ?thesis using f s' next_input
      by (intro exI [of _ "\<lambda>r. f (r\<lparr>streaming_queue := Some us\<rparr>)"])
        (auto simp: s1_def upd2 enqueue_waiting_request_def is_blocked_waiting_status_def)
  next
    case wait
    then show ?thesis using ok
      by (intro exI [of _ "\<lambda>r. r\<lparr>status := WAITING_FOR_STREAMING_REQ\<rparr>"])
        (auto simp: handle_stopped_request_def Let_def enqueue_waiting_request_def
          is_blocked_waiting_status_def upd_req_def)
  qed
qed

text \<open>The queues as they will be once the stopped requests have been removed.\<close>

definition view :: "'x out_acc \<Rightarrow> 'x sched" where
  "view a = (oa_state a)\<lparr>
     running := filter (\<lambda>i. i \<notin> oa_stopped_running a) (running (oa_state a)),
     waiting := filter (\<lambda>i. i \<notin> oa_stopped_preempted a) (waiting (oa_state a)),
     skipped_waiting := filter (\<lambda>i. i \<notin> oa_stopped_preempted a) (skipped_waiting (oa_state a))\<rparr>"

lemma view_sel [simp]:
  "objs (view a) = objs (oa_state a)"
  "requests (view a) = requests (oa_state a)"
  "num_waiting_for_streaming_input (view a) = num_waiting_for_streaming_input (oa_state a)"
  "running (view a) = filter (\<lambda>i. i \<notin> oa_stopped_running a) (running (oa_state a))"
  "waiting (view a) = filter (\<lambda>i. i \<notin> oa_stopped_preempted a) (waiting (oa_state a))"
  "skipped_waiting (view a) = filter (\<lambda>i. i \<notin> oa_stopped_preempted a) (skipped_waiting (oa_state a))"
  by (simp_all add: view_def)

definition stop_acc :: "rid \<Rightarrow> bool \<Rightarrow> 'x out_acc \<Rightarrow> 'x out_acc" where
  "stop_acc i was_running a =
    (if was_running then a\<lparr>oa_stopped_running := insert i (oa_stopped_running a)\<rparr>
     else a\<lparr>oa_stopped_preempted := insert i (oa_stopped_preempted a)\<rparr>)"

lemma view_stop_inv:
  assumes inv: "sched_inv (view a)" and lv: "live (oa_state a) i"
    and wr: "wr \<longleftrightarrow> status (objs (oa_state a) i) = RUNNING" and aw: "\<not> awaits_input (oa_state a) i"
  shows "detached_inv {i} (view (stop_acc i wr a))"
proof -
  let ?v = "view a" and ?v' = "view (stop_acc i wr a)"
  have aw': "\<not> awaits_input ?v i" using aw by (simp add: awaits_input_def)
  have q: "i \<in> set (queued ?v)" using detached_invD(3) [OF inv] lv by (simp add: live_def)
  have side: "wr \<Longrightarrow> i \<notin> set (waiting ?v) \<and> i \<notin> set (skipped_waiting ?v)"
    "\<not> wr \<Longrightarrow> i \<notin> set (running ?v)"
    using detached_invD(5-7) [OF inv] wr by fastforce+
  note keep = mset_without [of i]
  have drop: "mset (filter (\<lambda>j. j \<notin> insert i S) xs) = filter_mset (\<lambda>j. j \<notin> {i}) (mset (filter (\<lambda>j. j \<notin> S) xs))"
    for S and xs :: "rid list" by (induction xs) auto
  have m: "mset (waiting ?v') = filter_mset (\<lambda>j. j \<notin> {i}) (mset (waiting ?v))"
    "mset (skipped_waiting ?v') = filter_mset (\<lambda>j. j \<notin> {i}) (mset (skipped_waiting ?v))"
    "mset (running ?v') = filter_mset (\<lambda>j. j \<notin> {i}) (mset (running ?v))"
    using side keep [of "waiting ?v"] keep [of "skipped_waiting ?v"] keep [of "running ?v"]
      drop [of "oa_stopped_running a" "running (oa_state a)"]
      drop [of "oa_stopped_preempted a" "waiting (oa_state a)"]
      drop [of "oa_stopped_preempted a" "skipped_waiting (oa_state a)"]
    by (cases wr; simp add: stop_acc_def)+
  have none: "filter (\<lambda>j. awaits_input ?v j \<and> j \<in> {i}) xs = []" for xs
    using aw' by (induction xs) auto
  have R: "j \<in> {i} \<Longrightarrow> j \<in> set (queued ?v)" for j using q by simp
  have "detached_inv ({} \<union> {i}) (?v\<lparr>num_waiting_for_streaming_input := num_waiting_for_streaming_input ?v,
      running := running ?v', waiting := waiting ?v', skipped_waiting := skipped_waiting ?v'\<rparr>)"
    by (rule detached_inv_detach [OF inv R m]) (use none in simp_all)
  moreover have "?v' = ?v\<lparr>num_waiting_for_streaming_input := num_waiting_for_streaming_input ?v,
      running := running ?v', waiting := waiting ?v', skipped_waiting := skipped_waiting ?v'\<rparr>"
    by (simp add: view_def stop_acc_def)
  ultimately show ?thesis by simp
qed


lemma handle_stop_inv:
  assumes L: "queue_laws e" "request_laws e" and inv: "detached_inv {i} (view (stop_acc i wr b))"
    and a: "a = b\<lparr>oa_state := (upd_req i (\<lambda>_. r) (oa_state b))\<lparr>world := w\<rparr>\<rparr>"
    and r: "is_finished (status r)" "request_id r = i" "resumable r \<Longrightarrow> wr \<and> i \<notin> oa_stopped_preempted b"
    and ok: "handle_stop e i wr a = Ok (x, a')"
  shows "sched_inv (view a')"
proof -
  let ?s = "oa_state a" and ?v = "view (stop_acc i wr b)"
  obtain finished s1 where s1: "handle_stopped_request e i ?s = Ok (finished, s1)"
    using ok by (cases "handle_stopped_request e i ?s") (auto simp: handle_stop_def)
  obtain p s2 where s2: "(if finished then free_request e i False s1 else Ok ((None, None), s1)) = Ok (p, s2)"
  proof (cases "if finished then free_request e i False s1 else Ok ((None, None), s1)")
    case (Inl er)
    then show ?thesis using ok s1 by (simp add: handle_stop_def)
  next
    case (Inr q)
    then show ?thesis by (intro that [of "fst q" "snd q"]) simp
  qed
  have a': "a' = (stop_acc i wr b)\<lparr>oa_state := s2\<rparr>"
    using ok s1 s2 by (auto simp: handle_stop_def stop_acc_def a split_beta)
  have ob: "objs ?s i = r" by (simp add: a)
  then have fin0: "is_finished (status (objs ?s i))" using r by simp
  obtain f where fid: "request_id (f r) = i" and f: "if finished then is_finished (status (f r)) \<and> s1 = upd_req i f ?s
     else resumable r \<and> (status (f r) = WAITING \<or>
        status (f r) = WAITING_FOR_STREAMING_REQ \<and> streaming_queue (f r) \<in> {None, Some []}) \<and>
       s1 = (enqueue_waiting_request e i (upd_req i f ?s))\<lparr>num_waiting_for_streaming_input :=
         num_waiting_for_streaming_input ?s + (if status (f r) = WAITING_FOR_STREAMING_REQ then 1 else 0)\<rparr>"
    using handle_stopped_spec [OF L(2) fin0 s1] unfolding ob r(2) by blast
  have same: "same_queues (upd_req i (\<lambda>_. f r) ?v) (view ((stop_acc i wr b)\<lparr>oa_state := s\<rparr>))
      \<and> requests (view ((stop_acc i wr b)\<lparr>oa_state := s\<rparr>)) = requests s"
    if "same_queues (upd_req i f ?s) s" for s
    using that by (auto simp: same_queues_def a stop_acc_def)
  show ?thesis
  proof (cases finished)
    case True
    then have s1': "s1 = upd_req i f ?s" and fin: "is_finished (status (f r))" using f by auto
    have fr: "same_queues s1 s2" "requests s2 = requests s1 \<or> requests s2 = remove1 i (requests s1)"
      using free_request_frame [of e i False s1 p s2] s2 True by auto
    have "detached_inv ({i} - {i}) (view a')"
      using same [of s2] fr fin fid unfolding a' s1'
      by (intro detached_inv_finish [OF inv, where f = "\<lambda>_. f r"]) (auto simp: stop_acc_def a)
    then show ?thesis by simp
  next
    case False
    then have st: "status (f r) = WAITING \<or> status (f r) = WAITING_FOR_STREAMING_REQ \<and>
        streaming_queue (f r) \<in> {None, Some []}" and wr: wr "i \<notin> oa_stopped_preempted b" and "s2 = s1"
      using f s2 r(3) by auto
    let ?u = "upd_req i (\<lambda>_. f r) ?v"
    have inv1: "detached_inv {i} ?u" using st fid by (intro detached_inv_upd [OF inv]) auto
    let ?ob = "objs (upd_req i f ?s)" and ?P = "\<lambda>j. j \<notin> oa_stopped_preempted b"
    from st show ?thesis
    proof
      assume W: "status (f r) = WAITING"
      let ?t = "?u\<lparr>waiting := filter ?P (queue_add e ?ob i (waiting (oa_state b)))\<rparr>"
      have t: "detached_inv ({i} - {i}) ?t"
        using W wr by (intro detached_inv_to_waiting [OF inv1]) (simp_all add: queue_lawsD(1) [OF L(1)] stop_acc_def)
      have "same_queues ?t (view a') \<and> requests (view a') = requests ?t"
        using W f False wr \<open>s2 = s1\<close>
        by (auto simp: a' a same_queues_def stop_acc_def enqueue_waiting_request_def
            is_blocked_waiting_status_def)
      then show ?thesis using detached_inv_cong [OF t] by auto
    next
      assume W: "status (f r) = WAITING_FOR_STREAMING_REQ \<and> streaming_queue (f r) \<in> {None, Some []}"
      let ?t = "?u\<lparr>skipped_waiting := filter ?P (queue_add e ?ob i (skipped_waiting (oa_state b))),
          num_waiting_for_streaming_input := num_waiting_for_streaming_input ?u
            + (if awaits_input ?u i then 1 else 0)\<rparr>"
      have t: "detached_inv ({i} - {i}) ?t"
        using W wr by (intro detached_inv_to_skipped [OF inv1]) (simp_all add: queue_lawsD(1) [OF L(1)] stop_acc_def)
      have "same_queues ?t (view a') \<and> requests (view a') = requests ?t"
        using W f False wr \<open>s2 = s1\<close>
        by (auto simp: a' a same_queues_def stop_acc_def enqueue_waiting_request_def
            is_blocked_waiting_status_def awaits_input_def)
      then show ?thesis using detached_inv_cong [OF t] by auto
    qed
  qed
qed


lemma handle_stop_frame:
  assumes L: "request_laws e" and fin: "is_finished (status (objs (oa_state a) i))"
    and ok: "handle_stop e i wr a = Ok (x, a')"
  shows "(\<forall>j. j \<noteq> i \<longrightarrow> objs (oa_state a') j = objs (oa_state a) j)
    \<and> oa_stopped_preempted a' \<subseteq> insert i (oa_stopped_preempted a)
    \<and> set (requests (oa_state a')) \<subseteq> set (requests (oa_state a))"
proof -
  obtain finished s1 where s1: "handle_stopped_request e i (oa_state a) = Ok (finished, s1)"
    using ok by (cases "handle_stopped_request e i (oa_state a)") (auto simp: handle_stop_def)
  have o1: "objs s1 j = objs (oa_state a) j" if "j \<noteq> i" for j
    using handle_stopped_spec [OF L fin s1] that
    by (auto simp: enqueue_waiting_request_def split: if_splits)
  have r1: "requests s1 = requests (oa_state a)"
    using handle_stopped_spec [OF L fin s1] by (auto simp: enqueue_waiting_request_def split: if_splits)
  have "objs (oa_state a') = objs s1 \<and> set (requests (oa_state a')) \<subseteq> set (requests s1)"
  proof (cases finished)
    case True
    then obtain p s2 where "free_request e i False s1 = Ok (p, s2)" "oa_state a' = s2"
      using ok s1 by (auto simp: handle_stop_def bindE_eq_Inr_iff split: if_splits)
    then show ?thesis
      using free_request_frame [of e i False s1 p s2] set_remove1_subset [of i "requests s1"]
      by (auto simp: same_queues_def)
  next
    case False
    then show ?thesis using ok s1 by (auto simp: handle_stop_def bindE_eq_Inr_iff split: if_splits)
  qed
  then show ?thesis using o1 r1 ok by (auto simp: handle_stop_def bindE_eq_Inr_iff split: if_splits)
qed

text \<open>The output of a request that is running, or that was preempted and is no streaming
  session, meets the queues as the code expects them.\<close>

definition expected_output :: "'x sched \<Rightarrow> rid \<Rightarrow> bool" where
  "expected_output s i \<longleftrightarrow>
    status (objs s i) = RUNNING \<or> \<not> resumable (objs s i) \<and> \<not> awaits_input s i"

lemma roll_back_plain [simp]:
  "status (roll_back_rejected e sp g st r) = status r"
  "request_id (roll_back_rejected e sp g st r) = request_id r"
  "streaming_queue (roll_back_rejected e sp g st r) = streaming_queue r"
  "resumable (roll_back_rejected e sp g st r) = resumable r"
  by (auto simp: roll_back_rejected_def Let_def split: option.splits list.splits)

lemma view_upd: "view (a\<lparr>oa_state := upd_req i f (oa_state a)\<rparr>) = upd_req i f (view a)"
  by (simp add: view_def upd_req_def)

lemma view_world_inv:
  "detached_inv D (view (a\<lparr>oa_state := s\<rparr>)) \<Longrightarrow> detached_inv D (view (a\<lparr>oa_state := s\<lparr>world := w\<rparr>\<rparr>))"
  by (erule detached_inv_cong) (simp_all add: same_queues_def)

text \<open>\<open>deliver_output\<close> in three parts: the object \<open>r\<close> with the new tokens, whether it stopped,
  and what follows.\<close>

lemma deliver_output_cases:
  assumes L: "request_laws e" and ok: "deliver_output e mo sp st i a = Ok a'"
  obtains r w stopped a1 x where
    "request_id r = request_id (objs (oa_state a) i)"
    "streaming_queue r = streaming_queue (objs (oa_state a) i)"
    "resumable r \<longrightarrow> resumable (objs (oa_state a) i)"
    "if stopped then is_finished (status r) else status r = status (objs (oa_state a) i)"
    "a1 = a\<lparr>oa_state := (upd_req i (\<lambda>_. r) (oa_state a))\<lparr>world := w\<rparr>\<rparr>"
    "if stopped then \<exists>outs a2. handle_stop e i (status (objs (oa_state a) i) = RUNNING) a1 = Ok (x, a2)
         \<and> a' = a2\<lparr>oa_outputs := outs\<rparr>
     else \<exists>outs. a' = a1\<lparr>oa_outputs := outs\<rparr>"
proof -
  let ?s = "\<lambda>g. upd_req i (roll_back_rejected e sp g st) (oa_state a)"
  from ok obtain k g s1 pooled where
    s1: "(if mm_features (objs (?s g) i) \<noteq> [] then free_encoder_inputs e i (?s g) else Ok (?s g)) = Ok s1"
    and rest: "settle_output e mo g pooled i (a\<lparr>oa_state := s1\<rparr>) = Ok a'"
    unfolding deliver_output_def bindE_eq_Inr_iff Let_def by blast
  have w1: "s1 = (?s g)\<lparr>world := world s1\<rparr>"
    using s1 by (auto simp: free_encoder_inputs_def Let_def bindE_eq_Inr_iff split: if_splits)
  have ob1: "objs s1 i = roll_back_rejected e sp g st (objs (oa_state a) i)"
    by (subst w1) simp
  obtain r0 ts st0 where sc: "stop_check e pooled g (objs s1 i) = (r0, ts, st0)"
    by (cases "stop_check e pooled g (objs s1 i)")
  note S0 = stop_check_spec [OF L sc]
  obtain r stopped w where ag: "advance_grammar e ts (world s1) (r0, st0) = Ok ((r, stopped), w)"
    using rest sc by (cases "advance_grammar e ts (world s1) (r0, st0)") (auto simp: settle_output_def)
  note S1 = advance_grammar_spec [OF ag, of "status (objs s1 i)"]
  have eq: "(upd_req i (\<lambda>_. r) s1)\<lparr>world := w\<rparr> = (upd_req i (\<lambda>_. r) (oa_state a))\<lparr>world := w\<rparr>"
    by (subst w1) (simp add: upd_req_def)
  let ?a1 = "a\<lparr>oa_state := (upd_req i (\<lambda>_. r) (oa_state a))\<lparr>world := w\<rparr>\<rparr>"
  have st: "status (objs s1 i) = status (objs (oa_state a) i)" by (simp add: ob1)
  have "if stopped then \<exists>x outs a2. handle_stop e i (status (objs (oa_state a) i) = RUNNING) ?a1 = Ok (x, a2)
         \<and> a' = a2\<lparr>oa_outputs := outs\<rparr>
     else \<exists>outs. a' = ?a1\<lparr>oa_outputs := outs\<rparr>"
  proof (cases stopped)
    case True
    then obtain x a2 where "handle_stop e i (status (objs (oa_state a) i) = RUNNING) ?a1 = Ok (x, a2)"
      using rest sc ag eq st
      by (cases "handle_stop e i (status (objs (oa_state a) i) = RUNNING) ?a1") (auto simp: settle_output_def)
    then show ?thesis using True rest sc ag eq st by (cases x) (auto simp: settle_output_def)
  next
    case False
    then show ?thesis using rest sc ag eq
      by (auto simp: settle_output_def Let_def bindE_eq_Inr_iff split: if_splits
          intro!: exI [of _ "oa_outputs a'"])
  qed
  then obtain x where "if stopped then \<exists>outs a2. handle_stop e i (status (objs (oa_state a) i) = RUNNING) ?a1 = Ok (x, a2)
         \<and> a' = a2\<lparr>oa_outputs := outs\<rparr>
     else \<exists>outs. a' = ?a1\<lparr>oa_outputs := outs\<rparr>" by (cases stopped) (simp_all only: if_True if_False, blast+)
  then show thesis using S0 S1 st
    by (intro that [of r stopped ?a1 w x]) (auto simp: ob1 split: if_splits)
qed


lemma deliver_output_inv:
  assumes L: "queue_laws e" "request_laws e" and inv: "sched_inv (view a)"
    and lv: "live (oa_state a) i" and ex: "expected_output (oa_state a) i"
    and sp: "i \<notin> oa_stopped_preempted a" and ok: "deliver_output e mo spec st i a = Ok a'"
  shows "sched_inv (view a') \<and> (\<forall>j. j \<noteq> i \<longrightarrow> objs (oa_state a') j = objs (oa_state a) j)
    \<and> oa_stopped_preempted a' \<subseteq> insert i (oa_stopped_preempted a)
    \<and> set (requests (oa_state a')) \<subseteq> set (requests (oa_state a))"
proof -
  let ?r0 = "objs (oa_state a) i"
  have rid: "request_id ?r0 = i" using detached_invD(9) [OF inv, of i] lv by (simp add: live_def)
  obtain r w stopped a1 x where r: "request_id r = request_id ?r0" "streaming_queue r = streaming_queue ?r0"
      "resumable r \<longrightarrow> resumable ?r0" "if stopped then is_finished (status r) else status r = status ?r0"
    and a1: "a1 = a\<lparr>oa_state := (upd_req i (\<lambda>_. r) (oa_state a))\<lparr>world := w\<rparr>\<rparr>"
    and res: "if stopped then \<exists>outs a2. handle_stop e i (status ?r0 = RUNNING) a1 = Ok (x, a2)
         \<and> a' = a2\<lparr>oa_outputs := outs\<rparr> else \<exists>outs. a' = a1\<lparr>oa_outputs := outs\<rparr>"
    by (rule deliver_output_cases [OF L(2) ok])
  have outs: "view (b\<lparr>oa_outputs := outs\<rparr>) = view b" for b :: "'a out_acc" and outs by (simp add: view_def)
  show ?thesis
  proof (cases stopped)
    case False
    then have "status r = status ?r0" using r(4) by simp
    then have "sched_inv (upd_req i (\<lambda>_. r) (view a))"
      using r(1,2) by (intro plain_upd_inv [OF inv]) simp_all
    then have "sched_inv (view a1)" unfolding a1 by (intro view_world_inv) (simp only: view_upd)
    then show ?thesis using res False by (auto simp: outs a1)
  next
    case True
    then obtain out2 a2 where a2: "handle_stop e i (status ?r0 = RUNNING) a1 = Ok (x, a2)"
      "a' = a2\<lparr>oa_outputs := out2\<rparr>" using res by auto
    have aw: "\<not> awaits_input (oa_state a) i" using ex by (auto simp: expected_output_def awaits_input_def)
    have fin: "is_finished (status r)" using r(4) True by simp
    have det: "detached_inv {i} (view (stop_acc i (status ?r0 = RUNNING) a))"
      by (rule view_stop_inv [OF inv lv refl aw])
    have res_ok: "resumable r \<Longrightarrow> status ?r0 = RUNNING \<and> i \<notin> oa_stopped_preempted a"
      using r(3) ex sp by (auto simp: expected_output_def)
    have "sched_inv (view a2)"
      using handle_stop_inv [OF L det a1 fin _ res_ok a2(1)] r(1) rid by simp
    moreover have "is_finished (status (objs (oa_state a1) i))" using fin by (simp add: a1)
    from handle_stop_frame [OF L(2) this a2(1)]
    have "(\<forall>j. j \<noteq> i \<longrightarrow> objs (oa_state a2) j = objs (oa_state a) j)
        \<and> oa_stopped_preempted a2 \<subseteq> insert i (oa_stopped_preempted a)
        \<and> set (requests (oa_state a2)) \<subseteq> set (requests (oa_state a))" by (simp add: a1)
    ultimately show ?thesis by (simp add: a2(2) outs)
  qed
qed

lemma drain_tokens_spec:
  assumes "drain_tokens s i n = Ok (st, s')"
  shows "\<exists>r. s' = upd_req i (\<lambda>_. r) s \<and> status r = status (objs s i)
      \<and> request_id r = request_id (objs s i) \<and> streaming_queue r = streaming_queue (objs s i)
      \<and> resumable r = resumable (objs s i)"
proof (rule exI [of _ "objs s' i"])
  show "s' = upd_req i (\<lambda>_. objs s' i) s \<and> status (objs s' i) = status (objs s i)
      \<and> request_id (objs s' i) = request_id (objs s i) \<and> streaming_queue (objs s' i) = streaming_queue (objs s i)
      \<and> resumable (objs s' i) = resumable (objs s i)"
    using assms
    by (auto simp: drain_tokens_def Let_def upd_req_def bindE_eq_Inr_iff split: if_splits)
qed

lemma output_step_inv:
  assumes L: "queue_laws e" "request_laws e" and inv: "sched_inv (view a)"
    and ex: "live (oa_state a) i \<Longrightarrow> expected_output (oa_state a) i"
    and sp: "i \<notin> oa_stopped_preempted a" and ok: "output_step e so mo failed (i, n) a = Ok a'"
  shows "sched_inv (view a') \<and> (\<forall>j. j \<noteq> i \<longrightarrow> objs (oa_state a') j = objs (oa_state a) j)
    \<and> oa_stopped_preempted a' \<subseteq> insert i (oa_stopped_preempted a)
    \<and> set (requests (oa_state a')) \<subseteq> set (requests (oa_state a))"
proof -
  obtain st s1 where d: "drain_tokens (oa_state a) i n = Ok (st, s1)"
    using ok by (cases "drain_tokens (oa_state a) i n") (auto simp: output_step_def bindE_eq_Inr_iff)
  let ?a1 = "a\<lparr>oa_state := s1\<rparr>"
  have inv1: "sched_inv (view ?a1)"
    using drain_tokens_spec [OF d] inv by (auto simp: view_upd intro!: plain_upd_inv)
  have o1: "\<And>j. j \<noteq> i \<Longrightarrow> objs s1 j = objs (oa_state a) j" and r1: "requests s1 = requests (oa_state a)"
    and st1: "status (objs s1 i) = status (objs (oa_state a) i)" "resumable (objs s1 i) = resumable (objs (oa_state a) i)"
    using drain_tokens_spec [OF d] by auto
  show ?thesis
  proof (cases "live s1 i \<and> i \<notin> failed \<and> \<not> (st \<and> drop_stale_output (objs s1 i))")
    case False
    then have "a' = ?a1" using ok d
      by (auto simp: output_step_def bindE_eq_Inr_iff live_def Let_def split: if_splits)
    then show ?thesis using inv1 o1 r1 by auto
  next
    case True
    then have del: "deliver_output e mo (dict_get (scheduled_spec_decode_tokens so) i) st i ?a1 = Ok a'"
      using ok d by (auto simp: output_step_def bindE_eq_Inr_iff live_def Let_def split: if_splits)
    have "live (oa_state a) i" using True r1 st1 by (simp add: live_def)
    then have "expected_output (oa_state ?a1) i" using ex st1
      by (simp add: expected_output_def awaits_input_def)
    from deliver_output_inv [OF L inv1 _ this _ del] True sp o1 r1 show ?thesis by auto
  qed
qed


lemma output_loop_inv:
  assumes L: "queue_laws e" "request_laws e" and "sched_inv (view a)" and "distinct (dict_keys ns)"
    and "\<And>i. i \<in> set (dict_keys ns) \<Longrightarrow> live (oa_state a) i \<Longrightarrow> expected_output (oa_state a) i"
    and "\<And>i. i \<in> set (dict_keys ns) \<Longrightarrow> i \<notin> oa_stopped_preempted a"
    and "foldE (output_step e so mo failed) ns a = Ok a'"
  shows "sched_inv (view a')"
  using assms(3-)
proof (induction ns arbitrary: a)
  case (Cons p ns)
  obtain i n where p: "p = (i, n)" by (cases p)
  from Cons.prems(5) obtain a1 where a1: "output_step e so mo failed (i, n) a = Ok a1"
    and rest: "foldE (output_step e so mo failed) ns a1 = Ok a'" by (auto simp: bindE_eq_Inr_iff p)
  have step: "sched_inv (view a1)" "\<And>j. j \<noteq> i \<Longrightarrow> objs (oa_state a1) j = objs (oa_state a) j"
    "oa_stopped_preempted a1 \<subseteq> insert i (oa_stopped_preempted a)"
    "set (requests (oa_state a1)) \<subseteq> set (requests (oa_state a))"
    using output_step_inv [OF L Cons.prems(1) _ _ a1] Cons.prems(3,4) p by auto
  have i: "i \<notin> set (dict_keys ns)" "distinct (dict_keys ns)" using Cons.prems(2) p by auto
  show ?case
  proof (rule Cons.IH [OF step(1) i(2) _ _ rest])
    fix j assume j: "j \<in> set (dict_keys ns)" "live (oa_state a1) j"
    then have "j \<noteq> i" using i by auto
    moreover have "live (oa_state a) j" using j(2) step(2) [OF \<open>j \<noteq> i\<close>] step(4) by (auto simp: live_def)
    ultimately show "expected_output (oa_state a1) j"
      using Cons.prems(3) [of j] step(2) j(1) p by (auto simp: expected_output_def awaits_input_def)
  qed (use step(3) i Cons.prems(4) in auto)
qed simp

lemma drop_stopped_inv:
  assumes L: "queue_laws e" and inv: "sched_inv (view a)"
  shows "sched_inv (drop_stopped e a)" (is "sched_inv ?s")
proof -
  have m: "mset (waiting ?s) = mset (waiting (view a))" "mset (skipped_waiting ?s) = mset (skipped_waiting (view a))"
    and r: "running ?s = running (view a)"
    using queue_lawsD(3,4) [OF L] by (simp_all add: drop_stopped_def Let_def)
  have sel: "requests ?s = requests (view a)" "objs ?s = objs (view a)"
    "num_waiting_for_streaming_input ?s = num_waiting_for_streaming_input (view a)"
    by (simp_all add: drop_stopped_def Let_def)
  have q: "mset (queued ?s) = mset (queued (view a))" using m r by (simp add: queued_def)
  have aw: "awaits_input ?s = awaits_input (view a)" "live ?s = live (view a)"
    by (auto simp: awaits_input_def live_def fun_eq_iff sel)
  have n: "length (filter P (skipped_waiting ?s)) = length (filter P (skipped_waiting (view a)))" for P
    by (rule length_filter_mset [OF m(2)])
  show ?thesis
    using inv unfolding detached_inv_def aw sel n r mset_eq_imp_distinct_iff [OF q] mset_eq_setD [OF q]
      mset_eq_setD [OF m(1)] mset_eq_setD [OF m(2)] .
qed


definition same_life :: "'x sched \<Rightarrow> 'x sched \<Rightarrow> bool" where
  "same_life s s' \<longleftrightarrow> requests s' = requests s \<and>
    (\<forall>j. status (objs s' j) = status (objs s j) \<and> resumable (objs s' j) = resumable (objs s j))"

lemma same_life_expected:
  "same_life s s' \<Longrightarrow> live s' i = live s i \<and> expected_output s' i = expected_output s i"
  by (simp add: same_life_def live_def expected_output_def awaits_input_def)

lemma handle_invalid_blocks_life:
  assumes "handle_invalid_blocks e invalid ns s = Ok (failed, s')"
  shows "same_life s s'"
proof -
  have step: "same_life t (is_state a')" if l: "same_life t (is_state a)" and st: "invalid_step e invalid ns ev i a = Ok a'"
    for t ev i a a'
  proof -
    obtain c where "is_state a' = upd_req i (\<lambda>r. r\<lparr>num_computed_tokens := c\<rparr>) (is_state a)"
      using st by (auto simp: invalid_step_def Let_def split: list.splits)
    then show ?thesis using l by (simp add: same_life_def)
  qed
  have refl: "same_life t t" for t :: "'a sched" by (simp add: same_life_def)
  have fold: "same_life t (is_state a)" if
    "update_requests_with_invalid_blocks e reqs invalid ns ev t = Ok a" for reqs ev t and a
    using foldE_invariant [OF that [unfolded update_requests_with_invalid_blocks_def],
        where P = "\<lambda>a. same_life t (is_state a)"] step [of t] refl by auto
  from assms obtain a b where a: "update_requests_with_invalid_blocks e
      (filter (\<lambda>i. status (objs s i) = WAITING_FOR_REMOTE_KVS) (skipped_waiting s)) invalid ns False s = Ok a"
    and b: "update_requests_with_invalid_blocks e (running (is_state a)) invalid ns True (is_state a) = Ok b"
    and s': "same_life (is_state b) s'"
    unfolding handle_invalid_blocks_def bindE_eq_Inr_iff Let_def
    by (elim exE conjE) (rule that, assumption, assumption, auto simp: same_life_def split: if_splits)
  then show ?thesis using fold [OF a] fold [OF b] by (simp add: same_life_def)
qed

lemma output_tail_inv:
  assumes L: "queue_laws e" and inv: "sched_inv (view a)" and ok: "output_tail e mo failed a = Ok (outs, s')"
  shows "sched_inv s'"
proof -
  let ?s = "drop_stopped e a"
  let ?s1 = "?s\<lparr>grammar_compile_error_reqs := {}\<rparr>"
  define errors where
    "errors = grammar_compile_error_reqs ?s \<union> (if recompute_kv_load_failures e then {} else failed)"
  have inv1: "sched_inv ?s1"
    by (rule detached_inv_cong [OF drop_stopped_inv [OF L inv]]) (simp_all add: same_queues_def)
  from ok obtain er s2 where
    er: "(if errors = {} then Ok ([], ?s1)
          else finish_requests e (Some (set_order e errors)) FINISHED_ERROR ?s1) = Ok (er, s2)"
    and tail: "(case kv_output mo of None \<Rightarrow> Ok s2 | Some out \<Rightarrow> update_from_kv_xfer_finished e out s2) = Ok s'"
    unfolding output_tail_def Let_def errors_def
    by (auto simp: bindE_eq_Inr_iff)
  have "distinct (set_order e errors)" using L by (simp add: queue_laws_def)
  then have "sched_inv s2"
    using er inv1 finish_requests_inv [OF L inv1, of "Some (set_order e errors)" FINISHED_ERROR er s2]
    by (auto split: if_splits)
  then show ?thesis using tail xfer_finished_inv by (auto split: option.splits)
qed

lemma drain_deferred_sel [simp]:
  "same_queues s (drain_deferred_frees e s)" "requests (drain_deferred_frees e s) = requests s"
  "objs (drain_deferred_frees e s) = objs s"
  by (simp_all add: drain_deferred_frees_def same_queues_def split_beta)

lemma update_from_output_inv:
  assumes L: "queue_laws e" "request_laws e" and inv: "sched_inv s"
    and d: "distinct (dict_keys (num_scheduled_tokens so))"
    and ex: "\<And>i. i \<in> set (dict_keys (num_scheduled_tokens so)) \<Longrightarrow> live s i \<Longrightarrow> expected_output s i"
    and ok: "update_from_output e so mo s = Ok (outs, s')"
  shows "sched_inv s'"
proof -
  let ?s0 = "s\<lparr>processed_step_seq := processed_step_seq s + 1\<rparr>"
  define s1 where "s1 = (if defer_block_free e \<and> total_num_scheduled_tokens so > 0
              then process_step e s else s)"
  have q0: "sched_inv ?s0" by (rule detached_inv_cong [OF inv]) (simp_all add: same_queues_def)
  have "sched_inv (process_step e s)"
    unfolding process_step_def by (rule detached_inv_cong [OF q0]) simp_all
  then have inv1: "sched_inv s1" using inv by (simp add: s1_def)
  have life1: "same_life s s1" by (simp add: s1_def same_life_def process_step_def)
  have refl: "same_life s1 s1" by (simp add: same_life_def)
  let ?acc = "\<lambda>s. \<lparr>oa_state = s, oa_stopped_running = {}, oa_stopped_preempted = {}, oa_outputs = []\<rparr>"
  from ok obtain failed s2 a where
    h: "(case kv_output mo of Some out \<Rightarrow> if invalid_block_ids out \<noteq> {}
           then handle_invalid_blocks e (invalid_block_ids out) (num_scheduled_tokens so) s1
           else Ok ({}, s1) | None \<Rightarrow> Ok ({}, s1)) = Ok (failed, s2)"
    and loop: "foldE (output_step e so mo failed) (num_scheduled_tokens so) (?acc s2) = Ok a"
    and tail: "output_tail e mo failed a = Ok (outs, s')"
    by (auto simp: update_from_output_def s1_def [symmetric] bindE_eq_Inr_iff)
  have inv2: "sched_inv s2" and life2: "same_life s1 s2"
    using h inv1 handle_invalid_blocks_inv [OF inv1] handle_invalid_blocks_life [of e _ _ s1] refl
    by (auto split: option.splits if_splits)
  have v: "view (?acc s2) = s2" by (simp add: view_def)
  have "sched_inv (view a)"
    using ex same_life_expected [OF life1] same_life_expected [OF life2]
    by (intro output_loop_inv [OF L _ d _ _ loop]) (simp_all add: v inv2)
  then show ?thesis by (rule output_tail_inv [OF L(1) _ tail])
qed

end
