(* ===== verification/Sched_Reach.thy ===== *)
theory Sched_Reach
  imports Sched_Output
begin

text \<open>
  The states the scheduler can reach: a step relation over its operations
  (\<open>overlay/vllm/v1/core/sched/scheduler.py\<close>), the invariant of its queues by rule
  induction, and what the counters of \<open>get_num_unfinished_requests\<close> and
  \<open>finish_requests\<close> mean.

  \<open>schedule()\<close> enters with the four moves it makes on the queues: it preempts a running
  request, admits a waiting one, starts an asynchronous KV load for one, or sets one aside
  in the skipped queue; its end is \<open>schedule_tail\<close>.

  \<open>update_from_output\<close> enters where \<open>expected_output\<close> holds of the scheduled requests that are not finished.  The
  program has one step more: a streaming session that was preempted while its step was in flight may stop
  on that step's output.  That step loses the session, so the invariant holds of the states without
  it, and a property below shows the step.
\<close>

subsection \<open>Remaining operations keep the invariant\<close>

lemma detached_inv_to_running:
  assumes inv: "detached_inv D s" and i: "i \<in> D" and st: "status (objs s i) = RUNNING"
  shows "detached_inv (D - {i}) (s\<lparr>running := running s @ [i]\<rparr>)"
proof -
  have nq: "i \<notin> set (queued s)" using detached_invD(3) [OF inv] i by blast
  have lv: "live s i" by (rule detached_invD(4) [OF inv i])
  let ?s = "s\<lparr>running := running s @ [i]\<rparr>"
  have eq: "awaits_input ?s = awaits_input s" "live ?s = live s"
    by (simp_all add: awaits_input_def live_def fun_eq_iff)
  show ?thesis
    using inv nq lv st unfolding detached_inv_def queued_def eq by auto
qed

lemma detach_running:
  assumes inv: "detached_inv D s" and i: "i \<in> set (running s)"
    and r: "mset r = filter_mset (\<lambda>j. j \<notin> {i}) (mset (running s))"
  shows "detached_inv (D \<union> {i}) (s\<lparr>running := r\<rparr>)"
proof -
  have d: "i \<notin> set (waiting s)" "i \<notin> set (skipped_waiting s)"
    using detached_invD(2) [OF inv] i by (auto simp: queued_def)
  note keep = mset_without [symmetric]
  have R: "j \<in> {i} \<Longrightarrow> j \<in> set (queued s)" for j using i by (simp add: queued_def)
  have none: "filter (\<lambda>j. awaits_input s j \<and> j \<in> {i}) (skipped_waiting s) = []"
    using d(2) by (auto simp: filter_empty_conv)
  have "detached_inv (D \<union> {i}) (s\<lparr>num_waiting_for_streaming_input := num_waiting_for_streaming_input s,
      running := r, waiting := waiting s, skipped_waiting := skipped_waiting s\<rparr>)"
    by (rule detached_inv_detach [OF inv R keep [OF d(1)] keep [OF d(2)] r]) (use none in simp_all)
  then show ?thesis by simp
qed

lemma detach_waiting:
  assumes inv: "detached_inv D s" and i: "i \<in> set (waiting s) \<union> set (skipped_waiting s)"
    and aw: "\<not> awaits_input s i"
    and w: "mset w = filter_mset (\<lambda>j. j \<notin> {i}) (mset (waiting s))"
    and k: "mset k = filter_mset (\<lambda>j. j \<notin> {i}) (mset (skipped_waiting s))"
  shows "detached_inv (D \<union> {i}) (s\<lparr>waiting := w, skipped_waiting := k\<rparr>)"
proof -
  have "i \<notin> set (running s)" using detached_invD(2) [OF inv] i by (auto simp: queued_def)
  note r = mset_without [OF this, symmetric]
  have R: "j \<in> {i} \<Longrightarrow> j \<in> set (queued s)" for j using i by (auto simp: queued_def)
  have none: "filter (\<lambda>j. awaits_input s j \<and> j \<in> {i}) (skipped_waiting s) = []"
    using aw by (auto simp: filter_empty_conv)
  have "detached_inv (D \<union> {i}) (s\<lparr>num_waiting_for_streaming_input := num_waiting_for_streaming_input s,
      running := running s, waiting := w, skipped_waiting := k\<rparr>)"
    by (rule detached_inv_detach [OF inv R w k r]) (use none in simp_all)
  then show ?thesis by simp
qed

lemma reset_prefix_cache_inv:
  assumes L: "queue_laws e" and inv: "sched_inv s" and ok: "reset_prefix_cache e rr rc s = Ok (b, s')"
  shows "sched_inv s'"
proof -
  have loop: "sched_inv t'" if "sched_inv t" "running t = rev is" "foldE (preempt_last e) is t = Ok t'" for "is" t t'
    using that
  proof (induction "is" arbitrary: t)
    case (Cons i "is")
    from Cons.prems(3) obtain t1 where "preempt_last e i t = Ok t1"
      and rest: "foldE (preempt_last e) is t1 = Ok t'" by (auto simp: bindE_eq_Inr_iff)
    then have t1: "preempt_request e i True (t\<lparr>running := butlast (running t)\<rparr>) = Ok t1"
      by (simp add: preempt_last_def)
    have d: "distinct (running t)" using detached_invD(2) [OF Cons.prems(1)] by (simp add: queued_def)
    have "filter_mset (\<lambda>j. j \<noteq> i) (mset is) = mset is"
      using d Cons.prems(2) by (auto simp: filter_mset_eq_conv)
    then have m: "mset (butlast (running t)) = filter_mset (\<lambda>j. j \<notin> {i}) (mset (running t))"
      using Cons.prems(2) by simp
    have "detached_inv ({} \<union> {i}) (t\<lparr>running := butlast (running t)\<rparr>)"
      using Cons.prems(2) by (intro detach_running [OF Cons.prems(1) _ m]) simp
    from preempt_request_inv [OF L this _ t1] have inv1: "sched_inv t1" by simp
    have "running t1 = rev is"
      using t1 Cons.prems(2) by (auto simp: preempt_request_def Let_def bindE_eq_Inr_iff)
    from Cons.IH [OF inv1 this rest] show ?case .
  qed simp
  have world: "sched_inv u" if "sched_inv t" "same_queues t u" "requests u = requests t" for t u
    using detached_inv_cong that by blast
  obtain s1 where s1: "sched_inv s1" and s': "same_queues s1 s'" "requests s' = requests s1"
  proof (cases rr)
    case True
    then obtain t where t: "foldE (preempt_last e) (rev (running s)) s = Ok t"
      and s': "same_queues t s' \<and> requests s' = requests t"
      using ok by (auto simp: reset_prefix_cache_def Let_def bindE_eq_Inr_iff same_queues_def
          reset_connector_cache_def split_beta split: if_splits)
    show ?thesis using that [OF loop [OF inv _ t]] s' by simp
  next
    case False
    then show ?thesis using ok that [OF inv]
      by (auto simp: reset_prefix_cache_def Let_def same_queues_def
          reset_connector_cache_def split_beta split: if_splits)
  qed
  then show ?thesis using world by blast
qed

lemma remote_kv_frame:
  assumes "update_waiting_for_remote_kv e i s = Ok s'"
  shows "(\<exists>n. same_queues (upd_req i (\<lambda>r. r\<lparr>num_computed_tokens := n\<rparr>) s) s') \<and> requests s' = requests s"
proof -
  let ?n = "num_computed_tokens (objs s i)"
  have id: "(objs s)(i := (objs s i)\<lparr>num_computed_tokens := ?n\<rparr>) = objs s" by simp
  have "same_queues (upd_req i (\<lambda>r. r\<lparr>num_computed_tokens := ?n\<rparr>) s) s'
      \<or> same_queues (upd_req i (\<lambda>r. r\<lparr>num_computed_tokens := num_tokens r - 1\<rparr>) s) s'"
    using assms
    by (auto simp: update_waiting_for_remote_kv_def Let_def bindE_eq_Inr_iff same_queues_def id split: if_splits)
  moreover have "same_queues (upd_req i (\<lambda>r. r\<lparr>num_computed_tokens := num_tokens r - 1\<rparr>) s)
      = same_queues (upd_req i (\<lambda>r. r\<lparr>num_computed_tokens := num_tokens (objs s i) - 1\<rparr>) s)"
    by (simp add: upd_req_def)
  moreover have "requests s' = requests s"
    using assms
    by (auto simp: update_waiting_for_remote_kv_def Let_def bindE_eq_Inr_iff split: if_splits)
  ultimately show ?thesis by metis
qed

lemma promoted_inv:
  assumes inv: "sched_inv s" and i: "i \<in> set (skipped_waiting s)" and na: "\<not> awaits_input s i"
    and r: "request_id r = i" "status r \<in> {WAITING, PREEMPTED}"
    and s': "same_queues (upd_req i (\<lambda>_. r) s) s'" "requests s' = requests s"
  shows "sched_inv s'"
proof -
  have "sched_inv ((upd_req i (\<lambda>_. r) s)\<lparr>num_waiting_for_streaming_input := num_waiting_for_streaming_input s\<rparr>)"
    using r na by (intro skipped_status_inv [OF inv i]) auto
  then have "sched_inv (upd_req i (\<lambda>_. r) s)" by (simp add: upd_req_def)
  from detached_inv_cong [OF this s'(1)] s'(2) show ?thesis by simp
qed

lemma promote_inv:
  assumes inv: "sched_inv s" and i: "i \<in> set (skipped_waiting s)"
    and ok: "try_promote_blocked_waiting_request e i s = Ok (b, s')"
  shows "sched_inv s'"
proof -
  have rid: "request_id (objs s i) = i"
    using detached_invD(3,9) [OF inv, of i] i by (auto simp: live_def queued_def)
  consider (remote) s1 where "status (objs s i) = WAITING_FOR_REMOTE_KVS"
      "update_waiting_for_remote_kv e i s = Ok s1"
      "s' = upd_req i (\<lambda>r. r\<lparr>status := if num_preemptions r \<noteq> 0 then PREEMPTED else WAITING\<rparr>) s1"
    | (grammar) "status (objs s i) = WAITING_FOR_STRUCTURED_OUTPUT_GRAMMAR"
      "s' = upd_req i (\<lambda>r. r\<lparr>status := WAITING\<rparr>) s"
    | (same) "same_queues s s'" "requests s' = requests s"
    using ok unfolding try_promote_blocked_waiting_request_def
    by (cases "status (objs s i)")
      (auto simp: bindE_eq_Inr_iff same_queues_def split: grammar_state.splits if_splits)
  then show ?thesis
  proof cases
    case same then show ?thesis using detached_inv_cong [OF inv] by blast
  next
    case grammar
    then show ?thesis using rid
      by (intro promoted_inv [OF inv i, of "(objs s i)\<lparr>status := WAITING\<rparr>"])
        (auto simp: awaits_input_def same_queues_def upd_req_def)
  next
    case remote
    obtain n where n: "same_queues (upd_req i (\<lambda>r. r\<lparr>num_computed_tokens := n\<rparr>) s) s1" "requests s1 = requests s"
      using remote_kv_frame [OF remote(2)] by blast
    then have ob: "objs s1 i = (objs s i)\<lparr>num_computed_tokens := n\<rparr>" by (simp add: same_queues_def)
    show ?thesis using n remote rid
      by (intro promoted_inv [OF inv i, of "objs s' i"]) (auto simp: awaits_input_def same_queues_def upd_req_def)
  qed
qed


lemma after_schedule_step_inv:
  assumes "sched_inv (snd p)" and "after_schedule_step e x p = Ok p'"
  shows "sched_inv (snd p')"
proof -
  obtain i n b s where xp: "x = (i, n)" "p = (b, s)" by (metis surj_pair)
  define f where "f = (\<lambda>r. let r = r\<lparr>num_computed_tokens := num_computed_tokens r + n,
                          num_in_flight_tokens := num_in_flight_tokens r + n\<rparr>;
                    r = (if defer_block_free e then r\<lparr>last_sched_seq := sched_step_seq s\<rparr> else r)
                in r\<lparr>is_prefill_chunk := num_computed_tokens r < num_tokens r + num_output_placeholders r\<rparr>)"
  have "sched_inv (upd_req i f s)"
    using assms(1) by (intro plain_upd_inv) (simp_all add: xp f_def Let_def)
  moreover have "same_queues (upd_req i f s) (snd p') \<and> requests (snd p') = requests (upd_req i f s)"
    using assms(2)
    by (auto simp: after_schedule_step_def xp f_def [symmetric] Let_def [of "upd_req i f s"]
        Let_def [of "f (objs s i)"] same_queues_def split: if_splits)
  ultimately show ?thesis using detached_inv_cong by blast
qed

lemma schedule_tail_inv:
  assumes inv: "sched_inv s" and ok: "schedule_tail e so s = Ok (so', s')"
  shows "sched_inv s'"
proof -
  define s0 where "s0 = (if defer_block_free e \<and> total_num_scheduled_tokens so > 0
       then s\<lparr>sched_step_seq := sched_step_seq s + 1\<rparr> else s)"
  have s0: "sched_inv s0" by (rule detached_inv_cong [OF inv]) (simp_all add: s0_def same_queues_def)
  from ok obtain b s1 where fold: "foldE (after_schedule_step e) (num_scheduled_tokens so)
      (has_structured_output_requests so, s0) = Ok (b, s1)"
    and s': "same_queues s1 s'" "requests s' = requests s1"
    by (auto simp: schedule_tail_def s0_def [symmetric] update_after_schedule_def bindE_eq_Inr_iff
        same_queues_def split: option.splits)
  have "sched_inv (snd (b, s1))"
    by (rule foldE_invariant [OF fold, where P = "\<lambda>p. sched_inv (snd p)"])
      (use s0 after_schedule_step_inv in auto)
  then show ?thesis using detached_inv_cong s' by auto
qed

subsection \<open>Reachable states\<close>

text \<open>A waiting request \<open>i\<close> leaves its queue: the other requests stay.\<close>

definition without :: "rid \<Rightarrow> rid list \<Rightarrow> rid list \<Rightarrow> bool" where
  "without i q q' \<longleftrightarrow> mset q' = filter_mset (\<lambda>j. j \<notin> {i}) (mset q)"

inductive sched_reach :: "'x env \<Rightarrow> 'x sched \<Rightarrow> bool" for e where
  Init: "sched_reach e (init_sched w b)"
| Add: "sched_reach e s \<Longrightarrow> status r \<in> {WAITING, WAITING_FOR_STRUCTURED_OUTPUT_GRAMMAR} \<Longrightarrow>
    add_request e r s = Ok s' \<Longrightarrow> sched_reach e s'"
| Finish: "sched_reach e s \<Longrightarrow> distinct (or_default [] ids) \<Longrightarrow>
    finish_requests e ids fs s = Ok (valid, s') \<Longrightarrow> sched_reach e s'"
| Reset: "sched_reach e s \<Longrightarrow> reset_prefix_cache e rr rc s = Ok (b, s') \<Longrightarrow> sched_reach e s'"
| Pause: "sched_reach e s \<Longrightarrow> sched_reach e (set_pause_state p s)"
| Promote: "sched_reach e s \<Longrightarrow> i \<in> set (skipped_waiting s) \<Longrightarrow>
    try_promote_blocked_waiting_request e i s = Ok (b, s') \<Longrightarrow> sched_reach e s'"
| Preempt: "sched_reach e s \<Longrightarrow> i \<in> set (running s) \<Longrightarrow> without i (running s) q \<Longrightarrow>
    preempt_request e i d (s\<lparr>running := q\<rparr>) = Ok s' \<Longrightarrow> sched_reach e s'"
| Admit: "sched_reach e s \<Longrightarrow> i \<in> set (waiting s) \<union> set (skipped_waiting s) \<Longrightarrow>
    status (objs s i) \<in> {WAITING, PREEMPTED} \<Longrightarrow>
    without i (waiting s) w \<Longrightarrow> without i (skipped_waiting s) k \<Longrightarrow>
    sched_reach e ((upd_req i (\<lambda>r. r\<lparr>status := RUNNING, num_computed_tokens := n\<rparr>) s)\<lparr>
      world := x, waiting := w, skipped_waiting := k, running := running s @ [i]\<rparr>)"
| Start_Load: "sched_reach e s \<Longrightarrow> i \<in> set (waiting s) \<union> set (skipped_waiting s) \<Longrightarrow>
    status (objs s i) \<in> {WAITING, PREEMPTED} \<Longrightarrow>
    without i (waiting s) w \<Longrightarrow> without i (skipped_waiting s) k \<Longrightarrow> mset k' = add_mset i (mset k) \<Longrightarrow>
    sched_reach e ((upd_req i (\<lambda>r. r\<lparr>status := WAITING_FOR_REMOTE_KVS, num_computed_tokens := n\<rparr>) s)\<lparr>
      world := x, waiting := w, skipped_waiting := k'\<rparr>)"
| Set_Aside: "sched_reach e s \<Longrightarrow> i \<in> set (waiting s) \<Longrightarrow>
    without i (waiting s) w \<Longrightarrow> mset k' = add_mset i (mset (skipped_waiting s)) \<Longrightarrow>
    sched_reach e (s\<lparr>waiting := w, skipped_waiting := k'\<rparr>)"
| Dispatch: "sched_reach e s \<Longrightarrow> schedule_tail e so s = Ok (so', s') \<Longrightarrow> sched_reach e s'"
| Output: "sched_reach e s \<Longrightarrow> distinct (dict_keys (num_scheduled_tokens so)) \<Longrightarrow>
    \<forall>i\<in>set (dict_keys (num_scheduled_tokens so)). live s i \<longrightarrow> expected_output s i \<Longrightarrow>
    update_from_output e so mo s = Ok (outs, s') \<Longrightarrow> sched_reach e s'"

lemma init_inv: "sched_inv (init_sched w b)"
  by (simp add: detached_inv_def init_sched_def queued_def live_def)

lemma taken_inv:
  assumes inv: "sched_inv s" and i: "i \<in> set (waiting s) \<union> set (skipped_waiting s)"
    and st: "status (objs s i) \<in> {WAITING, PREEMPTED}"
    and w: "without i (waiting s) w" and k: "without i (skipped_waiting s) k"
    and st': "st \<in> {RUNNING, WAITING_FOR_REMOTE_KVS}"
  shows "detached_inv {i} (upd_req i (\<lambda>r. r\<lparr>status := st, num_computed_tokens := n\<rparr>)
    (s\<lparr>waiting := w, skipped_waiting := k\<rparr>))"
proof -
  have rid: "request_id (objs s i) = i"
    using detached_invD(3,9) [OF inv, of i] i by (auto simp: live_def queued_def)
  have "\<not> awaits_input s i" using st by (auto simp: awaits_input_def)
  from detach_waiting [OF inv i this w [unfolded without_def] k [unfolded without_def]]
  have "detached_inv {i} (s\<lparr>waiting := w, skipped_waiting := k\<rparr>)" by simp
  then show ?thesis using rid st' by (intro detached_inv_upd) auto
qed

lemma sched_reach_inv:
  assumes L: "queue_laws e" "request_laws e" and "sched_reach e s"
  shows "sched_inv s"
  using assms(3)
proof induction
  case (Finish s ids fs valid s')
  have "distinct (or_default (requests s) ids)"
    using detached_invD(1) [OF Finish.IH] Finish.hyps(2) by (cases ids) auto
  from finish_requests_inv [OF L(1) Finish.IH this Finish.hyps(3)] show ?case .
next
  case (Pause s p)
  then show ?case by (elim detached_inv_cong) (simp_all add: same_queues_def set_pause_state_def)
next
  case (Preempt s i q d s')
  have "detached_inv ({} \<union> {i}) (s\<lparr>running := q\<rparr>)"
    using Preempt by (intro detach_running) (simp_all add: without_def)
  from preempt_request_inv [OF L(1) this _ Preempt.hyps(4)] show ?case by simp
next
  case (Admit s i w k x n)
  from taken_inv [OF Admit.IH Admit.hyps(2-5), of RUNNING n]
  have inv: "detached_inv {i} (upd_req i (\<lambda>r. r\<lparr>status := RUNNING, num_computed_tokens := n\<rparr>)
    (s\<lparr>waiting := w, skipped_waiting := k\<rparr>))" by simp
  from detached_inv_to_running [OF inv, of i] have "sched_inv ((upd_req i
      (\<lambda>r. r\<lparr>status := RUNNING, num_computed_tokens := n\<rparr>) (s\<lparr>waiting := w, skipped_waiting := k\<rparr>))\<lparr>running := running s @ [i]\<rparr>)"
    by simp
  then show ?case by (rule detached_inv_cong) (simp_all add: same_queues_def)
next
  case (Start_Load s i w k k' x n)
  from taken_inv [OF Start_Load.IH Start_Load.hyps(2-5), of WAITING_FOR_REMOTE_KVS n]
  have inv: "detached_inv {i} (upd_req i (\<lambda>r. r\<lparr>status := WAITING_FOR_REMOTE_KVS, num_computed_tokens := n\<rparr>)
    (s\<lparr>waiting := w, skipped_waiting := k\<rparr>))" by simp
  from detached_inv_to_skipped [OF inv, of i k'] Start_Load.hyps(6) have "sched_inv ((upd_req i
      (\<lambda>r. r\<lparr>status := WAITING_FOR_REMOTE_KVS, num_computed_tokens := n\<rparr>)
      (s\<lparr>waiting := w, skipped_waiting := k\<rparr>))\<lparr>skipped_waiting := k',
      num_waiting_for_streaming_input := num_waiting_for_streaming_input s\<rparr>)"
    by (simp add: awaits_input_def)
  then show ?case by (rule detached_inv_cong) (simp_all add: same_queues_def)
next
  case (Set_Aside s i w k')
  have st: "status (objs s i) \<in> {WAITING, PREEMPTED}" using detached_invD(7) [OF Set_Aside.IH Set_Aside.hyps(2)] .
  then have na: "\<not> awaits_input s i" by (auto simp: awaits_input_def)
  have "i \<notin> set (skipped_waiting s)"
    using detached_invD(2) [OF Set_Aside.IH] Set_Aside.hyps(2) by (auto simp: queued_def)
  from detach_waiting [OF Set_Aside.IH _ na Set_Aside.hyps(3) [unfolded without_def] mset_without [OF this, symmetric]]
  have inv: "detached_inv {i} (s\<lparr>waiting := w, skipped_waiting := skipped_waiting s\<rparr>)"
    using Set_Aside.hyps(2) by simp
  from detached_inv_to_skipped [OF inv, of i k'] Set_Aside.hyps(4) st na
  show ?case by (auto simp: awaits_input_def)
next
  case (Init w b) show ?case by (rule init_inv)
next
  case Add show ?case by (rule add_request_inv [OF L Add.IH Add.hyps(2,3)])
next
  case Reset show ?case by (rule reset_prefix_cache_inv [OF L(1) Reset.IH Reset.hyps(2)])
next
  case Promote show ?case by (rule promote_inv [OF Promote.IH Promote.hyps(2,3)])
next
  case Dispatch show ?case by (rule schedule_tail_inv [OF Dispatch.IH Dispatch.hyps(2)])
next
  case Output
  show ?case by (rule update_from_output_inv [OF L Output.IH Output.hyps(2) _ Output.hyps(4)]) (use Output.hyps(3) in blast)
qed


subsection \<open>A concrete run\<close>

definition demo_start :: "demo_world sched" where
  "demo_start = init_sched \<lparr>dw_owned = (\<lambda>_. []), dw_ref = (\<lambda>_. 0)\<rparr> False"

text \<open>Two requests have arrived.\<close>

definition demo_two :: "demo_world sched" where
  "demo_two = demo_start\<lparr>
    objs := (objs demo_start)(''a'' := demo_request ''a'' False, ''b'' := demo_request ''b'' False),
    requests := [''a'', ''b''], waiting := [''a'', ''b'']\<rparr>"

lemma demo_two_reach: "sched_reach demo_env demo_two"
proof -
  let ?a = "demo_request ''a'' False" and ?b = "demo_request ''b'' False"
  have w: "status ?a \<in> {WAITING, WAITING_FOR_STRUCTURED_OUTPUT_GRAMMAR}"
    "status ?b \<in> {WAITING, WAITING_FOR_STRUCTURED_OUTPUT_GRAMMAR}" by (simp_all add: demo_request_def)
  obtain s1 where s1: "add_request demo_env ?a demo_start = Ok s1" "add_request demo_env ?b s1 = Ok demo_two"
    by (simp add: add_request_def Let_def demo_request_def demo_start_def init_sched_def demo_env_def
        enqueue_waiting_request_def is_blocked_waiting_status_def demo_two_def)
  have "sched_reach demo_env demo_start" unfolding demo_start_def by (rule Init)
  from Add [OF Add [OF this w(1) s1(1)] w(2) s1(2)] show ?thesis .
qed


subsection \<open>Properties\<close>

text \<open>C2: In every state of \<open>sched_reach\<close>, each unfinished request is in exactly one of the waiting, skipped and
  running queues and no finished or unknown request is in any; running requests have status RUNNING,
  waiting ones WAITING or PREEMPTED; the counter of sessions that wait for input is the number of skipped
  requests with that status.  \<open>sched_reach\<close> takes a step of \<open>update_from_output\<close> only where \<open>expected_output\<close> holds of
  every scheduled request that is unfinished: it is running, or it is neither a streaming session nor
  waiting for input.  The program also takes other such steps: a streaming session that is preempted
  while its step is in flight and stops on that step's output, after which it is in no queue (C36).\<close>

theorem scheduler_queues_consistent:
  assumes "queue_laws e" and "request_laws e" and "sched_reach e s"
  shows "distinct (waiting s @ skipped_waiting s @ running s)
    \<and> set (waiting s @ skipped_waiting s @ running s)
        = {i \<in> set (requests s). \<not> is_finished (status (objs s i))}
    \<and> (\<forall>i\<in>set (running s). status (objs s i) = RUNNING)
    \<and> (\<forall>i\<in>set (waiting s). status (objs s i) \<in> {WAITING, PREEMPTED})
    \<and> num_waiting_for_streaming_input s
        = int (length (filter (\<lambda>i. status (objs s i) = WAITING_FOR_STREAMING_REQ) (skipped_waiting s)))"
proof -
  note inv = sched_reach_inv [OF assms]
  have "awaits_input s = (\<lambda>i. status (objs s i) = WAITING_FOR_STREAMING_REQ)"
    by (simp add: awaits_input_def fun_eq_iff)
  then have n: "num_waiting_for_streaming_input s
        = int (length (filter (\<lambda>i. status (objs s i) = WAITING_FOR_STREAMING_REQ) (skipped_waiting s)))"
    using detached_invD(8) [OF inv] by simp
  have "set (queued s) = {i \<in> set (requests s). \<not> is_finished (status (objs s i))}"
    using detached_invD(3) [OF inv] by (auto simp: live_def)
  then show ?thesis using detached_invD(2,5,7) [OF inv] n by (simp add: queued_def)
qed

theorem scheduler_queues_consistent_witness:
  "set (waiting demo_two @ skipped_waiting demo_two @ running demo_two) = {''a'', ''b''}
    \<and> num_waiting_for_streaming_input demo_two = 0"
  using scheduler_queues_consistent [OF demo_env_laws demo_two_reach]
  by (auto simp: demo_two_def demo_start_def init_sched_def)

lemma card_unfinished:
  assumes inv: "sched_inv s"
  shows "int (card {i. live s i \<and> \<not> awaits_input s i})
    = int (length (queued s)) - num_waiting_for_streaming_input s"
proof -
  let ?A = "filter (awaits_input s) (skipped_waiting s)"
  have d: "distinct (queued s)" by (rule detached_invD(2) [OF inv])
  have aw: "i \<in> set (skipped_waiting s)" if "i \<in> set (queued s)" "awaits_input s i" for i
    using that detached_invD(5,7) [OF inv, of i] by (auto simp: queued_def awaits_input_def)
  have "{i. live s i \<and> \<not> awaits_input s i} = set (queued s) - set ?A"
    using detached_invD(3) [OF inv] aw by (auto simp: queued_def)
  moreover have "set ?A \<subseteq> set (queued s)" by (auto simp: queued_def)
  moreover have "card (set ?A) = length ?A" using d by (intro distinct_card) (simp add: queued_def)
  moreover have "length ?A \<le> length (queued s)" by (simp add: queued_def trans_le_add2 le_add1 length_filter_le le_trans [OF length_filter_le])
  ultimately show ?thesis
    using detached_invD(8) [OF inv] distinct_card [OF d] by (simp add: card_Diff_subset)
qed

text \<open>C20: In the states of \<open>sched_reach\<close>, where outputs come back only as \<open>expected_output\<close> demands, and while the
  scheduler is not paused, \<open>get_num_unfinished_requests\<close> is exactly the number of unfinished requests that do
  not wait for their next streaming input.  (After the step of C36 the count is off; a paused
  scheduler answers with the running requests or with none.)\<close>

theorem unfinished_count_exact:
  assumes "queue_laws e" and "request_laws e" and "sched_reach e s" and "p_state s = UNPAUSED"
  shows "get_num_unfinished_requests s
    = int (card {i \<in> set (requests s). \<not> is_finished (status (objs s i))
                   \<and> status (objs s i) \<noteq> WAITING_FOR_STREAMING_REQ})"
proof -
  have "{i \<in> set (requests s). \<not> is_finished (status (objs s i)) \<and> status (objs s i) \<noteq> WAITING_FOR_STREAMING_REQ}
      = {i. live s i \<and> \<not> awaits_input s i}" by (auto simp: live_def awaits_input_def)
  then show ?thesis
    using card_unfinished [OF sched_reach_inv [OF assms(1-3)]] assms(4)
    by (simp add: get_num_unfinished_requests_def queued_def)
qed

theorem unfinished_count_exact_witness: "get_num_unfinished_requests demo_two = 2"
proof -
  have "{i \<in> set (requests demo_two). \<not> is_finished (status (objs demo_two i))
       \<and> status (objs demo_two i) \<noteq> WAITING_FOR_STREAMING_REQ} = {''a'', ''b''}"
    by (auto simp: demo_two_def demo_request_def)
  with unfinished_count_exact [OF demo_env_laws demo_two_reach] show ?thesis
    by (simp add: demo_two_def demo_start_def init_sched_def)
qed

text \<open>C19: Promotion never fails an assertion: for a blocked request of the skipped queue in a reachable
  state, with a connector when the request waits for remote KV blocks, the promotion returns,
  and it reports success exactly when the request has left its blocked status.\<close>

theorem promotion_total:
  assumes "queue_laws e" and "request_laws e" and "sched_reach e s" and "i \<in> set (skipped_waiting s)"
    and "is_blocked_waiting_status (status (objs s i))"
    and "status (objs s i) = WAITING_FOR_REMOTE_KVS \<longrightarrow> has_connector e"
  shows "\<exists>b s'. try_promote_blocked_waiting_request e i s = Ok (b, s')
    \<and> (b \<longleftrightarrow> \<not> is_blocked_waiting_status (status (objs s' i)))"
proof -
  note inv = sched_reach_inv [OF assms(1-3)]
  have "i \<in> set (requests s)" using detached_invD(3) [OF inv, of i] assms(4) by (auto simp: live_def queued_def)
  then have sq: "awaits_input s i \<Longrightarrow> streaming_queue (objs s i) \<in> {None, Some []}"
    by (rule detached_invD(10) [OF inv])
  show ?thesis
    using assms(5,6) sq
    by (auto simp: is_blocked_waiting_status_def try_promote_blocked_waiting_request_def awaits_input_def
        update_waiting_for_remote_kv_def Let_def set_remove_def split: grammar_state.splits)
qed


definition demo_grammar :: "demo_world sched" where
  "demo_grammar = demo_start\<lparr>
    objs := (objs demo_start)(''g'' := (demo_request ''g'' False)\<lparr>status := WAITING_FOR_STRUCTURED_OUTPUT_GRAMMAR\<rparr>),
    requests := [''g''], skipped_waiting := [''g'']\<rparr>"

lemma demo_grammar_reach: "sched_reach demo_env demo_grammar"
proof -
  let ?g = "(demo_request ''g'' False)\<lparr>status := WAITING_FOR_STRUCTURED_OUTPUT_GRAMMAR\<rparr>"
  have "add_request demo_env ?g demo_start = Ok demo_grammar"
    by (simp add: add_request_def Let_def demo_request_def demo_start_def init_sched_def demo_env_def
        enqueue_waiting_request_def is_blocked_waiting_status_def demo_grammar_def)
  moreover have "sched_reach demo_env demo_start" unfolding demo_start_def by (rule Init)
  ultimately show ?thesis by (rule_tac Add [of _ demo_start ?g]) simp_all
qed

theorem promotion_total_witness:
  "\<exists>b s'. try_promote_blocked_waiting_request demo_env ''g'' demo_grammar = Ok (b, s')"
proof -
  have "is_blocked_waiting_status (status (objs demo_grammar ''g''))"
    by (simp add: demo_grammar_def is_blocked_waiting_status_def)
  moreover have "''g'' \<in> set (skipped_waiting demo_grammar)"
    "status (objs demo_grammar ''g'') = WAITING_FOR_REMOTE_KVS \<longrightarrow> has_connector demo_env"
    by (simp_all add: demo_grammar_def)
  ultimately show ?thesis using promotion_total [OF demo_env_laws demo_grammar_reach] by blast
qed

subsection \<open>A session lost after preemption\<close>

text \<open>A resumable request was scheduled, then preempted while its step was in flight.\<close>

definition demo_session :: "demo_world sched" where
  "demo_session = demo_start\<lparr>
    objs := (objs demo_start)(''s'' := (demo_request ''s'' True)\<lparr>
      status := PREEMPTED, streaming_queue := Some [], num_in_flight_tokens := 3,
      num_stale_output_tokens := 3, num_preemptions := 1, last_sched_seq := 1\<rparr>),
    requests := [''s''], waiting := [''s''], reset_preempted_req_ids := {''s''}, sched_step_seq := 1\<rparr>"

lemmas demo_eval = demo_start_def init_sched_def demo_env_def demo_request_def demo_session_def

lemma demo_session_reach: "sched_reach demo_env demo_session"
proof -
  let ?r = "demo_request ''s'' True"
  let ?so = "\<lparr>num_scheduled_tokens = [(''s'', 3)], total_num_scheduled_tokens = 3,
      scheduled_spec_decode_tokens = [], has_structured_output_requests = False\<rparr>"
  let ?upd = "\<lambda>f. demo_start\<lparr>objs := (objs demo_start)(''s'' := f (?r\<lparr>streaming_queue := Some []\<rparr>)),
      requests := [''s'']\<rparr>"
  let ?s1 = "(?upd (\<lambda>r. r))\<lparr>waiting := [''s'']\<rparr>"
  let ?s2 = "(?upd (\<lambda>r. r\<lparr>status := RUNNING\<rparr>))\<lparr>running := [''s'']\<rparr>"
  let ?s3 = "(?upd (\<lambda>r. r\<lparr>status := RUNNING, num_computed_tokens := 3, num_in_flight_tokens := 3,
      last_sched_seq := 1\<rparr>))\<lparr>running := [''s''], sched_step_seq := 1\<rparr>"
  have "add_request demo_env ?r demo_start = Ok ?s1"
    by (simp add: add_request_def Let_def demo_eval
        enqueue_waiting_request_def is_blocked_waiting_status_def)
  moreover have "sched_reach demo_env demo_start" unfolding demo_start_def by (rule Init)
  ultimately have s1: "sched_reach demo_env ?s1"
    by (rule_tac Add [of _ demo_start ?r]) (simp_all add: demo_request_def)
  have s2: "sched_reach demo_env ?s2"
    using Admit [OF s1, of "''s''" "[]" "[]" "world demo_start" 0]
    by (simp add: without_def demo_eval upd_req_def)
  have "schedule_tail demo_env ?so ?s2 = Ok (?so\<lparr>has_structured_output_requests := False\<rparr>, ?s3)"
    by (simp add: schedule_tail_def update_after_schedule_def after_schedule_step_def Let_def demo_eval upd_req_def)
  from Dispatch [OF s2 this] have s3: "sched_reach demo_env ?s3" .
  have q: "''s'' \<in> set (running ?s3)" "without ''s'' (running ?s3) []" by (simp_all add: without_def)
  have "preempt_request demo_env ''s'' False (?s3\<lparr>running := []\<rparr>) = Ok demo_session"
    by (simp add: preempt_request_def free_request_blocks_def demo_pop_def Let_def demo_eval upd_req_def
        fun_upd_idem)
  from Preempt [OF s3 q this] show ?thesis .
qed


text \<open>C36: A streaming session can be lost.  In a reachable state a resumable request is preempted while
  its step is in flight; the step's output then stops it.  \<open>_handle_stopped_request\<close> queues the
  session to wait for its next input, but \<open>update_from_output\<close> afterwards removes it from both
  waiting queues as a stopped preempted request.  The session is unfinished, is in no queue, and
  \<open>get_num_unfinished_requests\<close> is negative.\<close>

theorem preempted_session_lost:
  "\<exists>so mo outs s'. sched_reach demo_env demo_session
    \<and> update_from_output demo_env so mo demo_session = Ok (outs, s')
    \<and> ''s'' \<in> set (requests s') \<and> status (objs s' ''s'') = WAITING_FOR_STREAMING_REQ
    \<and> waiting s' = [] \<and> skipped_waiting s' = [] \<and> running s' = []
    \<and> get_num_unfinished_requests s' = - 1"
proof -
  let ?so = "\<lparr>num_scheduled_tokens = [(''s'', 3)], total_num_scheduled_tokens = 3,
      scheduled_spec_decode_tokens = [], has_structured_output_requests = False\<rparr>"
  let ?mo = "\<lparr>sampled_token_ids = [[5]], req_id_to_index = [(''s'', 0)], pooler_output = [],
      prompt_logprobs = {}, kv_output = None\<rparr>"
  have idx: "py_index [[5]] 0 = Ok [5 :: int]" by (simp add: py_index_def)
  have "\<exists>outs s'. update_from_output demo_env ?so ?mo demo_session = Ok (outs, s')
    \<and> ''s'' \<in> set (requests s') \<and> status (objs s' ''s'') = WAITING_FOR_STREAMING_REQ
    \<and> waiting s' = [] \<and> skipped_waiting s' = [] \<and> running s' = []
    \<and> get_num_unfinished_requests s' = - 1"
    by (simp add: update_from_output_def demo_eval output_step_def drain_tokens_def deliver_output_def
        settle_output_def stop_check_def advance_grammar_def handle_stop_def handle_stopped_request_def
        enqueue_waiting_request_def is_blocked_waiting_status_def output_tail_def drop_stopped_def
        process_step_def drain_deferred_frees_def roll_back_rejected_def get_num_unfinished_requests_def Let_def upd_req_def
        idx emit_def)
  then show ?thesis using demo_session_reach by blast
qed

subsection \<open>Failed loads\<close>

text \<open>C10: A KV load that failed is never trusted.  After the scan of \<open>_handle_invalid_blocks\<close>, every
  invalid block that held computed tokens of a scanned request is computed again: the request's own
  computed tokens are cut back to or before the block, or a request scanned earlier, which shares the
  block, is cut back to or before it.\<close>

theorem invalid_blocks_recomputed:
  assumes "block_size e > 0" and "distinct (pre @ i # post)"
    and "\<And>j. j \<in> set (pre @ i # post) \<Longrightarrow> request_id (objs s j) = j"
    and "update_requests_with_invalid_blocks e (pre @ i # post) invalid ns ev s = Ok a"
    and "kv_get_block_ids e (world s) i = [bl]" and "idx < length bl" and "bl ! idx \<in> invalid"
    and "int idx * block_size e < num_computed_tokens (objs s i) - or_default 0 (dict_get ns i)"
  shows "num_computed_tokens (objs (is_state a) i) \<le> int idx * block_size e
    \<or> (\<exists>j\<in>set pre. recomputes e (world s) (is_state a) j (bl ! idx))"
proof -
  let ?a0 = "\<lparr>is_state = s, is_affected = {}, is_total = 0, is_evict = {}, is_marked = {}\<rparr>"
  from assms(4) obtain a1 a2 where a1: "foldE (invalid_step e invalid ns ev) pre ?a0 = Ok a1"
    and a2: "invalid_step e invalid ns ev i a1 = Ok a2"
    and a: "foldE (invalid_step e invalid ns ev) post a2 = Ok a"
    by (auto simp: update_requests_with_invalid_blocks_def foldE_append bindE_eq_Inr_iff)
  have "scan_inv e s [] ?a0" by (simp add: scan_inv_def)
  from scan_inv_fold [OF assms(1) this _ _ a1] have inv1: "scan_inv e s pre a1"
    using assms(2,3) by auto
  have i: "i \<notin> set pre" "request_id (objs s i) = i" using assms(2,3) by auto
  note step = scan_inv_step [OF assms(1) inv1 i a2]
  have "objs (is_state a) j = objs (is_state a2) j" if "j \<in> set (pre @ [i])" for j
    using scan_inv_fold [OF assms(1) step(1) _ _ a] that assms(2,3) by auto
  then show ?thesis using step(2) [OF assms(5-8)] by (auto simp: recomputes_def)
qed

text \<open>Two running requests share block 7; both blocks 7 and 8 failed to load.\<close>

definition demo_shared :: "demo_world sched" where
  "demo_shared = demo_two\<lparr>
    world := \<lparr>dw_owned = (\<lambda>i. if i = ''a'' then [7, 8] else if i = ''b'' then [7, 9] else []), dw_ref = (\<lambda>_. 1)\<rparr>,
    objs := (objs demo_two)(''a'' := (demo_request ''a'' False)\<lparr>num_computed_tokens := 4\<rparr>,
      ''b'' := (demo_request ''b'' False)\<lparr>num_computed_tokens := 4\<rparr>)\<rparr>"

theorem invalid_blocks_recomputed_witness:
  "\<exists>a. update_requests_with_invalid_blocks demo_env [''a'', ''b''] {7, 8} [(''b'', 1)] True demo_shared = Ok a
    \<and> (num_computed_tokens (objs (is_state a) ''b'') \<le> 0
       \<or> (\<exists>j\<in>{''a''}. recomputes demo_env (world demo_shared) (is_state a) j 7))"
proof -
  obtain a where a: "update_requests_with_invalid_blocks demo_env ([''a''] @ ''b'' # []) {7, 8} [(''b'', 1)] True
      demo_shared = Ok a"
    by (simp add: update_requests_with_invalid_blocks_def invalid_step_def demo_shared_def demo_eval Let_def)
  have "num_computed_tokens (objs (is_state a) ''b'') \<le> int 0 * block_size demo_env
      \<or> (\<exists>j\<in>set [''a'']. recomputes demo_env (world demo_shared) (is_state a) j ([7, 9] ! 0))"
    by (rule invalid_blocks_recomputed [OF _ _ _ a])
      (auto simp: demo_shared_def demo_eval)
  then show ?thesis using a by (intro exI [of _ a]) simp
qed

end
