(* ===== verification/Sched_Fence.thy ===== *)
theory Sched_Fence
  imports Sched_Output
begin

text \<open>
  Blocks of a request whose step is still in flight
  (\<open>overlay/vllm/v1/core/sched/scheduler.py\<close>: \<open>_free_request_blocks\<close>,
  \<open>_free_cow_retained_blocks\<close>, \<open>_drain_deferred_frees\<close>, the two step counters), and the
  accounting of in-flight and stale tokens.

  The KV cache manager is another package.  What the scheduler relies on is stated over two
  observations of its state: the reference count of a block, and the blocks a request holds a
  reference on.  A block with reference count zero is in the free pool.
\<close>

subsection \<open>The KV cache manager's contract\<close>

text \<open>External calls that free no block.\<close>

definition keeps_blocks :: "('x \<Rightarrow> block \<Rightarrow> nat) \<Rightarrow> ('x \<Rightarrow> rid \<Rightarrow> block list) \<Rightarrow> 'x \<Rightarrow> 'x \<Rightarrow> bool" where
  "keeps_blocks refs owned w w' \<longleftrightarrow> refs w' = refs w \<and> owned w' = owned w"

text \<open>Some references of request \<open>i\<close> are given up, each with its count.\<close>

definition drops_blocks ::
  "('x \<Rightarrow> block \<Rightarrow> nat) \<Rightarrow> ('x \<Rightarrow> rid \<Rightarrow> block list) \<Rightarrow> rid \<Rightarrow> 'x \<Rightarrow> 'x \<Rightarrow> bool" where
  "drops_blocks refs owned i w w' \<longleftrightarrow>
    (\<forall>j. j \<noteq> i \<longrightarrow> owned w' j = owned w j) \<and>
    (\<forall>b. count_list (owned w' i) b \<le> count_list (owned w i) b
       \<and> refs w' b = refs w b - (count_list (owned w i) b - count_list (owned w' i) b))"

definition kv_laws :: "'x env \<Rightarrow> ('x \<Rightarrow> block \<Rightarrow> nat) \<Rightarrow> ('x \<Rightarrow> rid \<Rightarrow> block list) \<Rightarrow> bool" where
  "kv_laws e refs owned \<longleftrightarrow>
    (\<forall>w r. owned (kv_free e w r) = (owned w)(request_id r := [])
      \<and> (\<forall>b. refs (kv_free e w r) b = refs w b - count_list (owned w (request_id r)) b)) \<and>
    (\<forall>w r. fst (kv_pop_blocks_for_free e w r) = owned w (request_id r)
      \<and> owned (snd (kv_pop_blocks_for_free e w r)) = (owned w)(request_id r := [])
      \<and> refs (snd (kv_pop_blocks_for_free e w r)) = refs w) \<and>
    (\<forall>w bs. owned (pool_free_blocks e w bs) = owned w
      \<and> (\<forall>b. refs (pool_free_blocks e w bs) b = refs w b - count_list bs b)) \<and>
    (\<forall>w r. keeps_blocks refs owned w (encoder_free e w r)) \<and>
    (\<forall>w r. keeps_blocks refs owned w (snd (kv_finalize_partial_tail_offloads e w r))) \<and>
    (\<forall>w i p n. drops_blocks refs owned i w (kv_remove_skipped_blocks e w i p n)) \<and>
    (\<forall>w r b t. keeps_blocks refs owned w (snd (connector_register_tail e w r b t))) \<and>
    (\<forall>w r b. keeps_blocks refs owned w (snd (connector_request_finished e w r b))) \<and>
    (\<forall>w r b. keeps_blocks refs owned w (snd (connector_request_finished_all_groups e w r b))) \<and>
    (\<forall>w r. keeps_blocks refs owned w (snd (ec_request_finished e w r))) \<and>
    (\<forall>w r. keeps_blocks refs owned w (connector_new_request e w r)) \<and>
    (\<forall>w r n. keeps_blocks refs owned w (kv_cache_blocks e w r n)) \<and>
    (\<forall>w i n. keeps_blocks refs owned w (kv_record_blocks_for_zeroing e w i n))"

lemma kv_lawsD:
  assumes "kv_laws e refs owned"
  shows "owned (kv_free e w r) = (owned w)(request_id r := [])"
    and "refs (kv_free e w r) b = refs w b - count_list (owned w (request_id r)) b"
    and "fst (kv_pop_blocks_for_free e w r) = owned w (request_id r)"
    and "owned (snd (kv_pop_blocks_for_free e w r)) = (owned w)(request_id r := [])"
    and "refs (snd (kv_pop_blocks_for_free e w r)) = refs w"
    and "owned (pool_free_blocks e w bs) = owned w"
    and "refs (pool_free_blocks e w bs) b = refs w b - count_list bs b"
    and "keeps_blocks refs owned w (encoder_free e w r)"
    and "keeps_blocks refs owned w (snd (kv_finalize_partial_tail_offloads e w r))"
    and "drops_blocks refs owned i w (kv_remove_skipped_blocks e w i p n)"
    and "keeps_blocks refs owned w (snd (connector_register_tail e w r bb t))"
    and "keeps_blocks refs owned w (snd (connector_request_finished e w r bl))"
    and "keeps_blocks refs owned w (snd (connector_request_finished_all_groups e w r bb))"
    and "keeps_blocks refs owned w (snd (ec_request_finished e w r))"
    and "keeps_blocks refs owned w (connector_new_request e w r)"
    and "keeps_blocks refs owned w (kv_cache_blocks e w r n)"
    and "keeps_blocks refs owned w (kv_record_blocks_for_zeroing e w i n)"
  using assms by (simp_all add: kv_laws_def)

lemma keeps_trans:
  "keeps_blocks refs owned u v \<Longrightarrow> drops_blocks refs owned i v w \<Longrightarrow> drops_blocks refs owned i u w"
  "drops_blocks refs owned i u v \<Longrightarrow> keeps_blocks refs owned v w \<Longrightarrow> drops_blocks refs owned i u w"
  "drops_blocks refs owned i u u"
  by (auto simp: keeps_blocks_def drops_blocks_def)

subsection \<open>In-flight steps\<close>

text \<open>A step in flight: its sequence number and the blocks it may write.\<close>

type_synonym flight = "(nat \<times> block set) list"

definition deferred_count :: "(nat \<times> block list) list \<Rightarrow> block \<Rightarrow> nat" where
  "deferred_count q b = sum_list (map (\<lambda>(f, bs). count_list bs b) q)"

definition held_count :: "(rid \<Rightarrow> block list) \<Rightarrow> rid list \<Rightarrow> block \<Rightarrow> nat" where
  "held_count own rs b = (\<Sum>i\<in>set rs. count_list (own i) b)"

text \<open>Block \<open>b\<close>, which step \<open>k\<close> may write, is protected: a request scheduled in step \<open>k\<close> or later still
  holds it, or its release waits for step \<open>k\<close> or later.  A request that waits for an asynchronous load
  protects nothing: a failed load releases its blocks without a fence.\<close>

definition protected :: "(rid \<Rightarrow> block list) \<Rightarrow> 'x sched \<Rightarrow> nat \<Rightarrow> block \<Rightarrow> bool" where
  "protected own s k b \<longleftrightarrow>
    (\<exists>i\<in>set (requests s). status (objs s i) \<noteq> WAITING_FOR_REMOTE_KVS
         \<and> b \<in> set (own i) \<and> k \<le> last_sched_seq (objs s i))
    \<or> (\<exists>(f, bs)\<in>set (deferred_frees s). b \<in> set bs \<and> k \<le> f)"

lemma protected_iff:
  "protected own s k b \<longleftrightarrow>
    (\<exists>i\<in>set (requests s). status (objs s i) \<noteq> WAITING_FOR_REMOTE_KVS
         \<and> b \<in> set (own i) \<and> k \<le> last_sched_seq (objs s i))
    \<or> (\<exists>f bs. (f, bs) \<in> set (deferred_frees s) \<and> b \<in> set bs \<and> k \<le> f)"
  by (auto simp: protected_def)

definition fence_inv ::
  "('x \<Rightarrow> block \<Rightarrow> nat) \<Rightarrow> ('x \<Rightarrow> rid \<Rightarrow> block list) \<Rightarrow> 'x sched \<Rightarrow> flight \<Rightarrow> bool" where
  "fence_inv refs owned s fl \<longleftrightarrow>
    map fst fl = [Suc (processed_step_seq s)..<Suc (sched_step_seq s)]
    \<and> processed_step_seq s \<le> sched_step_seq s
    \<and> (\<forall>b. held_count (owned (world s)) (requests s) b + deferred_count (deferred_frees s) b
         \<le> refs (world s) b)
    \<and> (\<forall>i. i \<notin> set (requests s) \<longrightarrow> owned (world s) i = [])
    \<and> (\<forall>i\<in>set (requests s). request_id (objs s i) = i \<and> last_sched_seq (objs s i) \<le> sched_step_seq s)
    \<and> (\<forall>(k, B)\<in>set fl. \<forall>b\<in>B. protected (owned (world s)) s k b)
    \<and> (\<forall>(f, bs)\<in>set (deferred_frees s). f \<le> Suc (sched_step_seq s))"

lemma fence_invD:
  assumes "fence_inv refs owned s fl"
  shows "map fst fl = [Suc (processed_step_seq s)..<Suc (sched_step_seq s)]"
    and "processed_step_seq s \<le> sched_step_seq s"
    and "held_count (owned (world s)) (requests s) b + deferred_count (deferred_frees s) b \<le> refs (world s) b"
    and "i \<notin> set (requests s) \<Longrightarrow> owned (world s) i = []"
    and "i \<in> set (requests s) \<Longrightarrow> request_id (objs s i) = i"
    and "i \<in> set (requests s) \<Longrightarrow> last_sched_seq (objs s i) \<le> sched_step_seq s"
    and "(k, B) \<in> set fl \<Longrightarrow> b \<in> B \<Longrightarrow> protected (owned (world s)) s k b"
    and "(f, bs) \<in> set (deferred_frees s) \<Longrightarrow> f \<le> Suc (sched_step_seq s)"
  using assms unfolding fence_inv_def by (blast+)

lemma flight_bounds:
  assumes "fence_inv refs owned s fl" and "(k, B) \<in> set fl"
  shows "processed_step_seq s < k" and "k \<le> sched_step_seq s"
proof -
  have "k \<in> set (map fst fl)" using assms(2) by force
  then show "processed_step_seq s < k" "k \<le> sched_step_seq s"
    unfolding fence_invD(1) [OF assms(1)] by auto
qed

text \<open>A block that is still counted by a request or a deferred release is not free.\<close>

lemma held_pos: "i \<in> set rs \<Longrightarrow> b \<in> set (own i) \<Longrightarrow> 0 < held_count own rs b"
  unfolding held_count_def using count_list_0_iff [of "own i" b]
  by (metis List.finite_set gr0I sum_eq_0_iff)

lemma deferred_pos: "(f, bs) \<in> set q \<Longrightarrow> b \<in> set bs \<Longrightarrow> 0 < deferred_count q b"
  unfolding deferred_count_def using count_list_0_iff [of bs b]
  by (induction q) auto

lemma fence_inv_not_free:
  assumes inv: "fence_inv refs owned s fl" and kB: "(k, B) \<in> set fl" "b \<in> B"
  shows "0 < refs (world s) b"
  using fence_invD(7) [OF inv kB] fence_invD(3) [OF inv, of b] held_pos deferred_pos
  unfolding protected_def by fastforce


subsection \<open>Operations keep the fences\<close>

lemma held_count_upd:
  assumes "i \<in> set rs"
  shows "held_count (own(i := [])) rs b + count_list (own i) b = held_count own rs b"
proof -
  have "held_count own rs b = count_list (own i) b + (\<Sum>j\<in>set rs - {i}. count_list (own j) b)"
    unfolding held_count_def using assms by (intro sum.remove) simp_all
  moreover have "held_count (own(i := [])) rs b
      = count_list ((own(i := [])) i) b + (\<Sum>j\<in>set rs - {i}. count_list ((own(i := [])) j) b)"
    unfolding held_count_def using assms by (intro sum.remove) simp_all
  moreover have "(\<Sum>j\<in>set rs - {i}. count_list ((own(i := [])) j) b) = (\<Sum>j\<in>set rs - {i}. count_list (own j) b)"
    by (intro sum.cong) auto
  ultimately show ?thesis by simp
qed

lemma deferred_count_append [simp]:
  "deferred_count (p @ q) b = deferred_count p b + deferred_count q b"
  "deferred_count [] b = 0"
  "deferred_count ((f, bs) # q) b = count_list bs b + deferred_count q b"
  by (simp_all add: deferred_count_def)

text \<open>Only the external state, the requests, the deferred releases and the sequence numbers matter.\<close>

definition fence_core :: "'x sched \<Rightarrow> 'x sched \<Rightarrow> bool" where
  "fence_core s s' \<longleftrightarrow>
    requests s' = requests s \<and> deferred_frees s' = deferred_frees s
    \<and> sched_step_seq s' = sched_step_seq s \<and> processed_step_seq s' = processed_step_seq s
    \<and> (\<forall>i\<in>set (requests s). request_id (objs s' i) = request_id (objs s i)
         \<and> last_sched_seq (objs s' i) = last_sched_seq (objs s i)
         \<and> (status (objs s' i) = WAITING_FOR_REMOTE_KVS \<longrightarrow> status (objs s i) = WAITING_FOR_REMOTE_KVS))"

lemma fence_inv_keep:
  assumes "fence_inv refs owned s fl" and "fence_core s s'" and "keeps_blocks refs owned (world s) (world s')"
  shows "fence_inv refs owned s' fl"
proof -
  have "protected (owned (world s)) s' k b" if "protected (owned (world s)) s k b" for k b
    using that assms(2) unfolding protected_iff fence_core_def by metis
  then have prot: "\<forall>(k, B)\<in>set fl. \<forall>b\<in>B. protected (owned (world s)) s' k b"
    using fence_invD(7) [OF assms(1)] by blast
  have eqs: "requests s' = requests s" "deferred_frees s' = deferred_frees s"
    "sched_step_seq s' = sched_step_seq s" "processed_step_seq s' = processed_step_seq s"
    "owned (world s') = owned (world s)" "refs (world s') = refs (world s)"
    using assms(2,3) by (simp_all add: fence_core_def keeps_blocks_def)
  have ids: "\<forall>i\<in>set (requests s). request_id (objs s' i) = i \<and> last_sched_seq (objs s' i) \<le> sched_step_seq s"
    using assms(2) fence_invD(5,6) [OF assms(1)] by (simp add: fence_core_def)
  show ?thesis
    using assms(1) prot ids unfolding fence_inv_def eqs by (elim conjE, intro conjI) assumption+
qed

lemma fence_inv_drop:
  assumes inv: "fence_inv refs owned s fl" and i: "i \<in> set (requests s)"
    and d: "drops_blocks refs owned i (world s) w"
    and idle: "\<And>k B b. (k, B) \<in> set fl \<Longrightarrow> b \<in> B \<Longrightarrow> b \<in> set (owned (world s) i) \<Longrightarrow> b \<in> set (owned w i)"
  shows "fence_inv refs owned (s\<lparr>world := w\<rparr>) fl"
proof -
  let ?own = "owned (world s)" and ?own' = "owned w"
  have oth: "j \<noteq> i \<Longrightarrow> ?own' j = ?own j" and le: "count_list (?own' i) b \<le> count_list (?own i) b"
    and ref: "refs w b = refs (world s) b - (count_list (?own i) b - count_list (?own' i) b)" for j b
    using d by (auto simp: drops_blocks_def)
  have eq: "?own'(i := []) = ?own(i := [])" using oth by auto
  have cnt: "held_count ?own' (requests s) b + deferred_count (deferred_frees s) b \<le> refs w b" for b
    using held_count_upd [OF i, of ?own b] held_count_upd [OF i, of ?own' b] fence_invD(3) [OF inv, of b]
      le [of b] unfolding eq ref by linarith
  have prot: "protected ?own' (s\<lparr>world := w\<rparr>) k b" if "(k, B) \<in> set fl" "b \<in> B" for k B b
  proof -
    have "b \<in> set (?own j) \<Longrightarrow> b \<in> set (?own' j)" for j using idle [OF that] oth by (cases "j = i") auto
    then show ?thesis using fence_invD(7) [OF inv that] unfolding protected_def by auto
  qed
  have none: "?own' j = []" if "j \<notin> set (requests s)" for j
    using fence_invD(4) [OF inv that] oth i that by (cases "j = i") auto
  show ?thesis using inv cnt prot none unfolding fence_inv_def by auto
qed

lemma protected_free:
  assumes p: "protected own s k b" and q: "set (deferred_frees s) \<subseteq> set q"
    and i: "status (objs s i) \<noteq> WAITING_FOR_REMOTE_KVS \<Longrightarrow> b \<in> set (own i) \<Longrightarrow>
      k \<le> last_sched_seq (objs s i) \<Longrightarrow> \<exists>f bs. (f, bs) \<in> set q \<and> b \<in> set bs \<and> k \<le> f"
  shows "protected (own(i := [])) (s\<lparr>world := w, deferred_frees := q\<rparr>) k b"
proof -
  have iff: "protected own' (s\<lparr>world := w, deferred_frees := q\<rparr>) k b \<longleftrightarrow>
      (\<exists>j\<in>set (requests s). status (objs s j) \<noteq> WAITING_FOR_REMOTE_KVS
         \<and> b \<in> set (own' j) \<and> k \<le> last_sched_seq (objs s j))
      \<or> (\<exists>f bs. (f, bs) \<in> set q \<and> b \<in> set bs \<and> k \<le> f)" for own'
    by (auto simp: protected_def)
  from p consider j where "j \<in> set (requests s)" "status (objs s j) \<noteq> WAITING_FOR_REMOTE_KVS"
        "b \<in> set (own j)" "k \<le> last_sched_seq (objs s j)"
    | f bs where "(f, bs) \<in> set (deferred_frees s)" "b \<in> set bs" "k \<le> f"
    by (auto simp: protected_def)
  then show ?thesis
  proof cases
    case 1
    show ?thesis
    proof (cases "j = i")
      case True
      then have "\<exists>f bs. (f, bs) \<in> set q \<and> b \<in> set bs \<and> k \<le> f" using i 1(2-4) by simp
      then show ?thesis unfolding iff by (rule disjI2)
    next
      case False
      then show ?thesis unfolding iff using 1 by (intro disjI1 bexI [of _ j]) simp_all
    qed
  next
    case 2
    then show ?thesis unfolding iff using q by blast
  qed
qed

lemma fence_inv_free_request_blocks:
  assumes L: "kv_laws e refs owned" and D: "defer_block_free e" and inv: "fence_inv refs owned s fl"
    and i: "i \<in> set (requests s)"
  shows "fence_inv refs owned (free_request_blocks e i s) fl \<and> owned (world (free_request_blocks e i s)) i = []"
proof -
  let ?r = "objs s i" and ?own = "owned (world s)"
  have rid: "request_id ?r = i" by (rule fence_invD(5) [OF inv i])
  have hc: "held_count (?own(i := [])) (requests s) b + count_list (?own i) b = held_count ?own (requests s) b" for b
    by (rule held_count_upd [OF i])
  note inv' = inv [unfolded fence_inv_def]
  show ?thesis
  proof (cases "last_sched_seq ?r \<le> processed_step_seq s")
    case True
    let ?w = "kv_free e (world s) ?r"
    have own: "owned ?w = ?own(i := [])" using kv_lawsD(1) [OF L, of "world s" ?r] rid by simp
    have cnt: "held_count (?own(i := [])) (requests s) b + deferred_count (deferred_frees s) b \<le> refs ?w b" for b
      using hc [of b] fence_invD(3) [OF inv, of b] kv_lawsD(2) [OF L, of "world s" ?r b] rid by simp
    have prot: "protected (?own(i := [])) (s\<lparr>world := ?w\<rparr>) k b" if "(k, B) \<in> set fl" "b \<in> B" for k B b
      using protected_free [OF fence_invD(7) [OF inv that], of "deferred_frees s" i ?w]
        flight_bounds(1) [OF inv that(1)] True by simp
    have "fence_inv refs owned (s\<lparr>world := ?w\<rparr>) fl"
      using inv' cnt prot unfolding fence_inv_def by (auto simp: own)
    then show ?thesis using True by (simp add: free_request_blocks_def own)
  next
    case False
    let ?w = "snd (kv_pop_blocks_for_free e (world s) ?r)"
    let ?q = "if ?own i = [] then deferred_frees s else deferred_frees s @ [(sched_step_seq s, ?own i)]"
    let ?s = "s\<lparr>world := ?w, deferred_frees := ?q\<rparr>"
    have pop: "fst (kv_pop_blocks_for_free e (world s) ?r) = ?own i" "owned ?w = ?own(i := [])" "refs ?w = refs (world s)"
      using kv_lawsD(3-5) [OF L, of "world s" ?r] rid by simp_all
    have eq: "free_request_blocks e i s = ?s"
      using D False pop(1) by (auto simp: free_request_blocks_def Let_def split_beta)
    have cnt: "held_count (?own(i := [])) (requests s) b + deferred_count ?q b \<le> refs ?w b" for b
      using hc [of b] fence_invD(3) [OF inv, of b] pop(3) by simp
    have prot: "protected (?own(i := [])) ?s k b" if kB: "(k, B) \<in> set fl" "b \<in> B" for k B b
    proof (rule protected_free [OF fence_invD(7) [OF inv kB]])
      assume "b \<in> set (?own i)"
      then have "(sched_step_seq s, ?own i) \<in> set ?q" by auto
      then show "\<exists>f bs. (f, bs) \<in> set ?q \<and> b \<in> set bs \<and> k \<le> f"
        using flight_bounds(2) [OF inv kB(1)] \<open>b \<in> set (?own i)\<close> by blast
    qed auto
    have "fence_inv refs owned ?s fl"
      using inv' cnt prot unfolding fence_inv_def by (auto simp: pop(2))
    then show ?thesis unfolding eq by (simp add: pop(2))
  qed
qed


lemma fence_inv_remove:
  assumes inv: "fence_inv refs owned s fl" and i: "owned (world s) i = []"
  shows "fence_inv refs owned (s\<lparr>requests := remove1 i (requests s)\<rparr>) fl"
proof -
  let ?rs = "remove1 i (requests s)"
  have sub: "set ?rs \<subseteq> set (requests s)" by (rule set_remove1_subset)
  have "held_count (owned (world s)) ?rs b \<le> held_count (owned (world s)) (requests s) b" for b
    unfolding held_count_def using sub by (intro sum_mono2) auto
  then have cnt: "held_count (owned (world s)) ?rs b + deferred_count (deferred_frees s) b \<le> refs (world s) b" for b
    using fence_invD(3) [OF inv, of b] by (meson add_le_mono1 order_trans)
  have in_rs: "j \<in> set ?rs" if "j \<in> set (requests s)" "b \<in> set (owned (world s) j)" for j b
    using that i by (cases "j = i") auto
  have prot: "protected (owned (world s)) (s\<lparr>requests := ?rs\<rparr>) k b" if "(k, B) \<in> set fl" "b \<in> B" for k B b
    using fence_invD(7) [OF inv that] in_rs unfolding protected_def by auto
  have none: "owned (world s) j = []" if "j \<notin> set ?rs" for j
    using fence_invD(4) [OF inv, of j] i that by (cases "j = i") auto
  show ?thesis using inv cnt prot none sub unfolding fence_inv_def by auto
qed

lemma fence_inv_free_blocks:
  assumes L: "kv_laws e refs owned" and D: "defer_block_free e" and inv: "fence_inv refs owned s fl"
    and ok: "free_blocks e i s = Ok s'"
  shows "fence_inv refs owned s' fl"
proof -
  have i: "i \<in> set (requests s)" and s': "s' = (free_request_blocks e i s)\<lparr>requests := remove1 i (requests s)\<rparr>"
    using ok by (auto simp: free_blocks_def Let_def bindE_eq_Inr_iff split: if_splits)
  note fr = fence_inv_free_request_blocks [OF L D inv i]
  then show ?thesis unfolding s' using fence_inv_remove [of refs owned "free_request_blocks e i s" fl i] by simp
qed

text \<open>\<open>_connector_finished\<close> gives up references of the request's out-of-window blocks only.  What
  the caller relies on: no step in flight writes them.\<close>

definition skips_idle ::
  "'x env \<Rightarrow> ('x \<Rightarrow> block \<Rightarrow> nat) \<Rightarrow> ('x \<Rightarrow> rid \<Rightarrow> block list) \<Rightarrow> flight \<Rightarrow> 'x sched \<Rightarrow> rid \<Rightarrow> bool" where
  "skips_idle e refs owned fl s i \<longleftrightarrow>
    (\<forall>w k B b. keeps_blocks refs owned (world s) w \<longrightarrow> (k, B) \<in> set fl \<longrightarrow> b \<in> B \<longrightarrow>
      b \<in> set (owned w i) \<longrightarrow>
      b \<in> set (owned (kv_remove_skipped_blocks e w i
              (max 0 (num_computed_tokens (objs s i) - num_in_flight_tokens (objs s i)))
              (num_prompt_tokens (objs s i))) i))"

lemma connector_finished_drops:
  assumes L: "kv_laws e refs owned" and rid: "request_id (objs s i) = i"
    and idle: "has_connector e \<Longrightarrow> skips_idle e refs owned fl s i" and ok: "connector_finished e i s = Ok (p, s')"
  shows "drops_blocks refs owned i (world s) (world s')
    \<and> (\<forall>k B b. (k, B) \<in> set fl \<longrightarrow> b \<in> B \<longrightarrow> b \<in> set (owned (world s) i) \<longrightarrow> b \<in> set (owned (world s') i))"
proof (cases "has_connector e")
  case False
  then show ?thesis using ok by (simp add: connector_finished_def keeps_trans(3))
next
  case True
  let ?r = "objs s i"
  define w1 where "w1 = (if is_kv_producer e = Some True
      then snd (kv_finalize_partial_tail_offloads e (world s) ?r) else world s)"
  have k1: "keeps_blocks refs owned (world s) w1"
    using kv_lawsD(9) [OF L] by (simp add: w1_def keeps_blocks_def)
  define w2 where "w2 = kv_remove_skipped_blocks e w1 i
      (max 0 (num_computed_tokens ?r - num_in_flight_tokens ?r)) (num_prompt_tokens ?r)"
  have d2: "drops_blocks refs owned i (world s) w2"
    unfolding w2_def by (rule keeps_trans(1) [OF k1 kv_lawsD(10) [OF L]])
  have k3: "keeps_blocks refs owned w2 (world s')"
    using ok True rid kv_lawsD(11-13) [OF L]
    by (auto simp: connector_finished_def Let_def split_beta bindE_eq_Inr_iff keeps_blocks_def
        w1_def w2_def split: if_splits)
  have o: "owned w1 = owned (world s)" "owned (world s') = owned w2" using k1 k3 by (simp_all add: keeps_blocks_def)
  show ?thesis
    using keeps_trans(2) [OF d2 k3] idle [OF True] k1 unfolding skips_idle_def o(2) w2_def o(1) [symmetric] by blast
qed


lemma fence_inv_free_request:
  assumes L: "kv_laws e refs owned" and D: "defer_block_free e" and inv: "fence_inv refs owned s fl"
    and i: "i \<in> set (requests s)" and idle: "has_connector e \<Longrightarrow> skips_idle e refs owned fl s i"
    and ok: "free_request e i d s = Ok (p, s')"
  shows "fence_inv refs owned s' fl"
proof -
  define s0 where "s0 = s\<lparr>dsv41_pp_sent := dict_pop (request_id (objs s i)) (dsv41_pp_sent s),
    inflight_prefills := inflight_prefills s - {i}\<rparr>"
  from ok obtain q s1 where c: "connector_finished e i s0 = Ok (q, s1)"
    by (auto simp: free_request_def Let_def bindE_eq_Inr_iff s0_def)
  obtain w1 where w1: "s1 = s0\<lparr>world := w1\<rparr>" using connector_finished_frame [OF c] by blast
  have rid: "request_id (objs s i) = i" by (rule fence_invD(5) [OF inv i])
  have inv0: "fence_inv refs owned s0 fl"
    by (rule fence_inv_keep [OF inv]) (simp_all add: s0_def fence_core_def keeps_blocks_def)
  have idle0: "has_connector e \<Longrightarrow> skips_idle e refs owned fl s0 i" using idle by (simp add: skips_idle_def s0_def)
  have "drops_blocks refs owned i (world s0) w1 \<and>
     (\<forall>k B b. (k, B) \<in> set fl \<longrightarrow> b \<in> B \<longrightarrow> b \<in> set (owned (world s0) i) \<longrightarrow> b \<in> set (owned w1 i))"
    using connector_finished_drops [OF L _ idle0 c] rid by (simp add: w1 s0_def)
  then have inv1: "fence_inv refs owned s1 fl"
    unfolding w1 using i by (intro fence_inv_drop [OF inv0, of i]) (auto simp: s0_def)
  obtain s2 where s2: "fence_core s1 s2" "keeps_blocks refs owned (world s1) (world s2)"
    and s': "s' = s2 \<or> free_blocks e i s2 = Ok s'"
  proof -
    define w2 where "w2 = encoder_free e (if has_ec_connector e
        then snd (ec_request_finished e (world s1) (objs s1 i)) else world s1) (objs s1 i)"
    have "keeps_blocks refs owned (world s1) w2"
      using kv_lawsD(8,14) [OF L] by (simp add: w2_def keeps_blocks_def)
    then show ?thesis
      using ok c that [of "s1\<lparr>world := w2, finished_req_ids := insert (request_id (objs s1 i)) (finished_req_ids s1),
         finished_req_ids_dict := map_option (\<lambda>d. d(client_index (objs s1 i) :=
            insert (request_id (objs s1 i)) (d (client_index (objs s1 i))))) (finished_req_ids_dict s1)\<rparr>"]
      by (auto simp: free_request_def Let_def split_beta bindE_eq_Inr_iff s0_def fence_core_def w2_def split: if_splits)
  qed
  have inv2: "fence_inv refs owned s2 fl" by (rule fence_inv_keep [OF inv1 s2])
  then show ?thesis using s' fence_inv_free_blocks [OF L D inv2] by auto
qed

lemma fence_inv_preempt:
  assumes L: "kv_laws e refs owned" and D: "defer_block_free e" and inv: "fence_inv refs owned s fl"
    and i: "i \<in> set (requests s)" and ok: "preempt_request e i d s = Ok s'"
  shows "fence_inv refs owned s' fl"
proof -
  let ?s = "free_request_blocks e i s"
  have "fence_inv refs owned ?s fl" using fence_inv_free_request_blocks [OF L D inv i] by blast
  moreover have "fence_core ?s s'" "keeps_blocks refs owned (world ?s) (world s')"
    using ok kv_lawsD(8) [OF L]
    by (auto simp: preempt_request_def Let_def bindE_eq_Inr_iff fence_core_def upd_req_def split: if_splits)
  ultimately show ?thesis by (rule fence_inv_keep)
qed

lemma drain_loop_spec:
  assumes L: "kv_laws e refs owned" and "drain_loop e seq q w = (q', w')"
    and "\<And>b. H b + deferred_count q b \<le> refs w b"
  shows "owned w' = owned w \<and> (\<forall>b. H b + deferred_count q' b \<le> refs w' b)
    \<and> set q' \<subseteq> set q \<and> (\<forall>x\<in>set q. fst x > seq \<longrightarrow> x \<in> set q')
    \<and> (q' \<noteq> [] \<longrightarrow> fst (hd q') > seq)"
  using assms(2,3)
proof (induction q arbitrary: w)
  case (Cons x q)
  obtain fence blocks where x: "x = (fence, blocks)" by (cases x)
  show ?case
  proof (cases "fence > seq")
    case True
    then show ?thesis using Cons.prems by (auto simp: x)
  next
    case False
    let ?w = "pool_free_blocks e w (rev blocks)"
    have "drain_loop e seq q ?w = (q', w')" using Cons.prems(1) False by (simp add: x)
    moreover have "H b + deferred_count q b \<le> refs ?w b" for b
      using Cons.prems(2) [of b] by (simp add: kv_lawsD(7) [OF L] x)
    ultimately show ?thesis using Cons.IH [of ?w] False kv_lawsD(6) [OF L] by (auto simp: x)
  qed
qed simp

lemma fence_inv_process:
  assumes L: "kv_laws e refs owned" and inv: "fence_inv refs owned s ((k, B) # fl)"
  shows "fence_inv refs owned (process_step e s) fl"
proof -
  let ?n = "processed_step_seq s + 1"
  obtain q w where dl: "drain_loop e ?n (deferred_frees s) (world s) = (q, w)"
    by (cases "drain_loop e ?n (deferred_frees s) (world s)")
  have ps: "process_step e s = s\<lparr>processed_step_seq := ?n, deferred_frees := q, world := w\<rparr>"
    using dl by (simp add: process_step_def drain_deferred_frees_def)
  note sp = drain_loop_spec [OF L dl fence_invD(3) [OF inv]]
  have fst: "k # map fst fl = [Suc (processed_step_seq s)..<Suc (sched_step_seq s)]"
    using fence_invD(1) [OF inv] by simp
  then have lt: "processed_step_seq s < sched_step_seq s" by (metis list.discI not_less_eq upt_conv_Nil le_simps(2) leI)
  then have fl: "map fst fl = [Suc ?n..<Suc (sched_step_seq s)]" using fst by (simp add: upt_conv_Cons del: upt_Suc)
  have prot: "protected (owned w) (process_step e s) k' b" if "(k', B') \<in> set fl" "b \<in> B'" for k' B' b
  proof -
    have "k' \<in> set (map fst fl)" using that(1) by force
    then have "k' > ?n" unfolding fl by auto
    then have "(f, bs) \<in> set q" if "(f, bs) \<in> set (deferred_frees s)" "k' \<le> f" for f bs
      using sp that by fastforce
    moreover have "protected (owned (world s)) s k' b"
      using fence_invD(7) [OF inv, of k' B' b] that by simp
    ultimately show ?thesis using sp unfolding protected_iff ps by (simp, blast)
  qed
  show ?thesis
    using inv prot sp fl lt unfolding fence_inv_def by (auto simp: ps)
qed


lemma after_schedule_fold:
  assumes "foldE (after_schedule_step e) ns (b, s) = Ok (b', s')" and "defer_block_free e"
  shows "world s' = world s \<and> requests s' = requests s \<and> deferred_frees s' = deferred_frees s
    \<and> sched_step_seq s' = sched_step_seq s \<and> processed_step_seq s' = processed_step_seq s
    \<and> set (dict_keys ns) \<subseteq> set (requests s)
    \<and> (\<forall>i. request_id (objs s' i) = request_id (objs s i)
         \<and> status (objs s' i) = status (objs s i)
         \<and> last_sched_seq (objs s' i)
             = (if i \<in> set (dict_keys ns) then sched_step_seq s else last_sched_seq (objs s i)))"
  using assms(1)
proof (induction ns arbitrary: b s)
  case (Cons x ns)
  obtain i n where x: "x = (i, n)" by (cases x)
  from Cons.prems obtain b1 s1 where s1: "after_schedule_step e (i, n) (b, s) = Ok (b1, s1)"
    and rest: "foldE (after_schedule_step e) ns (b1, s1) = Ok (b', s')"
    by (auto simp: x bindE_eq_Inr_iff)
  have one: "world s1 = world s \<and> requests s1 = requests s \<and> deferred_frees s1 = deferred_frees s
    \<and> sched_step_seq s1 = sched_step_seq s \<and> processed_step_seq s1 = processed_step_seq s
    \<and> i \<in> set (requests s) \<and> (\<forall>j. request_id (objs s1 j) = request_id (objs s j)
         \<and> status (objs s1 j) = status (objs s j)
         \<and> last_sched_seq (objs s1 j) = (if j = i then sched_step_seq s else last_sched_seq (objs s j)))"
    using s1 assms(2) by (auto simp: after_schedule_step_def Let_def split: if_splits)
  show ?case using Cons.IH [OF rest] one by (simp add: x)
qed simp

lemma fence_inv_dispatch:
  assumes D: "defer_block_free e" and inv: "fence_inv refs owned s fl"
    and pos: "total_num_scheduled_tokens so > 0"
    and run: "\<And>i. i \<in> set (dict_keys (num_scheduled_tokens so)) \<Longrightarrow> status (objs s i) = RUNNING"
    and ok: "schedule_tail e so s = Ok (so', s')"
  shows "fence_inv refs owned s'
    (fl @ [(Suc (sched_step_seq s), \<Union>i\<in>set (dict_keys (num_scheduled_tokens so)). set (owned (world s) i))])"
proof -
  let ?keys = "set (dict_keys (num_scheduled_tokens so))" and ?n = "Suc (sched_step_seq s)"
  from ok D pos obtain b s1 where fold: "foldE (after_schedule_step e) (num_scheduled_tokens so)
      (has_structured_output_requests so, s\<lparr>sched_step_seq := ?n\<rparr>) = Ok (b, s1)"
    and s': "fence_core s1 s'" "world s' = world s1"
    by (auto simp: schedule_tail_def update_after_schedule_def bindE_eq_Inr_iff fence_core_def
        split: option.splits)
  note af = after_schedule_fold [OF fold D]
  have keep: "world s' = world s" "requests s' = requests s" "deferred_frees s' = deferred_frees s"
    "sched_step_seq s' = ?n" "processed_step_seq s' = processed_step_seq s" "?keys \<subseteq> set (requests s)"
    using af s' by (auto simp: fence_core_def)
  have obj: "request_id (objs s' i) = request_id (objs s i)"
    "status (objs s' i) = WAITING_FOR_REMOTE_KVS \<Longrightarrow> status (objs s i) = WAITING_FOR_REMOTE_KVS"
    "last_sched_seq (objs s' i) = (if i \<in> ?keys then ?n else last_sched_seq (objs s i))"
    if "i \<in> set (requests s)" for i
    using af s' that by (auto simp: fence_core_def)
  have le: "last_sched_seq (objs s i) \<le> last_sched_seq (objs s' i)" if "i \<in> set (requests s)" for i
    using obj(3) [OF that] fence_invD(6) [OF inv that] by simp
  have old: "protected (owned (world s)) s' k b" if "(k, B) \<in> set fl" "b \<in> B" for k B b
    using fence_invD(7) [OF inv that] le obj(2) unfolding protected_iff keep by (meson order_trans)
  have new: "protected (owned (world s)) s' ?n b" if "i \<in> ?keys" "b \<in> set (owned (world s) i)" for i b
  proof -
    have i: "i \<in> set (requests s)" using that(1) keep(6) by blast
    moreover have "status (objs s' i) \<noteq> WAITING_FOR_REMOTE_KVS" using obj(2) [OF i] run [OF that(1)] by auto
    ultimately show ?thesis using that obj(3) unfolding protected_iff keep by (intro disjI1 bexI [of _ i]) simp_all
  qed
  have prot: "\<forall>(k, B)\<in>set (fl @ [(?n, \<Union>i\<in>?keys. set (owned (world s) i))]).
      \<forall>b\<in>B. protected (owned (world s)) s' k b"
    using old new by fastforce
  have seq: "map fst fl @ [?n] = [Suc (processed_step_seq s)..<Suc ?n]"
    using fence_invD(1,2) [OF inv] by simp
  have last: "last_sched_seq (objs s' i) \<le> ?n" if "i \<in> set (requests s)" for i
    using obj(3) [OF that] fence_invD(6) [OF inv that] by simp
  have fences: "f \<le> Suc ?n" if "(f, bs) \<in> set (deferred_frees s)" for f bs
    using fence_invD(8) [OF inv that] by simp
  show ?thesis
    using fence_invD(2-5) [OF inv] prot seq last fences obj(1) unfolding fence_inv_def keep
    by (auto simp del: upt_Suc)
qed

lemma held_count_grow:
  assumes "i \<in> set rs"
  shows "held_count (own(i := own i @ bs)) rs b = held_count own rs b + count_list bs b"
  using held_count_upd [OF assms, of own b] held_count_upd [OF assms, of "own(i := own i @ bs)" b] by simp

lemma fence_inv_alloc:
  assumes inv: "fence_inv refs owned s fl" and i: "i \<in> set (requests s)"
    and own: "owned w = (owned (world s))(i := owned (world s) i @ bs)"
    and ref: "\<And>b. refs w b = refs (world s) b + count_list bs b"
  shows "fence_inv refs owned (s\<lparr>world := w\<rparr>) fl"
proof -
  have cnt: "held_count (owned w) (requests s) b + deferred_count (deferred_frees s) b \<le> refs w b" for b
    using fence_invD(3) [OF inv, of b] unfolding own ref held_count_grow [OF i] by simp
  have prot: "protected (owned w) (s\<lparr>world := w\<rparr>) k b" if "(k, B) \<in> set fl" "b \<in> B" for k B b
    using fence_invD(7) [OF inv that] unfolding protected_iff own by fastforce
  have none: "owned w j = []" if "j \<notin> set (requests s)" for j
    using fence_invD(4) [OF inv that] i that by (auto simp: own)
  show ?thesis using inv cnt prot none unfolding fence_inv_def by auto
qed

text \<open>Copies of this step retain their source blocks; the references go to
  \<open>_free_cow_retained_blocks\<close> with the fence of the next non-empty step.\<close>

lemma fence_inv_cow:
  assumes D: "defer_block_free e" and inv: "fence_inv refs owned s fl"
    and own: "owned w = owned (world s)" and ref: "\<And>b. refs w b = refs (world s) b + count_list bs b"
  shows "fence_inv refs owned (free_cow_retained_blocks e bs (sched_step_seq s + 1) (s\<lparr>world := w\<rparr>)) fl"
proof -
  let ?q = "deferred_frees s @ [(Suc (sched_step_seq s), rev bs)]"
  have s': "free_cow_retained_blocks e bs (sched_step_seq s + 1) (s\<lparr>world := w\<rparr>)
      = s\<lparr>world := w, deferred_frees := ?q\<rparr>"
    using D fence_invD(2) [OF inv] by (simp add: free_cow_retained_blocks_def)
  have cnt: "held_count (owned (world s)) (requests s) b + deferred_count ?q b \<le> refs w b" for b
    using fence_invD(3) [OF inv, of b] by (simp add: ref)
  have prot: "protected (owned (world s)) (s\<lparr>world := w, deferred_frees := ?q\<rparr>) k b"
    if "(k, B) \<in> set fl" "b \<in> B" for k B b
    using fence_invD(7) [OF inv that] unfolding protected_iff by auto
  show ?thesis using inv cnt prot unfolding s' fence_inv_def by (auto simp: own)
qed

lemma fence_inv_add:
  assumes L: "kv_laws e refs owned" and inv: "fence_inv refs owned s fl"
    and r: "request_id r \<notin> set (requests s)" "last_sched_seq r = 0" and ok: "add_request e r s = Ok s'"
  shows "fence_inv refs owned s' fl"
proof -
  let ?i = "request_id r"
  have s': "requests s' = requests s @ [?i]" "deferred_frees s' = deferred_frees s"
    "sched_step_seq s' = sched_step_seq s" "processed_step_seq s' = processed_step_seq s"
    "\<And>j. j \<noteq> ?i \<Longrightarrow> objs s' j = objs s j" "request_id (objs s' ?i) = ?i" "last_sched_seq (objs s' ?i) = 0"
    using ok r by (auto simp: add_request_def Let_def enqueue_waiting_request_def)
  have "keeps_blocks refs owned (world s) (world s')"
    using ok r kv_lawsD(15) [OF L]
    by (auto simp: add_request_def Let_def enqueue_waiting_request_def keeps_blocks_def)
  then have w: "owned (world s') = owned (world s)" "refs (world s') = refs (world s)"
    by (simp_all add: keeps_blocks_def)
  have own: "owned (world s) ?i = []" by (rule fence_invD(4) [OF inv r(1)])
  have "held_count (owned (world s)) (requests s @ [?i]) b = held_count (owned (world s)) (requests s) b" for b
    using own r(1) by (simp add: held_count_def)
  moreover have ob: "objs s' j = objs s j" if "j \<in> set (requests s)" for j using s'(5) r(1) that by metis
  have "protected (owned (world s)) s' k b" if "(k, B) \<in> set fl" "b \<in> B" for k B b
    using fence_invD(7) [OF inv that] ob unfolding protected_iff s' by auto
  moreover have "request_id (objs s' i) = i \<and> last_sched_seq (objs s' i) \<le> sched_step_seq s"
    if "i \<in> set (requests s @ [?i])" for i
    using that ob fence_invD(5,6) [OF inv, of i] s'(6,7) by auto
  ultimately show ?thesis
    using inv own unfolding fence_inv_def w s'(1-4) by auto
qed


text \<open>An asynchronous load begins for a request that holds nothing: it gets blocks \<open>bs\<close> and waits.\<close>

lemma fence_inv_start_load:
  assumes inv: "fence_inv refs owned s fl" and i: "i \<in> set (requests s)" "owned (world s) i = []"
    and own: "owned w = (owned (world s))(i := bs)"
    and ref: "\<And>b. refs w b = refs (world s) b + count_list bs b"
  shows "fence_inv refs owned ((upd_req i (\<lambda>r. r\<lparr>status := WAITING_FOR_REMOTE_KVS\<rparr>) s)\<lparr>world := w\<rparr>) fl"
proof -
  let ?s = "(upd_req i (\<lambda>r. r\<lparr>status := WAITING_FOR_REMOTE_KVS\<rparr>) s)\<lparr>world := w\<rparr>"
  have cnt: "held_count (owned w) (requests s) b + deferred_count (deferred_frees s) b \<le> refs w b" for b
    using fence_invD(3) [OF inv, of b] held_count_grow [OF i(1), of "owned (world s)" bs b] i(2)
    unfolding own ref by simp
  have "protected (owned w) ?s k b" if "protected (owned (world s)) s k b" for k b
  proof -
    have "b \<in> set (owned (world s) j) \<Longrightarrow> j \<noteq> i" for j using i(2) by auto
    then show ?thesis using that unfolding protected_iff own upd_req_def by (simp, metis)
  qed
  then have prot: "\<forall>(k, B)\<in>set fl. \<forall>b\<in>B. protected (owned w) ?s k b"
    using fence_invD(7) [OF inv] by blast
  have none: "\<forall>j. j \<notin> set (requests s) \<longrightarrow> owned w j = []" using fence_invD(4) [OF inv] i(1) by (auto simp: own)
  have ids: "\<forall>j\<in>set (requests s). request_id (objs ?s j) = j \<and> last_sched_seq (objs ?s j) \<le> sched_step_seq s"
    using fence_invD(5,6) [OF inv] by (simp add: upd_req_def)
  show ?thesis
    using fence_invD(1,2) [OF inv] fence_invD(8) [OF inv] cnt none ids prot
    unfolding fence_inv_def by (auto simp: upd_req_def simp del: upt_Suc)
qed

text \<open>Blocks of a waiting load are freed at once, without a fence, when the load failed.\<close>

lemma fence_inv_free_load:
  assumes L: "kv_laws e refs owned" and inv: "fence_inv refs owned s fl" and i: "i \<in> set (requests s)"
    and st: "status (objs s i) = WAITING_FOR_REMOTE_KVS"
  shows "fence_inv refs owned (s\<lparr>world := kv_free e (world s) (objs s i)\<rparr>) fl"
proof -
  let ?w = "kv_free e (world s) (objs s i)" and ?own = "owned (world s)"
  have rid: "request_id (objs s i) = i" by (rule fence_invD(5) [OF inv i])
  have own: "owned ?w = ?own(i := [])" using kv_lawsD(1) [OF L, of "world s" "objs s i"] rid by simp
  have cnt: "held_count (?own(i := [])) (requests s) b + deferred_count (deferred_frees s) b \<le> refs ?w b" for b
    using held_count_upd [OF i, of ?own b] fence_invD(3) [OF inv, of b]
      kv_lawsD(2) [OF L, of "world s" "objs s i" b] rid by simp
  have prot: "protected (?own(i := [])) (s\<lparr>world := ?w\<rparr>) k b" if "(k, B) \<in> set fl" "b \<in> B" for k B b
    using protected_free [OF fence_invD(7) [OF inv that], of "deferred_frees s" i ?w] st by simp
  show ?thesis using inv cnt prot unfolding fence_inv_def by (auto simp: own)
qed

lemma fence_inv_remote_kv:
  assumes L: "kv_laws e refs owned" and inv: "fence_inv refs owned s fl" and i: "i \<in> set (requests s)"
    and st: "status (objs s i) = WAITING_FOR_REMOTE_KVS" and ok: "update_waiting_for_remote_kv e i s = Ok s'"
  shows "fence_inv refs owned s' fl"
proof (cases "request_id (objs s i) \<in> failed_recving_kv_req_ids s \<and> num_computed_tokens (objs s i) = 0")
  case True
  then have "fence_core (s\<lparr>world := kv_free e (world s) (objs s i)\<rparr>) s'"
    "world s' = kv_free e (world s) (objs s i)"
    using ok by (auto simp: update_waiting_for_remote_kv_def Let_def bindE_eq_Inr_iff fence_core_def)
  then show ?thesis
    by (intro fence_inv_keep [OF fence_inv_free_load [OF L inv i st]]) (simp_all add: keeps_blocks_def)
next
  case False
  then have "fence_core s s'" "keeps_blocks refs owned (world s) (world s')"
    using ok kv_lawsD(16,17) [OF L]
    by (auto simp: update_waiting_for_remote_kv_def Let_def bindE_eq_Inr_iff fence_core_def
        keeps_blocks_def upd_req_def split: if_splits)
  then show ?thesis by (rule fence_inv_keep [OF inv])
qed

lemma fence_inv_promote:
  assumes L: "kv_laws e refs owned" and inv: "fence_inv refs owned s fl" and i: "i \<in> set (requests s)"
    and ok: "try_promote_blocked_waiting_request e i s = Ok (b, s')"
  shows "fence_inv refs owned s' fl"
proof (cases "status (objs s i) = WAITING_FOR_REMOTE_KVS")
  case True
  then obtain s1 where s1: "s' = s \<or> update_waiting_for_remote_kv e i s = Ok s1
      \<and> s' = upd_req i (\<lambda>r. r\<lparr>status := if num_preemptions r \<noteq> 0 then PREEMPTED else WAITING\<rparr>) s1"
    using ok by (auto simp: try_promote_blocked_waiting_request_def bindE_eq_Inr_iff split: if_splits)
  then show ?thesis
  proof
    assume s1: "update_waiting_for_remote_kv e i s = Ok s1
      \<and> s' = upd_req i (\<lambda>r. r\<lparr>status := if num_preemptions r \<noteq> 0 then PREEMPTED else WAITING\<rparr>) s1"
    then have "fence_core s1 s'" "keeps_blocks refs owned (world s1) (world s')"
      by (auto simp: fence_core_def keeps_blocks_def upd_req_def)
    then show ?thesis using fence_inv_keep fence_inv_remote_kv [OF L inv i True] s1 by blast
  qed (simp add: inv)
next
  case False
  then have "fence_core s s'" "keeps_blocks refs owned (world s) (world s')"
    using ok by (auto simp: try_promote_blocked_waiting_request_def bindE_eq_Inr_iff fence_core_def
        keeps_blocks_def upd_req_def split: request_status.splits grammar_state.splits if_splits)
  then show ?thesis by (rule fence_inv_keep [OF inv])
qed

subsection \<open>Runs\<close>

text \<open>The scheduler with the steps in flight.

  \<open>Add\<close>, \<open>Preempt\<close>, \<open>Finish\<close>, \<open>Transferred\<close>, \<open>Promote\<close>, \<open>Dispatch\<close> and \<open>Process\<close> are the operations that
  free blocks or count steps: \<open>add_request\<close>, \<open>_preempt_request\<close>, \<open>_free_request\<close>, \<open>_free_blocks\<close>,
  \<open>_try_promote_blocked_waiting_request\<close> with the immediate free of a failed load, the end of
  \<open>schedule\<close>, and the start of \<open>update_from_output\<close>.  The rest of \<open>update_from_output\<close> frees blocks by
  \<open>_free_request\<close> and \<open>_free_blocks\<close> only.  \<open>Allocate\<close>, \<open>Retain\<close> and \<open>Load_Start\<close> are the allocations of the
  KV cache manager: for a request that is computed, for the source blocks of this step's copies, and for
  a request that begins an asynchronous load and so far holds no block.  \<open>Other\<close> is any operation
  that frees no block, keeps the sequence numbers and starts no load.

  Two premises are not the scheduler's own.  A scheduled request is a running one.  With a KV
  connector, \<open>_connector_finished\<close> gives up the out-of-window blocks of a finished request
  at once, without a fence; \<open>skips_idle\<close> says that the KV cache manager counts as out of window, on the
  basis of the processed tokens that it is given, only blocks that no step in flight writes.  Without a
  connector nothing is assumed there.\<close>

inductive fence_reach ::
  "'x env \<Rightarrow> ('x \<Rightarrow> block \<Rightarrow> nat) \<Rightarrow> ('x \<Rightarrow> rid \<Rightarrow> block list) \<Rightarrow> 'x sched \<Rightarrow> flight \<Rightarrow> bool"
  for e refs owned where
  Init: "(\<And>i. owned w i = []) \<Longrightarrow> fence_reach e refs owned (init_sched w b) []"
| Other: "fence_reach e refs owned s fl \<Longrightarrow> fence_core s s' \<Longrightarrow>
    keeps_blocks refs owned (world s) (world s') \<Longrightarrow> fence_reach e refs owned s' fl"
| Add: "fence_reach e refs owned s fl \<Longrightarrow> request_id r \<notin> set (requests s) \<Longrightarrow> last_sched_seq r = 0 \<Longrightarrow>
    add_request e r s = Ok s' \<Longrightarrow> fence_reach e refs owned s' fl"
| Allocate: "fence_reach e refs owned s fl \<Longrightarrow> i \<in> set (requests s) \<Longrightarrow>
    owned w = (owned (world s))(i := owned (world s) i @ bs) \<Longrightarrow>
    (\<And>b. refs w b = refs (world s) b + count_list bs b) \<Longrightarrow>
    fence_reach e refs owned (s\<lparr>world := w\<rparr>) fl"
| Retain: "fence_reach e refs owned s fl \<Longrightarrow> owned w = owned (world s) \<Longrightarrow>
    (\<And>b. refs w b = refs (world s) b + count_list bs b) \<Longrightarrow>
    fence_reach e refs owned
      (free_cow_retained_blocks e bs (sched_step_seq s + 1) (s\<lparr>world := w\<rparr>)) fl"
| Preempt: "fence_reach e refs owned s fl \<Longrightarrow> i \<in> set (requests s) \<Longrightarrow>
    preempt_request e i d s = Ok s' \<Longrightarrow> fence_reach e refs owned s' fl"
| Finish: "fence_reach e refs owned s fl \<Longrightarrow> i \<in> set (requests s) \<Longrightarrow>
    (has_connector e \<Longrightarrow> skips_idle e refs owned fl s i) \<Longrightarrow>
    free_request e i d s = Ok (p, s') \<Longrightarrow> fence_reach e refs owned s' fl"
| Transferred: "fence_reach e refs owned s fl \<Longrightarrow> free_blocks e i s = Ok s' \<Longrightarrow>
    fence_reach e refs owned s' fl"
| Load_Start: "fence_reach e refs owned s fl \<Longrightarrow> i \<in> set (requests s) \<Longrightarrow> owned (world s) i = [] \<Longrightarrow>
    owned w = (owned (world s))(i := bs) \<Longrightarrow>
    (\<And>b. refs w b = refs (world s) b + count_list bs b) \<Longrightarrow>
    fence_reach e refs owned
      ((upd_req i (\<lambda>r. r\<lparr>status := WAITING_FOR_REMOTE_KVS\<rparr>) s)\<lparr>world := w\<rparr>) fl"
| Promote: "fence_reach e refs owned s fl \<Longrightarrow> i \<in> set (requests s) \<Longrightarrow>
    try_promote_blocked_waiting_request e i s = Ok (p, s') \<Longrightarrow> fence_reach e refs owned s' fl"
| Dispatch: "fence_reach e refs owned s fl \<Longrightarrow> total_num_scheduled_tokens so > 0 \<Longrightarrow>
    (\<And>i. i \<in> set (dict_keys (num_scheduled_tokens so)) \<Longrightarrow> status (objs s i) = RUNNING) \<Longrightarrow>
    schedule_tail e so s = Ok (so', s') \<Longrightarrow>
    fence_reach e refs owned s'
      (fl @ [(Suc (sched_step_seq s), \<Union>i\<in>set (dict_keys (num_scheduled_tokens so)). set (owned (world s) i))])"
| Process: "fence_reach e refs owned s (x # fl) \<Longrightarrow> fence_reach e refs owned (process_step e s) fl"

lemma fence_reach_inv:
  assumes L: "kv_laws e refs owned" and D: "defer_block_free e" and "fence_reach e refs owned s fl"
  shows "fence_inv refs owned s fl"
  using assms(3)
proof induction
  case (Init w b)
  then show ?case by (simp add: fence_inv_def init_sched_def held_count_def)
next
  case Other then show ?case by (blast intro: fence_inv_keep)
next
  case Add then show ?case by (blast intro: fence_inv_add [OF L])
next
  case Allocate then show ?case by (blast intro: fence_inv_alloc)
next
  case Retain then show ?case by (blast intro: fence_inv_cow [OF D])
next
  case Preempt then show ?case by (blast intro: fence_inv_preempt [OF L D])
next
  case Finish then show ?case by (blast intro: fence_inv_free_request [OF L D])
next
  case Transferred then show ?case by (blast intro: fence_inv_free_blocks [OF L D])
next
  case (Load_Start s fl i w bs)
  then show ?case by (intro fence_inv_start_load [where bs = bs])
next
  case Promote then show ?case by (blast intro: fence_inv_promote [OF L])
next
  case (Dispatch s fl so so' s')
  show ?case by (rule fence_inv_dispatch [OF D Dispatch.IH Dispatch.hyps(2-4)])
next
  case (Process s x fl)
  then show ?case using fence_inv_process [OF L, of s "fst x" "snd x" fl] by simp
qed

subsection \<open>Properties\<close>

lemma demo_kv_laws: "kv_laws demo_env dw_ref dw_owned"
  by (simp add: kv_laws_def demo_env_def demo_release_def demo_pop_def keeps_blocks_def drops_blocks_def)


text \<open>One request with block 5 is scheduled and preempted while its step is in flight.\<close>

definition demo_flying :: "demo_world sched" where
  "demo_flying = (init_sched \<lparr>dw_owned = (\<lambda>_. []), dw_ref = (\<lambda>b. if b = 5 then 1 else 0)\<rparr> False)\<lparr>
    objs := (\<lambda>i. undefined)(''a'' := (demo_request ''a'' False)\<lparr>status := PREEMPTED, num_in_flight_tokens := 3,
      num_stale_output_tokens := 3, num_preemptions := 1, last_sched_seq := 1\<rparr>),
    requests := [''a''], waiting := [''a'', ''a''], reset_preempted_req_ids := {''a''},
    sched_step_seq := 1, deferred_frees := [(1, [5])]\<rparr>"

lemma demo_flying_reach: "fence_reach demo_env dw_ref dw_owned demo_flying [(1, {5})]"
proof -
  let ?w0 = "\<lparr>dw_owned = (\<lambda>_. []), dw_ref = (\<lambda>_. 0)\<rparr> :: demo_world"
  let ?w1 = "\<lparr>dw_owned = (\<lambda>_. [])(''a'' := [5]), dw_ref = (\<lambda>b. if b = 5 then 1 else 0)\<rparr> :: demo_world"
  let ?s0 = "init_sched ?w0 False"
  let ?r = "demo_request ''a'' False"
  let ?so = "\<lparr>num_scheduled_tokens = [(''a'', 3)], total_num_scheduled_tokens = 3,
      scheduled_spec_decode_tokens = [], has_structured_output_requests = False\<rparr>"
  let ?s1 = "?s0\<lparr>objs := (objs ?s0)(''a'' := ?r), requests := [''a''], waiting := [''a'']\<rparr>"
  let ?s2 = "?s1\<lparr>world := ?w1\<rparr>"
  let ?run = "\<lambda>s. s\<lparr>objs := (objs ?s0)(''a'' := ?r\<lparr>status := RUNNING\<rparr>)\<rparr>"
  let ?s3 = "?run ?s2"
  let ?s4 = "?s3\<lparr>objs := (objs ?s0)(''a'' := ?r\<lparr>status := RUNNING, num_computed_tokens := 3,
      num_in_flight_tokens := 3, last_sched_seq := 1\<rparr>), sched_step_seq := 1\<rparr>"
  note ev = init_sched_def demo_env_def demo_request_def
  have s0: "fence_reach demo_env dw_ref dw_owned ?s0 []" by (rule Init) simp
  have "add_request demo_env ?r ?s0 = Ok ?s1"
    by (simp add: add_request_def enqueue_waiting_request_def is_blocked_waiting_status_def ev Let_def)
  then have s1: "fence_reach demo_env dw_ref dw_owned ?s1 []"
    by (rule Add [OF s0, rotated 2]) (simp_all add: ev)
  have s2: "fence_reach demo_env dw_ref dw_owned ?s2 []"
    by (rule Allocate [OF s1, of "''a''" _ "[5]"]) (simp_all add: ev)
  have s3: "fence_reach demo_env dw_ref dw_owned ?s3 []"
    by (rule Other [OF s2]) (simp_all add: fence_core_def keeps_blocks_def ev)
  have "schedule_tail demo_env ?so ?s3 = Ok (?so, ?s4)"
    by (simp add: schedule_tail_def update_after_schedule_def after_schedule_step_def Let_def ev upd_req_def)
  from Dispatch [OF s3 _ _ this] have s4: "fence_reach demo_env dw_ref dw_owned ?s4 [(1, {5})]"
    by (simp add: ev)
  have "preempt_request demo_env ''a'' False ?s4 = Ok demo_flying"
    by (simp add: preempt_request_def free_request_blocks_def demo_pop_def Let_def ev upd_req_def
        demo_flying_def fun_upd_idem)
  from Preempt [OF s4 _ this] show ?thesis by (simp add: ev)
qed


lemma process_iterate:
  assumes L: "kv_laws e refs owned" and inv: "fence_inv refs owned s fl"
  shows "processed_step_seq ((process_step e ^^ n) s) = processed_step_seq s + n
    \<and> set (deferred_frees ((process_step e ^^ n) s)) \<subseteq> set (deferred_frees s)
    \<and> (\<exists>H. \<forall>b. H b + deferred_count (deferred_frees ((process_step e ^^ n) s)) b
         \<le> refs (world ((process_step e ^^ n) s)) b)
    \<and> (n > 0 \<longrightarrow> deferred_frees ((process_step e ^^ n) s) = [] \<or>
         fst (hd (deferred_frees ((process_step e ^^ n) s))) > processed_step_seq s + n)"
proof (induction n)
  case 0
  then show ?case using fence_invD(3) [OF inv] by auto
next
  case (Suc n)
  let ?t = "(process_step e ^^ n) s"
  obtain q w where dl: "drain_loop e (processed_step_seq ?t + 1) (deferred_frees ?t) (world ?t) = (q, w)"
    by (cases "drain_loop e (processed_step_seq ?t + 1) (deferred_frees ?t) (world ?t)")
  then have ps: "process_step e ?t = ?t\<lparr>processed_step_seq := processed_step_seq ?t + 1, deferred_frees := q, world := w\<rparr>"
    by (simp add: process_step_def drain_deferred_frees_def)
  obtain H where "\<And>b. H b + deferred_count (deferred_frees ?t) b \<le> refs (world ?t) b" using Suc by blast
  from drain_loop_spec [OF L dl this] show ?case using Suc unfolding funpow.simps comp_apply ps by auto
qed




subsection \<open>In-flight and stale tokens\<close>

text \<open>The life of one request \<open>i\<close> of the dictionary with the token counts of its steps in flight, oldest
  first: \<open>_update_after_schedule\<close> adds a step, outputs come back in order, and preemption may strike
  at any time.  \<open>Other\<close> is anything that leaves the two counters alone.\<close>

inductive token_run :: "'x env \<Rightarrow> rid \<Rightarrow> 'x sched \<Rightarrow> int list \<Rightarrow> bool" for e i where
  New: "i \<in> set (requests s) \<Longrightarrow> num_in_flight_tokens (objs s i) = 0 \<Longrightarrow>
    num_stale_output_tokens (objs s i) = 0 \<Longrightarrow> token_run e i s []"
| Other: "token_run e i s fl \<Longrightarrow> i \<in> set (requests s') \<Longrightarrow>
    num_in_flight_tokens (objs s' i) = num_in_flight_tokens (objs s i) \<Longrightarrow>
    num_stale_output_tokens (objs s' i) = num_stale_output_tokens (objs s i) \<Longrightarrow> token_run e i s' fl"
| Scheduled: "token_run e i s fl \<Longrightarrow> n > 0 \<Longrightarrow> after_schedule_step e (i, n) (b, s) = Ok (b', s') \<Longrightarrow>
    token_run e i s' (fl @ [n])"
| Preempted: "token_run e i s fl \<Longrightarrow> preempt_request e i d s = Ok s' \<Longrightarrow> token_run e i s' fl"
| Returned: "token_run e i s (n # fl) \<Longrightarrow> drain_tokens s i n = Ok (st, s') \<Longrightarrow> token_run e i s' fl"

text \<open>The stale tokens are those of the \<open>m\<close> oldest steps in flight.\<close>

definition token_inv :: "rid \<Rightarrow> 'x sched \<Rightarrow> int list \<Rightarrow> bool" where
  "token_inv i s fl \<longleftrightarrow> i \<in> set (requests s) \<and> (\<forall>n\<in>set fl. n > 0)
    \<and> num_in_flight_tokens (objs s i) = sum_list fl
    \<and> (\<exists>m \<le> length fl. num_stale_output_tokens (objs s i) = sum_list (take m fl))"

lemma sum_list_pos: "\<forall>n\<in>set fl. n > (0 :: int) \<Longrightarrow> sum_list fl \<ge> 0"
  by (induction fl) auto

lemma token_inv_return:
  assumes inv: "token_inv i s (n # fl)"
  shows "\<exists>st s'. drain_tokens s i n = Ok (st, s') \<and> token_inv i s' fl
    \<and> (st \<longleftrightarrow> num_stale_output_tokens (objs s i) > 0)"
proof -
  from inv obtain m where m: "m \<le> length (n # fl)" "num_stale_output_tokens (objs s i) = sum_list (take m (n # fl))"
    and i: "i \<in> set (requests s)" and pos: "\<forall>x\<in>set (n # fl). x > 0"
    and fl: "num_in_flight_tokens (objs s i) = sum_list (n # fl)" by (auto simp: token_inv_def)
  have posm: "sum_list (take j fl) \<ge> 0" for j
    using pos by (intro sum_list_pos) (auto dest: in_set_takeD)
  show ?thesis
  proof (cases m)
    case 0
    then show ?thesis using m i pos fl
      by (auto simp: drain_tokens_def Let_def token_inv_def intro!: exI [of _ 0])
  next
    case (Suc j)
    then have st: "num_stale_output_tokens (objs s i) = n + sum_list (take j fl)" using m(2) by simp
    then have "num_stale_output_tokens (objs s i) > 0" using posm [of j] pos by simp
    then show ?thesis using m(1) i pos fl st posm [of j] Suc
      by (auto simp: drain_tokens_def Let_def token_inv_def intro!: exI [of _ j])
  qed
qed

lemma token_run_inv: "token_run e i s fl \<Longrightarrow> token_inv i s fl"
proof (induction rule: token_run.induct)
  case (New s)
  then show ?case by (simp add: token_inv_def)
next
  case (Other s fl s')
  then show ?case by (simp add: token_inv_def)
next
  case (Scheduled s fl n b b' s')
  then obtain m where m: "m \<le> length fl" "num_stale_output_tokens (objs s i) = sum_list (take m fl)"
    by (auto simp: token_inv_def)
  have "num_in_flight_tokens (objs s' i) = num_in_flight_tokens (objs s i) + n"
    "num_stale_output_tokens (objs s' i) = num_stale_output_tokens (objs s i)" "requests s' = requests s"
    using Scheduled.hyps(3) by (auto simp: after_schedule_step_def Let_def split: if_splits)
  then show ?case using Scheduled.IH Scheduled.hyps(2) m
    by (auto simp: token_inv_def intro!: exI [of _ m])
next
  case (Preempted s fl d s')
  have "num_in_flight_tokens (objs s' i) = num_in_flight_tokens (objs s i)"
    "num_stale_output_tokens (objs s' i) = num_in_flight_tokens (objs s i)" "requests s' = requests s"
    using Preempted.hyps(2) by (auto simp: preempt_request_def Let_def bindE_eq_Inr_iff)
  then show ?case using Preempted.IH by (auto simp: token_inv_def intro!: exI [of _ "length fl"])
next
  case (Returned s n fl st s')
  then show ?case using token_inv_return [OF Returned.IH] by auto
qed

text \<open>C14: The stale share of a request drains in step with its output: in every run the stale tokens lie
  between zero and the tokens in flight, the next output never fails the assertion
  \<open>num_stale_output_tokens >= 0\<close>, and it is treated as stale exactly while stale tokens remain.\<close>

theorem stale_tokens_in_lockstep:
  assumes "token_run e i s (n # fl)"
  shows "0 \<le> num_stale_output_tokens (objs s i)
    \<and> num_stale_output_tokens (objs s i) \<le> num_in_flight_tokens (objs s i)
    \<and> (\<exists>st s'. drain_tokens s i n = Ok (st, s') \<and> (st \<longleftrightarrow> num_stale_output_tokens (objs s i) > 0))"
proof -
  note inv = token_run_inv [OF assms]
  obtain m where m: "num_stale_output_tokens (objs s i) = sum_list (take m (n # fl))"
    and fl: "num_in_flight_tokens (objs s i) = sum_list (n # fl)" and pos: "\<forall>x\<in>set (n # fl). x > 0"
    using inv unfolding token_inv_def by blast
  have "sum_list (take m (n # fl)) \<ge> 0" "sum_list (drop m (n # fl)) \<ge> 0"
    using pos by (intro sum_list_pos ballI; blast dest: in_set_takeD in_set_dropD)+
  moreover have "sum_list (n # fl) = sum_list (take m (n # fl)) + sum_list (drop m (n # fl))"
    by (metis append_take_drop_id sum_list_append)
  ultimately show ?thesis using m fl token_inv_return [OF inv] by auto
qed

lemma demo_flying_tokens: "token_run demo_env ''a'' demo_flying [3]"
proof -
  let ?s = "demo_flying\<lparr>objs := (objs demo_flying)(''a'' := (demo_request ''a'' False)\<lparr>status := RUNNING\<rparr>),
      waiting := [''a'']\<rparr>"
  have new: "token_run demo_env ''a'' ?s []" by (rule New) (simp_all add: demo_flying_def demo_request_def)
  obtain b s1 where s1: "after_schedule_step demo_env (''a'', 3) (False, ?s) = Ok (b, s1)"
    and st: "status (objs s1 ''a'') = RUNNING" and q: "requests s1 = [''a'']"
    by (auto simp: after_schedule_step_def Let_def demo_flying_def demo_request_def demo_env_def)
  from Scheduled [OF new _ s1] have run: "token_run demo_env ''a'' s1 [3]" by simp
  obtain s2 where s2: "preempt_request demo_env ''a'' False s1 = Ok s2"
    using st by (auto simp: preempt_request_def Let_def)
  have "num_in_flight_tokens (objs s2 ''a'') = 3 \<and> num_stale_output_tokens (objs s2 ''a'') = 3"
    using s1 s2 by (auto simp: after_schedule_step_def preempt_request_def bindE_eq_Inr_iff Let_def
        demo_flying_def demo_request_def demo_env_def split: if_splits)
  then show ?thesis by (intro Other [OF Preempted [OF run s2]]) (simp_all add: demo_flying_def)
qed

theorem stale_tokens_in_lockstep_witness:
  "\<exists>st s'. drain_tokens demo_flying ''a'' 3 = Ok (st, s') \<and> st"
  using stale_tokens_in_lockstep [OF demo_flying_tokens]
  by (auto simp: demo_flying_def)

end
