(* ===== verification/Sched_Dispatch.thy ===== *)
theory Sched_Dispatch
  imports Sched_Output
begin

text \<open>
  What \<open>schedule()\<close> sends to the workers for requests they already know
  (\<open>_make_cached_request_data\<close> in \<open>overlay/vllm/v1/core/sched/scheduler.py\<close>).  Under pipeline
  parallelism without asynchronous scheduling the first stage does not see the sampled tokens, so the
  scheduler sends every token a worker has not seen and remembers in \<open>_dsv41_pp_sent\<close> how far it got.
\<close>

subsection \<open>Cached request data\<close>

record dispatch_cfg =
  use_pp :: bool
  async_scheduling :: bool
  use_v2_model_runner :: bool

text \<open>\<open>new_block_ids\<close> holds what \<open>get_block_ids(allow_none=True)\<close> returns.\<close>

record cached_request_data =
  cd_req_ids :: "rid list"
  cd_resumed_req_ids :: "rid set"
  cd_new_token_ids :: "int list list"
  cd_all_token_ids :: "(rid, int list) dict"
  cd_new_block_ids :: "block list list option list"
  cd_num_computed_tokens :: "int list"
  cd_num_output_tokens :: "int list"

definition empty_cached :: cached_request_data where
  "empty_cached = \<lparr>cd_req_ids = [], cd_resumed_req_ids = {}, cd_new_token_ids = [], cd_all_token_ids = [],
    cd_new_block_ids = [], cd_num_computed_tokens = [], cd_num_output_tokens = []\<rparr>"

text \<open>The tokens of one request the workers have not seen, and the new mark.\<close>

definition send_unseen ::
  "rid \<Rightarrow> (rid, int) dict \<Rightarrow> (rid, int list) dict \<Rightarrow> 'x sched \<Rightarrow> (int list \<times> 'x sched) res" where
  "send_unseen i ns spec s =
    (let r = objs s i
     in case dict_get ns i of None \<Rightarrow> Err KeyError
        | Some n \<Rightarrow>
          (let num_tokens = n - int (length (or_default [] (dict_get spec i)));
               end = num_computed_tokens r + num_tokens;
               sent = max (or_default 0 (dict_get (dsv41_pp_sent s) i)) (num_prompt_tokens r)
           in Ok (py_slice sent end (all_token_ids r),
                  s\<lparr>dsv41_pp_sent := dict_set i (max sent end) (dsv41_pp_sent s)\<rparr>)))"

definition cached_step ::
  "dispatch_cfg \<Rightarrow> nat \<Rightarrow> (rid, int) dict \<Rightarrow> (rid, int list) dict \<Rightarrow> (rid, block list list option) dict
    \<Rightarrow> nat \<times> rid \<Rightarrow> cached_request_data \<times> 'x sched \<Rightarrow> (cached_request_data \<times> 'x sched) res" where
  "cached_step c num_running ns spec blocks = (\<lambda>(idx, i) (d, s).
    bindE (if use_pp c \<and> \<not> async_scheduling c
           then bindE (send_unseen i ns spec s) (\<lambda>(ts, s).
                Ok (d\<lparr>cd_new_token_ids := cd_new_token_ids d @ [ts]\<rparr>, s))
           else Ok (d, s)) (\<lambda>(d, s).
    let r = objs s i;
        d = (if idx \<ge> num_running then d\<lparr>cd_resumed_req_ids := insert i (cd_resumed_req_ids d)\<rparr> else d);
        d = (if \<not> use_v2_model_runner c \<and> i \<notin> prev_step_scheduled_req_ids s
             then d\<lparr>cd_all_token_ids := dict_set i (all_token_ids r) (cd_all_token_ids d)\<rparr> else d)
    in bindE (case dict_get blocks i of None \<Rightarrow> Err KeyError | Some b \<Rightarrow> Ok b) (\<lambda>b.
       Ok (d\<lparr>cd_req_ids := cd_req_ids d @ [i],
             cd_new_block_ids := cd_new_block_ids d @ [b],
             cd_num_computed_tokens := cd_num_computed_tokens d @ [num_computed_tokens r],
             cd_num_output_tokens := cd_num_output_tokens d
               @ [int (length (output_token_ids r)) + num_output_placeholders r]\<rparr>, s))))"

definition make_cached_request_data ::
  "dispatch_cfg \<Rightarrow> rid list \<Rightarrow> rid list \<Rightarrow> (rid, int) dict \<Rightarrow> (rid, int list) dict
    \<Rightarrow> (rid, block list list option) dict \<Rightarrow> 'x sched \<Rightarrow> (cached_request_data \<times> 'x sched) res" where
  "make_cached_request_data c running_reqs resumed_reqs ns spec blocks s =
    foldE (cached_step c (length running_reqs) ns spec blocks)
      (enumerate 0 (running_reqs @ resumed_reqs)) (empty_cached, s)"

text \<open>The tokens sent for request \<open>i\<close> in one batch.\<close>

definition sent_tokens :: "cached_request_data \<Rightarrow> rid \<Rightarrow> int list" where
  "sent_tokens d i = or_default [] (dict_get (zip (cd_req_ids d) (cd_new_token_ids d)) i)"

subsection \<open>The stream of tokens of a request\<close>

lemma py_slice_prefix:
  assumes "0 \<le> a" and "0 \<le> b" and "nat a \<le> length xs"
  shows "take (nat a) xs @ py_slice a b xs = take (max (nat a) (nat b)) xs"
proof -
  have sl: "py_slice a b xs = drop (nat a) (take (nat b) xs)"
    using assms by (simp add: py_slice_def clamp_index_def min_def)
  show ?thesis
  proof (cases "nat a \<le> nat b")
    case True
    then have "take (nat a) xs = take (nat a) (take (nat b) xs)" by (simp add: min_def)
    then show ?thesis using True sl append_take_drop_id [of "nat a" "take (nat b) xs"] by (simp add: max_def)
  next
    case False
    then show ?thesis by (simp add: sl max_def)
  qed
qed

text \<open>How far request \<open>i\<close> has been sent, and how far a batch brings it.\<close>

definition sent_mark :: "'x sched \<Rightarrow> rid \<Rightarrow> int" where
  "sent_mark s i = max (or_default 0 (dict_get (dsv41_pp_sent s) i)) (num_prompt_tokens (objs s i))"

definition batch_end :: "(rid, int) dict \<Rightarrow> (rid, int list) dict \<Rightarrow> 'x sched \<Rightarrow> rid \<Rightarrow> int" where
  "batch_end ns spec s i = num_computed_tokens (objs s i)
    + (or_default 0 (dict_get ns i) - int (length (or_default [] (dict_get spec i))))"

lemma cached_step_pp:
  assumes c: "use_pp c" "\<not> async_scheduling c" and ok: "cached_step c nr ns spec blocks (k, i) (d, s) = Ok (d', s')"
  shows "cd_req_ids d' = cd_req_ids d @ [i]
    \<and> cd_new_token_ids d' = cd_new_token_ids d
        @ [py_slice (sent_mark s i) (batch_end ns spec s i) (all_token_ids (objs s i))]
    \<and> objs s' = objs s
    \<and> dict_get (dsv41_pp_sent s') = (dict_get (dsv41_pp_sent s))(i \<mapsto> max (sent_mark s i) (batch_end ns spec s i))"
proof -
  obtain n where n: "dict_get ns i = Some n"
    using ok c by (auto simp: cached_step_def send_unseen_def bindE_eq_Inr_iff Let_def split: option.splits)
  obtain b where b: "dict_get blocks i = Some b"
    using ok c n
    by (cases "dict_get blocks i") (auto simp: cached_step_def send_unseen_def bindE_eq_Inr_iff Let_def)
  show ?thesis
    using ok c by (auto simp: cached_step_def send_unseen_def Let_def n b sent_mark_def batch_end_def)
qed

lemma cached_fold_pp:
  assumes c: "use_pp c" "\<not> async_scheduling c" and "distinct ids"
    and "foldE (cached_step c nr ns spec blocks) (enumerate k ids) (d, s) = Ok (d', s')"
  shows "cd_req_ids d' = cd_req_ids d @ ids
    \<and> cd_new_token_ids d' = cd_new_token_ids d
        @ map (\<lambda>i. py_slice (sent_mark s i) (batch_end ns spec s i) (all_token_ids (objs s i))) ids
    \<and> objs s' = objs s
    \<and> (\<forall>i. dict_get (dsv41_pp_sent s') i = (if i \<in> set ids then Some (max (sent_mark s i) (batch_end ns spec s i))
                                            else dict_get (dsv41_pp_sent s) i))"
  using assms(3-)
proof (induction ids arbitrary: k d s)
  case (Cons i ids)
  from Cons.prems(2) obtain d1 s1 where one: "cached_step c nr ns spec blocks (k, i) (d, s) = Ok (d1, s1)"
    and rest: "foldE (cached_step c nr ns spec blocks) (enumerate (Suc k) ids) (d1, s1) = Ok (d', s')"
    by (auto simp: bindE_eq_Inr_iff)
  note st = cached_step_pp [OF c one]
  have keep: "sent_mark s1 j = sent_mark s j" "batch_end ns spec s1 j = batch_end ns spec s j" if "j \<in> set ids" for j
    using st that Cons.prems(1) by (auto simp: sent_mark_def batch_end_def)
  have ids: "map (\<lambda>j. py_slice (sent_mark s1 j) (batch_end ns spec s1 j) (all_token_ids (objs s1 j))) ids
      = map (\<lambda>j. py_slice (sent_mark s j) (batch_end ns spec s j) (all_token_ids (objs s j))) ids"
    using keep st by (intro map_cong refl) simp
  show ?case
    using Cons.IH [OF _ rest] Cons.prems(1) st keep unfolding ids by auto
qed simp

lemma make_cached_pp:
  assumes c: "use_pp c" "\<not> async_scheduling c" and d: "distinct (run @ res)"
    and ok: "make_cached_request_data c run res ns spec blocks s = Ok (d', s')"
  shows "objs s' = objs s"
    and "i \<notin> set (run @ res) \<Longrightarrow> sent_mark s' i = sent_mark s i \<and> sent_tokens d' i = []"
    and "i \<in> set (run @ res) \<Longrightarrow> sent_mark s' i = max (sent_mark s i) (batch_end ns spec s i)
      \<and> sent_tokens d' i = py_slice (sent_mark s i) (batch_end ns spec s i) (all_token_ids (objs s i))"
proof -
  note f = cached_fold_pp [OF c d ok [unfolded make_cached_request_data_def]]
  show "objs s' = objs s" using f by blast
  have zip: "dict_get (zip ids (map g ids)) i = (if i \<in> set ids then Some (g i) else None)" for g :: "rid \<Rightarrow> int list" and ids
    by (induction ids) auto
  let ?g = "\<lambda>i. py_slice (sent_mark s i) (batch_end ns spec s i) (all_token_ids (objs s i))"
  have "cd_req_ids d' = run @ res" "cd_new_token_ids d' = map ?g (run @ res)"
    using f by (simp_all add: empty_cached_def)
  then have tok: "sent_tokens d' i = or_default [] (if i \<in> set (run @ res) then Some (?g i) else None)"
    unfolding sent_tokens_def by (simp only: zip)
  have mark: "sent_mark s' i = (if i \<in> set (run @ res) then max (sent_mark s i) (batch_end ns spec s i)
      else sent_mark s i)"
    using f by (simp add: sent_mark_def)
  show "i \<notin> set (run @ res) \<Longrightarrow> sent_mark s' i = sent_mark s i \<and> sent_tokens d' i = []"
    unfolding tok mark by simp
  show "i \<in> set (run @ res) \<Longrightarrow> sent_mark s' i = max (sent_mark s i) (batch_end ns spec s i)
      \<and> sent_tokens d' i = ?g i"
    unfolding tok mark by simp
qed

text \<open>A worker that got the prompt of request \<open>i\<close> with the new request data and appends what each
  batch sends for it.  Between batches the request only gains tokens.\<close>

inductive worker_tokens :: "dispatch_cfg \<Rightarrow> rid \<Rightarrow> 'x sched \<Rightarrow> int list \<Rightarrow> bool" for c i where
  Prompt: "dict_get (dsv41_pp_sent s) i = None \<Longrightarrow> 0 \<le> num_prompt_tokens (objs s i) \<Longrightarrow>
    num_prompt_tokens (objs s i) \<le> num_tokens (objs s i) \<Longrightarrow>
    worker_tokens c i s (take (nat (num_prompt_tokens (objs s i))) (all_token_ids (objs s i)))"
| Sampled: "worker_tokens c i s known \<Longrightarrow> all_token_ids (objs s' i) = all_token_ids (objs s i) @ ts \<Longrightarrow>
    num_prompt_tokens (objs s' i) = num_prompt_tokens (objs s i) \<Longrightarrow>
    dict_get (dsv41_pp_sent s') i = dict_get (dsv41_pp_sent s) i \<Longrightarrow> worker_tokens c i s' known"
| Batch: "worker_tokens c i s known \<Longrightarrow> distinct (run @ res) \<Longrightarrow>
    make_cached_request_data c run res ns spec blocks s = Ok (d, s') \<Longrightarrow>
    0 \<le> batch_end ns spec s i \<Longrightarrow> batch_end ns spec s i \<le> num_tokens (objs s i) \<Longrightarrow>
    worker_tokens c i s' (known @ sent_tokens d i)"

lemma worker_tokens_inv:
  assumes c: "use_pp c" "\<not> async_scheduling c" and "worker_tokens c i s known"
  shows "0 \<le> sent_mark s i \<and> sent_mark s i \<le> num_tokens (objs s i)
    \<and> known = take (nat (sent_mark s i)) (all_token_ids (objs s i))"
  using assms(3)
proof induction
  case (Prompt s)
  then show ?case by (simp add: sent_mark_def)
next
  case (Sampled s known s' ts)
  then have "sent_mark s' i = sent_mark s i" by (simp add: sent_mark_def)
  then show ?case using Sampled by auto
next
  case (Batch s known run res ns spec blocks d s')
  note m = make_cached_pp [OF c Batch.hyps(2,3)]
  show ?case
  proof (cases "i \<in> set (run @ res)")
    case True
    let ?a = "sent_mark s i" and ?b = "batch_end ns spec s i" and ?xs = "all_token_ids (objs s i)"
    have "take (nat ?a) ?xs @ py_slice ?a ?b ?xs = take (max (nat ?a) (nat ?b)) ?xs"
      using Batch.IH Batch.hyps(4) by (intro py_slice_prefix) auto
    moreover have "nat (max ?a ?b) = max (nat ?a) (nat ?b)" by (simp add: max_def)
    ultimately show ?thesis using Batch.IH Batch.hyps(5) m(1) m(3) [OF True] by (auto simp: le_max_iff_disj)
  next
    case False
    then show ?thesis using Batch.IH m(1) m(2) [OF False] by simp
  qed
qed

text \<open>C4: Under pipeline parallelism without asynchronous scheduling a worker's copy of a request refines
  the scheduler's: it is always a prefix of the request's tokens, without gap or repetition, and
  after a batch that schedules the request it reaches the end of the scheduled tokens, accepted drafts
  included, whatever was sampled, rejected or preempted in between.\<close>

theorem worker_tokens_refine:
  assumes "use_pp c" and "\<not> async_scheduling c" and "worker_tokens c i s known"
    and "distinct (run @ res)" and "make_cached_request_data c run res ns spec blocks s = Ok (d, s')"
    and "i \<in> set (run @ res)" and "0 \<le> batch_end ns spec s i"
    and "batch_end ns spec s i \<le> num_tokens (objs s i)"
  shows "known @ sent_tokens d i
      = take (max (length known) (nat (batch_end ns spec s i))) (all_token_ids (objs s' i))"
proof -
  have c: "use_pp c" "\<not> async_scheduling c" by fact+
  note inv = worker_tokens_inv [OF c assms(3)]
  note m = make_cached_pp [OF c assms(4,5)]
  let ?a = "sent_mark s i" and ?b = "batch_end ns spec s i" and ?xs = "all_token_ids (objs s i)"
  have "take (nat ?a) ?xs @ py_slice ?a ?b ?xs = take (max (nat ?a) (nat ?b)) ?xs"
    using inv assms(7) by (intro py_slice_prefix) auto
  moreover have "length known = nat ?a" using inv by (simp, linarith)
  ultimately show ?thesis using inv m(1) m(3) [OF assms(6)] by simp
qed

definition demo_cfg :: dispatch_cfg where
  "demo_cfg = \<lparr>use_pp = True, async_scheduling = False, use_v2_model_runner = True\<rparr>"

text \<open>Two accepted tokens, and a batch that schedules the second with one draft.\<close>

definition demo_decode :: "demo_world sched" where
  "demo_decode = (init_sched \<lparr>dw_owned = (\<lambda>_. []), dw_ref = (\<lambda>_. 0)\<rparr> False)\<lparr>
    objs := (\<lambda>_. (demo_request ''a'' False)\<lparr>all_token_ids := [7, 8, 9, 4, 5], num_computed_tokens := 4\<rparr>),
    requests := [''a''], running := [''a'']\<rparr>"

theorem worker_tokens_refine_witness:
  "\<exists>d s'. make_cached_request_data demo_cfg [''a''] [] [(''a'', 2)] [(''a'', [3])] [(''a'', None)] demo_decode
      = Ok (d, s') \<and> [7, 8, 9] @ sent_tokens d ''a'' = [7, 8, 9, 4, 5]"
proof -
  let ?b = "[(''a'', None :: block list list option)]"
  obtain d s' where m: "make_cached_request_data demo_cfg [''a''] [] [(''a'', 2)] [(''a'', [3])] ?b demo_decode
      = Ok (d, s')"
    by (simp add: make_cached_request_data_def cached_step_def send_unseen_def Let_def demo_cfg_def
        demo_decode_def init_sched_def)
  have "objs s' = objs demo_decode"
    by (rule make_cached_pp(1) [OF _ _ _ m]) (simp_all add: demo_cfg_def)
  have pr: "worker_tokens demo_cfg ''a'' demo_decode
      (take (nat (num_prompt_tokens (objs demo_decode ''a''))) (all_token_ids (objs demo_decode ''a'')))"
    by (rule Prompt) (simp_all add: demo_decode_def init_sched_def demo_request_def)
  then have "worker_tokens demo_cfg ''a'' demo_decode [7, 8, 9]"
    by (simp add: demo_decode_def demo_request_def)
  from worker_tokens_refine [OF _ _ this _ m] \<open>objs s' = objs demo_decode\<close>
  have "[7, 8, 9] @ sent_tokens d ''a'' = [7, 8, 9, 4, 5]"
    by (simp add: demo_cfg_def demo_decode_def demo_request_def batch_end_def)
  then show ?thesis using m by blast
qed

end
