(* ===== verification/Sched_Chunk.thy ===== *)
theory Sched_Chunk
  imports Sched_Dispatch
begin

text \<open>
  How many tokens of one request \<open>schedule()\<close> puts into a step
  (\<open>overlay/vllm/v1/core/sched/scheduler.py\<close>): the alignment of chunks to cacheable Mamba states
  (\<open>_mamba_block_aligned_split\<close>), the reserve for drafters that read ahead
  (\<open>_reserve_prefill_lookahead\<close>) and the encoder inputs a chunk needs (\<open>_try_schedule_encoder_inputs\<close>).

  The record \<open>loop_env\<close> holds the configuration these functions and the loops of \<open>schedule()\<close> read, and
  the operations of the KV cache manager, the encoder cache manager, the connectors and the request
  queue class that only \<open>schedule()\<close> calls; they act on the external state \<open>'x\<close> like those of \<open>env\<close>.
  A \<open>KVCacheBlocks\<close> object is the value of its \<open>get_block_ids(allow_none=True)\<close>.
\<close>

subsection \<open>Configuration and external operations\<close>

type_synonym kv_blocks = "block list list option"

text \<open>The arguments of \<open>KVCacheManager.allocate_slots\<close>.\<close>

record alloc_args =
  al_num_new_tokens :: int
  al_num_new_computed_tokens :: int
  al_new_computed_blocks :: kv_blocks
  al_num_lookahead_tokens :: int
  al_num_external_computed_tokens :: int
  al_delay_cache_blocks :: bool
  al_num_encoder_tokens :: int
  al_full_sequence_must_fit :: bool
  al_reserved_blocks :: int
  al_has_scheduled_reqs :: bool

record 'x loop_env =
  max_num_scheduled_tokens :: int
  max_num_batched_tokens :: int
  draft_slots :: int
  max_num_encoder_input_tokens :: int
  max_num_running_reqs :: int
  long_prefill_token_threshold :: int
  enable_chunked_prefill :: bool
  disable_chunked_mm_input :: bool
  num_spec_tokens :: int
  dynamic_sd_lookup :: "int list option"
  num_lookahead_tokens :: int
  requires_kv_delivery :: bool
  max_loras :: "int option"
  pipeline_parallel_size :: int
  pp_spread :: bool
  dispatch :: dispatch_cfg
  scheduler_reserve_full_isl :: bool
  supports_divergent_local_hybrid_hits :: bool
  need_mamba_block_aligned_split :: bool
  mamba_has_prefill_checkpoint_blocks :: bool
  mamba_partial_cache_hit :: bool
  use_eagle_block_drop :: bool
  cache_block_size :: int
  hash_block_size :: int
  \<comment> \<open>the request class, multimodal features and the queue class\<close>
  has_encoder_inputs :: "request \<Rightarrow> bool"
  get_num_encoder_embeds :: "request \<Rightarrow> nat \<Rightarrow> int"
  get_num_embeds :: "mm_feature \<Rightarrow> int"
  get_embeds_indices_in_range :: "mm_feature \<Rightarrow> int \<Rightarrow> int \<Rightarrow> int \<times> int"
  get_mm_features_in_window :: "mm_feature list \<Rightarrow> int \<Rightarrow> int \<Rightarrow> nat \<times> nat"
  has_prefill_stats :: "'x \<Rightarrow> rid \<Rightarrow> bool"
  queue_pop :: "(rid \<Rightarrow> request) \<Rightarrow> rid list \<Rightarrow> rid \<times> rid list"
  queue_prepend_requests :: "(rid \<Rightarrow> request) \<Rightarrow> rid list \<Rightarrow> rid list \<Rightarrow> rid list"
  \<comment> \<open>the KV cache manager\<close>
  kv_new_step_starts :: "'x \<Rightarrow> 'x"
  kv_allocate_slots :: "'x \<Rightarrow> request \<Rightarrow> alloc_args \<Rightarrow> kv_blocks option \<times> 'x"
  kv_get_computed_blocks :: "'x \<Rightarrow> request \<Rightarrow> (kv_blocks \<times> int \<times> int) \<times> 'x"
  kv_get_computed_blocks_for_connector :: "'x \<Rightarrow> request \<Rightarrow> (kv_blocks \<times> int \<times> int \<times> bool) \<times> 'x"
  kv_truncate_computed_blocks :: "'x \<Rightarrow> kv_blocks \<Rightarrow> int \<Rightarrow> kv_blocks"
  kv_empty_blocks :: kv_blocks
  kv_get_blocks :: "'x \<Rightarrow> rid \<Rightarrow> kv_blocks"
  kv_record_prefix_cache_stats :: "'x \<Rightarrow> request \<Rightarrow> int \<Rightarrow> 'x"
  kv_num_blocks_to_allocate :: "'x \<Rightarrow> rid \<Rightarrow> int \<Rightarrow> int \<Rightarrow> int"
  kv_zeroing_block_ids_in_range :: "'x \<Rightarrow> rid \<Rightarrow> int \<Rightarrow> int \<Rightarrow> block list"
  kv_take_boundary_state_offloads :: "'x \<Rightarrow> 'x"
  kv_take_block_copies :: "'x \<Rightarrow> ((block \<times> block) list \<times> block list) \<times> 'x"
  kv_take_new_block_ids :: "'x \<Rightarrow> block list \<times> 'x"
  \<comment> \<open>the encoder cache manager and the connectors\<close>
  encoder_check_and_update_cache :: "'x \<Rightarrow> request \<Rightarrow> nat \<Rightarrow> bool \<times> 'x"
  encoder_can_allocate :: "'x \<Rightarrow> request \<Rightarrow> nat \<Rightarrow> int \<Rightarrow> int \<Rightarrow> bool \<times> 'x"
  encoder_allocate :: "'x \<Rightarrow> request \<Rightarrow> nat \<Rightarrow> 'x"
  ec_has_cache_item :: "'x \<Rightarrow> string \<Rightarrow> bool"
  ec_ensure_cache_available :: "'x \<Rightarrow> request \<Rightarrow> int \<Rightarrow> bool \<times> 'x"
  ec_update_state_after_alloc :: "'x \<Rightarrow> request \<Rightarrow> nat \<Rightarrow> 'x"
  connector_get_num_new_matched_tokens :: "'x \<Rightarrow> request \<Rightarrow> int \<Rightarrow> (int option \<times> bool) \<times> 'x"
  connector_update_state_after_alloc :: "'x \<Rightarrow> request \<Rightarrow> kv_blocks \<Rightarrow> int \<Rightarrow> 'x"
  connector_build_meta :: "'x \<Rightarrow> scheduler_output \<Rightarrow> 'x"
  ec_build_meta :: "'x \<Rightarrow> scheduler_output \<Rightarrow> 'x"

subsection \<open>Chunks that end where a Mamba state is cached\<close>

text \<open>\<open>min(generator, default=d)\<close>.\<close>

definition min_default :: "int \<Rightarrow> int list \<Rightarrow> int" where
  "min_default d xs = (case xs of [] \<Rightarrow> d | x # xs \<Rightarrow> fold min xs x)"

definition max_prefill_tokens :: "'x loop_env \<Rightarrow> int" where
  "max_prefill_tokens c =
    (if long_prefill_token_threshold c > 0
     then min (max_num_scheduled_tokens c) (long_prefill_token_threshold c)
     else max_num_scheduled_tokens c)"

definition aligned_chunk_end :: "'x loop_env \<Rightarrow> int \<Rightarrow> int \<Rightarrow> int" where
  "aligned_chunk_end c start end =
    (let aligned_end = end div cache_block_size c * cache_block_size c
     in if aligned_end > start \<or> cache_block_size c \<le> max_prefill_tokens c then aligned_end else end)"

definition tail_boundary :: "'x loop_env \<Rightarrow> request \<Rightarrow> int" where
  "tail_boundary c r =
    (if mamba_partial_cache_hit c then num_prompt_tokens r div hash_block_size c * hash_block_size c else 0)"

definition last_cache_position :: "'x loop_env \<Rightarrow> request \<Rightarrow> int" where
  "last_cache_position c r =
    (let p = num_tokens r - num_tokens r mod cache_block_size c
     in if use_eagle_block_drop c then max (p - cache_block_size c) 0 else p)"

definition mandatory_stops :: "'x loop_env \<Rightarrow> request \<Rightarrow> int \<Rightarrow> int \<Rightarrow> int \<Rightarrow> int list" where
  "mandatory_stops c r start end last_pos =
    (let bs = cache_block_size c; tail = tail_boundary c r; shared = shared_prefix_boundary r
     in [if start mod bs \<noteq> 0 then (start div bs + 1) * bs else 0,
         last_pos,
         if last_pos < tail \<and> tail < num_prompt_tokens r then tail else 0,
         if start < shared \<and> shared < end then start + (shared - start) div bs * bs else 0])"

definition mamba_block_aligned_split :: "'x loop_env \<Rightarrow> request \<Rightarrow> int \<Rightarrow> int \<Rightarrow> int \<Rightarrow> int" where
  "mamba_block_aligned_split c r num_new_tokens num_new_local num_external =
    (let start = num_computed_tokens r + num_new_local + num_external;
         prefill_end = max (num_prompt_tokens r) (num_tokens r - 1)
     in if start \<ge> prefill_end then num_new_tokens
        else
          let use_internal_checkpoint =
                (mamba_has_prefill_checkpoint_blocks c \<and> start mod cache_block_size c = 0);
              last_pos = (if use_internal_checkpoint then 0 else last_cache_position c r);
              end = start + num_new_tokens;
              end = (if end < prefill_end \<and> \<not> use_internal_checkpoint
                     then aligned_chunk_end c start end else end);
              end = min_default end
                      (filter (\<lambda>p. start < p \<and> p < end) (mandatory_stops c r start end last_pos))
          in max (end - start) 0)"

subsection \<open>Room for a drafter that reads ahead\<close>

definition reserve_prefill_lookahead :: "'x env \<Rightarrow> request \<Rightarrow> int \<Rightarrow> int \<Rightarrow> int" where
  "reserve_prefill_lookahead e r num_computed num_new_tokens =
    (let remaining = num_tokens r - num_computed - num_new_tokens;
         num_new_tokens = (if 0 < remaining \<and> remaining < num_prefill_lookahead e
                           then num_new_tokens - (num_prefill_lookahead e - remaining)
                           else num_new_tokens)
     in max num_new_tokens 0)"

subsection \<open>Encoder inputs of a chunk\<close>

record 'x encoder_acc =
  ea_world :: 'x
  ea_inputs :: "nat list"
  ea_num_new_tokens :: int
  ea_budget :: int
  ea_external :: "nat list"
  ea_hashes :: "string set"
  ea_embeds :: int

text \<open>One input of the window: \<open>True\<close> goes on with the loop, \<open>False\<close> is \<open>break\<close>.\<close>

definition encoder_input_step ::
  "'x env \<Rightarrow> 'x loop_env \<Rightarrow> request \<Rightarrow> int \<Rightarrow> int \<Rightarrow> int \<Rightarrow> nat \<Rightarrow> 'x encoder_acc
    \<Rightarrow> (bool \<times> 'x encoder_acc) res" where
  "encoder_input_step e c r num_computed shift window_end i a =
    bindE (py_index (mm_features r) (int i)) (\<lambda>f.
    let start_pos = mm_offset f; key = mm_identifier f
    in if is_encoder_decoder e \<and> num_computed > 0
       then bindE (assertE (start_pos = 0)) (\<lambda>_. Ok (True, a))
       else if \<not> is_encoder_decoder e \<and> key \<in> ea_hashes a then Ok (True, a)
       else
         let (hit, w) = (if is_encoder_decoder e then (False, ea_world a)
                         else encoder_check_and_update_cache c (ea_world a) r i);
             a = a\<lparr>ea_world := w\<rparr>
         in if hit then Ok (True, a)
            else if disable_chunked_mm_input c \<and> num_computed < start_pos
                    \<and> num_computed + ea_num_new_tokens a < start_pos + mm_length f
            then Ok (False, a\<lparr>ea_num_new_tokens := max 0 (start_pos - (num_computed + shift))\<rparr>)
            else
              let (fits, w) = encoder_can_allocate c (ea_world a) r i (ea_budget a) (ea_embeds a);
                  a = a\<lparr>ea_world := w\<rparr>
              in if \<not> fits
                 then Ok (False, a\<lparr>ea_num_new_tokens :=
                        if num_computed + shift < start_pos then start_pos - (num_computed + shift) else 0\<rparr>)
                 else
                   let (embeds_start, embeds_end) = get_embeds_indices_in_range c f
                         (max 0 (num_computed - start_pos)) (min (mm_length f) (window_end - start_pos))
                   in if embeds_end - embeds_start = 0 then Ok (True, a)
                      else if has_ec_connector e \<and> ec_has_cache_item c (ea_world a) key
                      then Ok (True, a\<lparr>ea_hashes := insert key (ea_hashes a),
                             ea_external := ea_external a @ [i], ea_embeds := ea_embeds a + get_num_embeds c f\<rparr>)
                      else Ok (True, a\<lparr>ea_embeds := ea_embeds a + get_num_embeds c f,
                             ea_budget := ea_budget a - get_num_embeds c f,
                             ea_hashes := insert key (ea_hashes a), ea_inputs := ea_inputs a @ [i]\<rparr>))"

fun encoder_loop ::
  "'x env \<Rightarrow> 'x loop_env \<Rightarrow> request \<Rightarrow> int \<Rightarrow> int \<Rightarrow> int \<Rightarrow> nat list \<Rightarrow> 'x encoder_acc \<Rightarrow> 'x encoder_acc res" where
  "encoder_loop e c r nc shift window_end [] a = Ok a"
| "encoder_loop e c r nc shift window_end (i # is) a =
    bindE (encoder_input_step e c r nc shift window_end i a) (\<lambda>(continue, a).
    if continue then encoder_loop e c r nc shift window_end is a else Ok a)"

definition encoder_start :: "'x \<Rightarrow> int \<Rightarrow> int \<Rightarrow> 'x encoder_acc" where
  "encoder_start w num_new_tokens budget = \<lparr>ea_world = w, ea_inputs = [], ea_num_new_tokens = num_new_tokens,
    ea_budget = budget, ea_external = [], ea_hashes = {}, ea_embeds = 0\<rparr>"

definition try_schedule_encoder_inputs ::
  "'x env \<Rightarrow> 'x loop_env \<Rightarrow> 'x \<Rightarrow> request \<Rightarrow> int \<Rightarrow> int \<Rightarrow> int \<Rightarrow> int \<Rightarrow> 'x encoder_acc res" where
  "try_schedule_encoder_inputs e c w r num_computed num_new_tokens budget shift =
    (let a = encoder_start w num_new_tokens budget
     in if num_new_tokens = 0 \<or> \<not> has_encoder_inputs c r then Ok a
        else bindE (assertE (mm_features r \<noteq> [])) (\<lambda>_.
          let window_end = num_computed + num_new_tokens + shift;
              (lo, hi) = get_mm_features_in_window c (mm_features r) num_computed window_end;
              lo = (if is_encoder_decoder e then 0 else lo)
          in encoder_loop e c r num_computed shift window_end [lo..<hi] a))"

text \<open>The encoder inputs of a chunk, then the lookahead reserve: the two calls both loops of
  \<open>schedule()\<close> make in this order.\<close>

definition cap_chunk ::
  "'x env \<Rightarrow> 'x loop_env \<Rightarrow> 'x \<Rightarrow> request \<Rightarrow> int \<Rightarrow> int \<Rightarrow> int \<Rightarrow> 'x encoder_acc res" where
  "cap_chunk e c w r num_computed num_new_tokens budget =
    bindE (if has_encoder_inputs c r
           then try_schedule_encoder_inputs e c w r num_computed num_new_tokens budget (num_prefill_lookahead e)
           else Ok (encoder_start w num_new_tokens budget)) (\<lambda>a.
    Ok (a\<lparr>ea_num_new_tokens := reserve_prefill_lookahead e r num_computed (ea_num_new_tokens a)\<rparr>))"

subsection \<open>Alignment and progress\<close>

lemma fold_min_in: "fold min xs x \<in> set (x # xs) \<and> (\<forall>y\<in>set (x # xs). fold min xs x \<le> (y::int))"
proof (induction xs arbitrary: x)
  case (Cons a xs)
  from Cons.IH [of "min a x"] show ?case by (auto simp: min_def split: if_splits)
qed simp

lemma min_default_cases:
  obtains (default) "xs = []" "min_default d xs = d"
    | (stop) "min_default d xs \<in> set xs" "\<forall>y\<in>set xs. min_default d xs \<le> y"
  using fold_min_in [of "tl xs" "hd xs"] by (cases xs) (auto simp: min_default_def)

text \<open>A chunk without an internal checkpoint, and its last position.\<close>

definition split_end :: "'x loop_env \<Rightarrow> request \<Rightarrow> int \<Rightarrow> int \<Rightarrow> int \<Rightarrow> int" where
  "split_end c r start end last_pos =
    min_default end (filter (\<lambda>p. start < p \<and> p < end) (mandatory_stops c r start end last_pos))"

lemma split_end_le: "split_end c r start end l \<le> end"
  by (rule min_default_cases [of "filter (\<lambda>p. start < p \<and> p < end) (mandatory_stops c r start end l)" "end"])
    (auto simp: split_end_def)

lemma split_end_gt: "start < end \<Longrightarrow> start < split_end c r start end l"
  by (rule min_default_cases [of "filter (\<lambda>p. start < p \<and> p < end) (mandatory_stops c r start end l)" "end"])
    (auto simp: split_end_def)

lemma split_end_least:
  "p \<in> set (mandatory_stops c r start end l) \<Longrightarrow> start < p \<Longrightarrow> split_end c r start end l \<le> p"
  by (rule min_default_cases [of "filter (\<lambda>p. start < p \<and> p < end) (mandatory_stops c r start end l)" "end"])
    (auto simp: split_end_def filter_empty_conv)

lemma split_end_cases:
  "split_end c r start end l = end \<or>
    split_end c r start end l \<in> set (mandatory_stops c r start end l) \<and> start < split_end c r start end l"
  by (rule min_default_cases [of "filter (\<lambda>p. start < p \<and> p < end) (mandatory_stops c r start end l)" "end"])
    (auto simp: split_end_def)

lemma next_boundary:
  assumes "0 < (bs :: int)"
  shows "start < (start div bs + 1) * bs" and "(start div bs + 1) * bs \<le> start + bs"
proof -
  have "start = start div bs * bs + start mod bs" "0 \<le> start mod bs" "start mod bs < bs" using assms by simp_all
  moreover have "(start div bs + 1) * bs = start div bs * bs + bs" by (simp add: distrib_right)
  ultimately show "start < (start div bs + 1) * bs" "(start div bs + 1) * bs \<le> start + bs" by linarith+
qed

lemma split_end_misaligned:
  assumes "0 < cache_block_size c" and "start mod cache_block_size c \<noteq> 0"
  shows "split_end c r start end l \<le> (start div cache_block_size c + 1) * cache_block_size c"
  using assms next_boundary(1) [of "cache_block_size c" start]
  by (intro split_end_least) (simp_all add: mandatory_stops_def Let_def)

lemma split_end_shared:
  assumes bs: "0 < cache_block_size c" and "start + cache_block_size c \<le> shared_prefix_boundary r"
    and "shared_prefix_boundary r < end"
  shows "split_end c r start end l \<le> shared_prefix_boundary r"
proof -
  let ?bs = "cache_block_size c" and ?d = "shared_prefix_boundary r - start"
  have "1 \<le> ?d div ?bs" using zdiv_mono1 [of ?bs ?d ?bs] bs assms(2) by simp
  then have "?bs \<le> ?d div ?bs * ?bs" using bs mult_right_mono [of 1 "?d div ?bs" ?bs] by simp
  moreover have "?d div ?bs * ?bs + ?d mod ?bs = ?d" "0 \<le> ?d mod ?bs" using bs by simp_all
  moreover have "split_end c r start end l \<le> start + ?d div ?bs * ?bs"
    using assms calculation(1) by (intro split_end_least) (simp_all add: mandatory_stops_def Let_def)
  ultimately show ?thesis by linarith
qed

lemma split_end_aligned:
  assumes bs: "0 < cache_block_size c" and start: "start < split_end c r start end l"
    and l: "l mod cache_block_size c = 0"
  shows "split_end c r start end l = end \<or> split_end c r start end l mod cache_block_size c = 0
    \<or> split_end c r start end l = tail_boundary c r"
proof (cases "split_end c r start end l = end")
  case False
  let ?bs = "cache_block_size c" and ?p = "split_end c r start end l"
  let ?j = "start + (shared_prefix_boundary r - start) div ?bs * ?bs"
  have "?p \<in> set (mandatory_stops c r start end l)" using split_end_cases [of c r start "end" l] False by blast
  moreover have al: "(start div ?bs + 1) * ?bs mod ?bs = 0" by (rule mod_mult_self2_is_0)
  ultimately consider "?p = (start div ?bs + 1) * ?bs" | "?p = l" | "?p = tail_boundary c r" | "?p = 0" | "?p = ?j"
    by (auto simp: mandatory_stops_def Let_def split: if_splits)
  then show ?thesis
  proof cases
    case 5
    show ?thesis
    proof (cases "start mod ?bs = 0")
      case True
      then have "?j mod ?bs = 0" by (simp add: mod_add_left_eq [of start, symmetric])
      then show ?thesis using 5 by simp
    next
      case mis: False
      let ?k = "(shared_prefix_boundary r - start) div ?bs"
      have "0 < ?k * ?bs" using start 5 by linarith
      then have "1 \<le> ?k" using bs by (simp add: zero_less_mult_iff)
      then have "?bs \<le> ?k * ?bs" using bs mult_right_mono [of 1 ?k ?bs] by simp
      then have "(start div ?bs + 1) * ?bs \<le> ?p" using next_boundary(2) [OF bs, of start] 5 by linarith
      then have "?p = (start div ?bs + 1) * ?bs" using split_end_misaligned [OF bs mis, of r "end" l] by simp
      then show ?thesis using al by metis
    qed
  qed (metis l al mod_0)+
qed simp

lemma last_cache_position_aligned: "last_cache_position c r mod cache_block_size c = 0"
proof -
  let ?p = "num_tokens r - num_tokens r mod cache_block_size c"
  have "?p mod cache_block_size c = 0" by (simp add: minus_mod_eq_mult_div)
  then have "(?p - cache_block_size c) mod cache_block_size c = 0" by simp
  then show ?thesis using \<open>?p mod _ = 0\<close> unfolding last_cache_position_def Let_def max_def by (simp only: split: if_split) simp
qed

lemma aligned_chunk_end_cases:
  assumes "0 < cache_block_size c"
  shows "aligned_chunk_end c start end \<le> end" and
    "start < aligned_chunk_end c start end \<Longrightarrow> aligned_chunk_end c start end mod cache_block_size c = 0
      \<or> max_prefill_tokens c < cache_block_size c
        \<and> aligned_chunk_end c start end div cache_block_size c = start div cache_block_size c"
proof -
  let ?bs = "cache_block_size c"
  have "end = end div ?bs * ?bs + end mod ?bs" "0 \<le> end mod ?bs" using assms by simp_all
  then have le: "end div ?bs * ?bs \<le> end" by linarith
  then show "aligned_chunk_end c start end \<le> end" by (simp add: aligned_chunk_end_def Let_def)
  assume gt: "start < aligned_chunk_end c start end"
  show "aligned_chunk_end c start end mod ?bs = 0 \<or> max_prefill_tokens c < ?bs
        \<and> aligned_chunk_end c start end div ?bs = start div ?bs"
  proof (cases "end div ?bs * ?bs > start \<or> ?bs \<le> max_prefill_tokens c")
    case False
    then have eq: "aligned_chunk_end c start end = end" by (simp add: aligned_chunk_end_def Let_def)
    have "end div ?bs \<le> start div ?bs" using False assms
      by (metis div_mult_self_is_m linorder_not_le zdiv_mono1 nonzero_mult_div_cancel_right less_irrefl)
    moreover have "start div ?bs \<le> end div ?bs" using gt eq assms by (intro zdiv_mono1) simp_all
    ultimately show ?thesis using False eq by simp
  qed (simp add: aligned_chunk_end_def Let_def)
qed

lemma mamba_split_eq:
  assumes "start = num_computed_tokens r + loc + ext" and "start < max (num_prompt_tokens r) (num_tokens r - 1)"
    and "chk \<longleftrightarrow> mamba_has_prefill_checkpoint_blocks c \<and> start mod cache_block_size c = 0"
  shows "mamba_block_aligned_split c r num loc ext =
    max (split_end c r start (if start + num < max (num_prompt_tokens r) (num_tokens r - 1) \<and> \<not> chk
            then aligned_chunk_end c start (start + num) else start + num)
          (if chk then 0 else last_cache_position c r) - start) 0"
  unfolding mamba_block_aligned_split_def Let_def assms(1) [symmetric] assms(3) [symmetric] split_end_def
  using assms(2) by (auto simp: not_le [symmetric])

text \<open>C39: A prefill chunk of a model with Mamba layers that starts without an internal checkpoint (the model
  keeps none, or the chunk starts inside a block) is never longer than asked for, and it does not run past a
  position whose state must be cached: the next block boundary when it starts inside a block, the last
  cacheable block boundary, the prompt's last hash boundary, and the shared-prefix boundary when that lies at
  least a block ahead.  A chunk that, besides, does not finish the prefill ends at a block boundary, at the
  prompt's last hash boundary, or, only when a block is wider than the largest chunk, inside the block it
  started in; the chunk that finishes the prefill need not end at any of these.\<close>

theorem mamba_split_aligned:
  assumes bs_def: "bs = cache_block_size c" and "0 < bs" and "start = num_computed_tokens r + loc + ext"
    and "prefill_end = max (num_prompt_tokens r) (num_tokens r - 1)" and "start < prefill_end"
    and "\<not> (mamba_has_prefill_checkpoint_blocks c \<and> start mod bs = 0)"
    and "n = mamba_block_aligned_split c r num loc ext" and "0 < n"
  shows "n \<le> num
    \<and> (start mod bs \<noteq> 0 \<longrightarrow> start + n \<le> (start div bs + 1) * bs)
    \<and> (start < last_cache_position c r \<longrightarrow> start + n \<le> last_cache_position c r)
    \<and> (last_cache_position c r < tail_boundary c r \<and> tail_boundary c r < num_prompt_tokens r \<and> start < tail_boundary c r
        \<longrightarrow> start + n \<le> tail_boundary c r)
    \<and> (start + bs \<le> shared_prefix_boundary r \<longrightarrow> start + n \<le> shared_prefix_boundary r)
    \<and> (start + n < prefill_end \<longrightarrow> (start + n) mod bs = 0 \<or> start + n = tail_boundary c r
        \<or> max_prefill_tokens c < bs \<and> (start + n) div bs = start div bs)"
proof -
  define stop where "stop = (if start + num < prefill_end then aligned_chunk_end c start (start + num) else start + num)"
  define p where "p = split_end c r start stop (last_cache_position c r)"
  have "n = max (p - start) 0"
    using mamba_split_eq [OF assms(3) assms(5) [unfolded assms(4)], of False c num] assms(6,7)
    unfolding p_def stop_def assms(4) bs_def by simp
  then have p: "start + n = p" "start < p" using assms(8) by simp_all
  note bs = assms(2) [unfolded bs_def]
  have le: "p \<le> stop" "stop \<le> start + num"
    using split_end_le aligned_chunk_end_cases(1) [OF bs] by (auto simp: p_def stop_def)
  have stops: "p = stop \<or> p mod bs = 0 \<or> p = tail_boundary c r"
    using split_end_aligned [OF bs _ last_cache_position_aligned] p(2) unfolding p_def bs_def by blast
  have inner: "p mod bs = 0 \<or> max_prefill_tokens c < bs \<and> p div bs = start div bs" if "p = stop" "p < prefill_end"
  proof -
    have "start + num < prefill_end" using that by (auto simp: stop_def split: if_splits)
    then have "p = aligned_chunk_end c start (start + num)" using that by (simp add: stop_def)
    then show ?thesis using aligned_chunk_end_cases(2) [OF bs, of start "start + num"] p(2) by (simp add: bs_def)
  qed
  have mis: "p \<le> (start div bs + 1) * bs" if "start mod bs \<noteq> 0"
    using split_end_misaligned [OF bs] that unfolding p_def bs_def by blast
  have last: "p \<le> last_cache_position c r" if "start < last_cache_position c r"
    using that unfolding p_def by (intro split_end_least) (simp_all add: mandatory_stops_def Let_def)
  have tail: "p \<le> tail_boundary c r" if "start < tail_boundary c r" "last_cache_position c r < tail_boundary c r"
    "tail_boundary c r < num_prompt_tokens r"
    using that unfolding p_def by (intro split_end_least) (simp_all add: mandatory_stops_def Let_def)
  have shared: "p \<le> shared_prefix_boundary r" if "start + bs \<le> shared_prefix_boundary r"
  proof (cases "shared_prefix_boundary r < stop")
    case True
    then show ?thesis using split_end_shared [OF bs, of start r stop "last_cache_position c r"] that
      unfolding p_def bs_def by simp
  qed (use le(1) in simp)
  have "n \<le> num" using le p(1) by simp
  then show ?thesis unfolding p(1) using stops inner mis last tail shared by blast
qed

text \<open>C40: With the whole budget of a step (at least the largest chunk, or what is left of the prefill),
  the alignment never shrinks a chunk to nothing: a prefill that has the step to itself advances.\<close>

theorem mamba_split_progress:
  assumes "0 < cache_block_size c" and "0 < num"
    and "min (max_prefill_tokens c) (max (num_prompt_tokens r) (num_tokens r - 1)
          - (num_computed_tokens r + loc + ext)) \<le> num"
  shows "0 < mamba_block_aligned_split c r num loc ext"
proof (cases "num_computed_tokens r + loc + ext < max (num_prompt_tokens r) (num_tokens r - 1)")
  case True
  let ?start = "num_computed_tokens r + loc + ext" and ?bs = "cache_block_size c"
  let ?pe = "max (num_prompt_tokens r) (num_tokens r - 1)"
  let ?chk = "mamba_has_prefill_checkpoint_blocks c \<and> ?start mod ?bs = 0"
  have "?start < aligned_chunk_end c ?start (?start + num)" if "?start + num < ?pe"
  proof (cases "(?start + num) div ?bs * ?bs > ?start \<or> ?bs > max_prefill_tokens c")
    case False
    then have "?bs \<le> num" using assms(3) that by linarith
    moreover have "(?start + ?bs) div ?bs = ?start div ?bs + 1" using assms(1) by (intro div_add_self2) simp
    ultimately have "?start div ?bs + 1 \<le> (?start + num) div ?bs"
      using assms(1) zdiv_mono1 [of "?start + ?bs" "?start + num" ?bs] by linarith
    then have "(?start div ?bs + 1) * ?bs \<le> (?start + num) div ?bs * ?bs"
      using assms(1) by (intro mult_right_mono) simp_all
    then show ?thesis using next_boundary(1) [OF assms(1), of ?start] False by linarith
  qed (use assms(2) in \<open>auto simp: aligned_chunk_end_def Let_def\<close>)
  then have "?start < (if ?start + num < ?pe \<and> \<not> ?chk
      then aligned_chunk_end c ?start (?start + num) else ?start + num)" using assms(2) by simp
  from split_end_gt [OF this, of c r "if ?chk then 0 else last_cache_position c r"]
  show ?thesis unfolding mamba_split_eq [OF refl True refl] by (simp only: less_max_iff_disj diff_gt_0_iff_gt simp_thms)
next
  case False
  then have "mamba_block_aligned_split c r num loc ext = num"
    unfolding mamba_block_aligned_split_def Let_def by (simp only: not_less if_True)
  then show ?thesis using assms(2) by simp
qed


subsection \<open>Encoder inputs a chunk needs\<close>

text \<open>\<open>get_mm_features_in_window\<close> returns the index range of the features that overlap a window, for
  features in the order of their positions.\<close>

definition window_law :: "'x loop_env \<Rightarrow> mm_feature list \<Rightarrow> bool" where
  "window_law c fs \<longleftrightarrow> (\<forall>start end lo hi. get_mm_features_in_window c fs start end = (lo, hi) \<longrightarrow>
    hi \<le> length fs \<and> (\<forall>i<length fs. i < hi \<longleftrightarrow> mm_offset (fs ! i) < end)
    \<and> (\<forall>i<length fs. i < lo \<longrightarrow> mm_offset (fs ! i) + mm_length (fs ! i) \<le> start))"

text \<open>A hit of \<open>check_and_update_cache\<close> references the entry, and neither further checks nor the evictions
  of \<open>can_allocate\<close> drop a referenced entry.\<close>

definition encoder_keeps :: "'x loop_env \<Rightarrow> ('x \<Rightarrow> request \<Rightarrow> nat \<Rightarrow> bool) \<Rightarrow> bool" where
  "encoder_keeps c cached \<longleftrightarrow>
    (\<forall>w r i. fst (encoder_check_and_update_cache c w r i) \<longrightarrow> cached (snd (encoder_check_and_update_cache c w r i)) r i)
    \<and> (\<forall>w r i j. cached w r j \<longrightarrow> cached (snd (encoder_check_and_update_cache c w r i)) r j)
    \<and> (\<forall>w r i j b n. cached w r j \<longrightarrow> cached (snd (encoder_can_allocate c w r i b n)) r j)"

lemma window_lawD:
  assumes "window_law c fs" and "get_mm_features_in_window c fs start end = (lo, hi)"
  shows "hi \<le> length fs" and "i < hi \<Longrightarrow> mm_offset (fs ! i) < end"
    and "i < length fs \<Longrightarrow> hi \<le> i \<Longrightarrow> end \<le> mm_offset (fs ! i)"
    and "i < length fs \<Longrightarrow> i < lo \<Longrightarrow> mm_offset (fs ! i) + mm_length (fs ! i) \<le> start"
proof -
  have "hi \<le> length fs \<and> (\<forall>i<length fs. i < hi \<longleftrightarrow> mm_offset (fs ! i) < end)
    \<and> (\<forall>i<length fs. i < lo \<longrightarrow> mm_offset (fs ! i) + mm_length (fs ! i) \<le> start)"
    using assms unfolding window_law_def by blast
  note facts = this
  show "hi \<le> length fs" "i < hi \<Longrightarrow> mm_offset (fs ! i) < end" using facts by (meson less_le_trans)+
  show "i < length fs \<Longrightarrow> hi \<le> i \<Longrightarrow> end \<le> mm_offset (fs ! i)" using facts by (meson not_less)
  show "i < length fs \<Longrightarrow> i < lo \<Longrightarrow> mm_offset (fs ! i) + mm_length (fs ! i) \<le> start" using facts by blast
qed

lemma window_law_sorted:
  assumes "window_law c fs" and "i \<le> j" and "j < length fs"
  shows "mm_offset (fs ! i) \<le> mm_offset (fs ! j)"
proof -
  obtain lo hi where w: "get_mm_features_in_window c fs 0 (mm_offset (fs ! i)) = (lo, hi)" by fastforce
  have "hi \<le> i" using window_lawD(2) [OF assms(1) w, of i] by force
  then show ?thesis using window_lawD(3) [OF assms(1) w assms(3)] assms(2) by simp
qed

text \<open>Input \<open>i\<close> is provided for: it or an input with the same content is computed or loaded in this step, it is
  cached, or the window holds none of its embeddings.\<close>

definition covered ::
  "'x loop_env \<Rightarrow> ('x \<Rightarrow> request \<Rightarrow> nat \<Rightarrow> bool) \<Rightarrow> request \<Rightarrow> int \<Rightarrow> int \<Rightarrow> 'x encoder_acc \<Rightarrow> nat \<Rightarrow> bool" where
  "covered c cached r nc window_end a i \<longleftrightarrow>
    (\<exists>j\<in>set (ea_inputs a) \<union> set (ea_external a). mm_identifier (mm_features r ! j) = mm_identifier (mm_features r ! i))
    \<or> cached (ea_world a) r i
    \<or> (let f = mm_features r ! i;
           (lo, hi) = get_embeds_indices_in_range c f (max 0 (nc - mm_offset f))
                        (min (mm_length f) (window_end - mm_offset f)) in hi = lo)"

definition acc_ok :: "'x loop_env \<Rightarrow> request \<Rightarrow> int \<Rightarrow> 'x encoder_acc \<Rightarrow> bool" where
  "acc_ok c r budget a \<longleftrightarrow>
    ea_hashes a = (\<lambda>j. mm_identifier (mm_features r ! j)) ` (set (ea_inputs a) \<union> set (ea_external a))
    \<and> ea_budget a = budget - (\<Sum>i\<leftarrow>ea_inputs a. get_num_embeds c (mm_features r ! i))"

lemma encoder_step_cases:
  assumes "encoder_input_step e c r nc shift we i a = Ok (b, a')" and "i < length (mm_features r)"
  shows "if b then ea_num_new_tokens a' = ea_num_new_tokens a
    else ea_num_new_tokens a' = max 0 (mm_offset (mm_features r ! i) - (nc + shift))"
  using assms
  by (auto simp: encoder_input_step_def Let_def bindE_eq_Inr_iff split_beta max_def split: if_splits)

lemma encoder_step_acc:
  assumes "encoder_input_step e c r nc shift we i a = Ok (b, a')" and "i < length (mm_features r)" and "acc_ok c r budget a"
  shows "acc_ok c r budget a'"
  using assms
  by (auto simp: encoder_input_step_def acc_ok_def Let_def bindE_eq_Inr_iff split_beta split: if_splits)

lemma encoder_step_covers:
  assumes step: "encoder_input_step e c r nc shift we i a = Ok (b, a')" and i: "i < length (mm_features r)"
    and acc: "acc_ok c r budget a" and ne: "\<not> is_encoder_decoder e" and keeps: "encoder_keeps c cached"
  shows "b \<Longrightarrow> covered c cached r nc we a' i" and "covered c cached r nc we a j \<Longrightarrow> covered c cached r nc we a' j"
proof -
  have k: "fst (encoder_check_and_update_cache c w r' k) \<Longrightarrow> cached (snd (encoder_check_and_update_cache c w r' k)) r' k"
    "cached w r' m \<Longrightarrow> cached (snd (encoder_check_and_update_cache c w r' k)) r' m"
    "cached w r' m \<Longrightarrow> cached (snd (encoder_can_allocate c w r' k x n)) r' m" for w r' k m x n
    using keeps unfolding encoder_keeps_def by blast+
  show "b \<Longrightarrow> covered c cached r nc we a' i"
    using step i ne acc
    by (auto simp: encoder_input_step_def Let_def bindE_eq_Inr_iff split_beta covered_def acc_ok_def k
        split: if_splits)
  show "covered c cached r nc we a j \<Longrightarrow> covered c cached r nc we a' j"
    using step i ne
    by (auto simp: encoder_input_step_def Let_def bindE_eq_Inr_iff split_beta covered_def k split: if_splits)
qed

text \<open>The loop over \<open>[k..<hi]\<close> runs to its end, or stops at an input and cuts the chunk before it.\<close>

lemma encoder_loop_stop:
  assumes "encoder_loop e c r nc shift we [k..<hi] a = Ok a'" and "hi \<le> length (mm_features r)" and "k \<le> hi"
  shows "\<exists>m. k \<le> m \<and> m \<le> hi \<and> (if m = hi then ea_num_new_tokens a' = ea_num_new_tokens a
      else ea_num_new_tokens a' = max 0 (mm_offset (mm_features r ! m) - (nc + shift)))
    \<and> (acc_ok c r budget a \<longrightarrow> acc_ok c r budget a')
    \<and> (acc_ok c r budget a \<longrightarrow> \<not> is_encoder_decoder e \<longrightarrow> encoder_keeps c cached \<longrightarrow>
        (\<forall>j<m. k \<le> j \<or> covered c cached r nc we a j \<longrightarrow> covered c cached r nc we a' j))"
  using assms
proof (induction "hi - k" arbitrary: k a)
  case 0
  then show ?case by (intro exI [of _ hi]) auto
next
  case (Suc n)
  then have "[k..<hi] = k # [Suc k..<hi]" by (simp add: upt_conv_Cons)
  then obtain b a1 where step: "encoder_input_step e c r nc shift we k a = Ok (b, a1)"
    and rest: "if b then encoder_loop e c r nc shift we [Suc k..<hi] a1 = Ok a' else a' = a1"
    using Suc.prems(1) by (auto simp: bindE_eq_Inr_iff split: if_splits)
  have k: "k < length (mm_features r)" "Suc k \<le> hi" using Suc by simp_all
  note num = encoder_step_cases [OF step k(1)] and acc = encoder_step_acc [OF step k(1)]
    and cov = encoder_step_covers [OF step k(1)]
  show ?case
  proof (cases b)
    case True
    then have "encoder_loop e c r nc shift we [Suc k..<hi] a1 = Ok a'" using rest by simp
    from Suc.hyps(1) [OF _ this Suc.prems(2) k(2)] Suc.hyps(2) obtain m
      where m: "Suc k \<le> m" "m \<le> hi" "if m = hi then ea_num_new_tokens a' = ea_num_new_tokens a1
          else ea_num_new_tokens a' = max 0 (mm_offset (mm_features r ! m) - (nc + shift))"
        "acc_ok c r budget a1 \<longrightarrow> acc_ok c r budget a'"
        "acc_ok c r budget a1 \<longrightarrow> \<not> is_encoder_decoder e \<longrightarrow> encoder_keeps c cached \<longrightarrow>
        (\<forall>j<m. Suc k \<le> j \<or> covered c cached r nc we a1 j \<longrightarrow> covered c cached r nc we a' j)"
      by (metis diff_Suc_1 diff_Suc_eq_diff_pred diff_commute)
    have "covered c cached r nc we a' j" if h: "acc_ok c r budget a" "\<not> is_encoder_decoder e" "encoder_keeps c cached"
      and j: "j < m" "k \<le> j \<or> covered c cached r nc we a j" for j
    proof -
      have "Suc k \<le> j \<or> covered c cached r nc we a1 j"
        using cov [OF h] True j(2) by (cases "j = k") auto
      then show ?thesis using m(5) acc [OF h(1)] h j(1) by blast
    qed
    then show ?thesis using m num True acc by (intro exI [of _ m]) auto
  next
    case False
    then have "covered c cached r nc we a' j" if "acc_ok c r budget a" "\<not> is_encoder_decoder e" "encoder_keeps c cached"
      "covered c cached r nc we a j" for j
      using rest cov(2) [OF that(1-4)] by simp
    then show ?thesis using rest num False acc k by (intro exI [of _ k]) auto
  qed
qed


lemma reserve_prefill_lookahead_cases:
  assumes "n' = reserve_prefill_lookahead e r nc n" and "0 \<le> num_prefill_lookahead e"
  shows "0 \<le> n'" and "n' \<le> max n 0"
    and "0 < n' \<Longrightarrow> \<not> (0 < num_tokens r - (nc + n') \<and> num_tokens r - (nc + n') < num_prefill_lookahead e)"
  using assms by (auto simp: reserve_prefill_lookahead_def Let_def split: if_splits)

lemma acc_ok_start [simp]: "acc_ok c r budget (encoder_start w n budget)"
  by (simp add: acc_ok_def encoder_start_def)

lemma encoder_start_sel [simp]: "ea_num_new_tokens (encoder_start w n budget) = n"
  by (simp add: encoder_start_def)

lemma try_schedule_encoder_inputs_bound:
  assumes ok: "try_schedule_encoder_inputs e c w r nc n budget shift = Ok a" and law: "window_law c (mm_features r)"
  shows "ea_num_new_tokens a \<le> max n 0" and "acc_ok c r budget a"
    and "0 \<le> shift \<Longrightarrow> \<not> is_encoder_decoder e \<Longrightarrow> encoder_keeps c cached \<Longrightarrow> has_encoder_inputs c r \<Longrightarrow>
      i < length (mm_features r) \<Longrightarrow> n' \<le> ea_num_new_tokens a \<Longrightarrow> 0 < n' \<Longrightarrow>
      mm_offset (mm_features r ! i) < nc + n' \<Longrightarrow> nc < mm_offset (mm_features r ! i) + mm_length (mm_features r ! i) \<Longrightarrow>
      covered c cached r nc (nc + n + shift) a i"
proof -
  let ?a0 = "encoder_start w n budget" and ?we = "nc + n + shift"
  have "ea_num_new_tokens a \<le> max n 0 \<and> acc_ok c r budget a \<and> (0 \<le> shift \<longrightarrow> \<not> is_encoder_decoder e \<longrightarrow> encoder_keeps c cached \<longrightarrow>
      has_encoder_inputs c r \<longrightarrow> i < length (mm_features r) \<longrightarrow> n' \<le> ea_num_new_tokens a \<longrightarrow> 0 < n' \<longrightarrow>
      mm_offset (mm_features r ! i) < nc + n' \<longrightarrow> nc < mm_offset (mm_features r ! i) + mm_length (mm_features r ! i) \<longrightarrow>
      covered c cached r nc ?we a i)"
  proof (cases "n = 0 \<or> \<not> has_encoder_inputs c r")
    case True
    then have "a = ?a0" using ok by (simp add: try_schedule_encoder_inputs_def Let_def)
    then show ?thesis using True by (auto simp: encoder_start_def acc_ok_def)
  next
    case False
    obtain lo hi where win: "get_mm_features_in_window c (mm_features r) nc ?we = (lo, hi)" by fastforce
    define k where "k = (if is_encoder_decoder e then 0 else lo)"
    have loop: "encoder_loop e c r nc shift ?we [k..<hi] ?a0 = Ok a"
      using ok False win by (simp add: try_schedule_encoder_inputs_def Let_def bindE_eq_Inr_iff k_def)
    note law = window_lawD [OF law win] window_law_sorted [OF law]
    have "[k..<hi] = [min k hi..<hi]" by (cases "k \<le> hi") (simp_all add: min_def)
    with loop have loop: "encoder_loop e c r nc shift ?we [min k hi..<hi] ?a0 = Ok a" by simp
    from encoder_loop_stop [OF loop law(1), of budget cached] obtain m where m: "min k hi \<le> m" "m \<le> hi" "if m = hi then ea_num_new_tokens a = n
          else ea_num_new_tokens a = max 0 (mm_offset (mm_features r ! m) - (nc + shift))"
        "acc_ok c r budget a" "\<not> is_encoder_decoder e \<longrightarrow> encoder_keeps c cached \<longrightarrow>
          (\<forall>j<m. min k hi \<le> j \<longrightarrow> covered c cached r nc ?we a j)"
      unfolding encoder_start_sel by (metis acc_ok_start min.cobounded2)
    have le: "ea_num_new_tokens a \<le> max n 0"
      using m(3) law(2) [of m] m(2) by (auto split: if_splits)
    have "covered c cached r nc ?we a i"
      if h: "0 \<le> shift" "\<not> is_encoder_decoder e" "encoder_keeps c cached" and i: "i < length (mm_features r)"
        "n' \<le> ea_num_new_tokens a" "0 < n'" "mm_offset (mm_features r ! i) < nc + n'"
        "nc < mm_offset (mm_features r ! i) + mm_length (mm_features r ! i)"
    proof -
      have "lo \<le> i" using law(4) [OF i(1)] i(5) by force
      then have "min k hi \<le> i" using h(2) by (simp add: k_def)
      moreover have "i < m"
      proof (rule ccontr)
        assume "\<not> i < m"
        show False
        proof (cases "m = hi")
          case True
          then have "?we \<le> mm_offset (mm_features r ! i)" using \<open>\<not> i < m\<close> law(3) i(1) by simp
          then show False using i le h(1) by auto
        next
          case False
          then have "mm_offset (mm_features r ! m) \<le> mm_offset (mm_features r ! i)"
            using \<open>\<not> i < m\<close> i(1) by (intro law(5)) auto
          then show False using i m(3) False h(1) by auto
        qed
      qed
      ultimately show ?thesis using m(5) h by blast
    qed
    then show ?thesis using le m(4) by blast
  qed
  then show "ea_num_new_tokens a \<le> max n 0" "acc_ok c r budget a"
    "0 \<le> shift \<Longrightarrow> \<not> is_encoder_decoder e \<Longrightarrow> encoder_keeps c cached \<Longrightarrow> has_encoder_inputs c r \<Longrightarrow>
      i < length (mm_features r) \<Longrightarrow> n' \<le> ea_num_new_tokens a \<Longrightarrow> 0 < n' \<Longrightarrow>
      mm_offset (mm_features r ! i) < nc + n' \<Longrightarrow> nc < mm_offset (mm_features r ! i) + mm_length (mm_features r ! i) \<Longrightarrow>
      covered c cached r nc ?we a i" by blast+
qed

text \<open>What both loops of \<open>schedule()\<close> rely on.\<close>

lemma cap_chunk_bounds:
  assumes "cap_chunk e c w r nc n budget = Ok a" and "window_law c (mm_features r)" and "0 \<le> num_prefill_lookahead e"
  shows "0 \<le> ea_num_new_tokens a" and "ea_num_new_tokens a \<le> max n 0"
    and "0 < ea_num_new_tokens a \<Longrightarrow> \<not> (0 < num_tokens r - (nc + ea_num_new_tokens a)
        \<and> num_tokens r - (nc + ea_num_new_tokens a) < num_prefill_lookahead e)"
    and "acc_ok c r budget a"
proof -
  obtain a0 where a0: "(if has_encoder_inputs c r
      then try_schedule_encoder_inputs e c w r nc n budget (num_prefill_lookahead e)
      else Ok (encoder_start w n budget)) = Ok a0"
    and a: "a = a0\<lparr>ea_num_new_tokens := reserve_prefill_lookahead e r nc (ea_num_new_tokens a0)\<rparr>"
    using assms(1) by (auto simp: cap_chunk_def bindE_eq_Inr_iff)
  have "ea_num_new_tokens a0 \<le> max n 0" "acc_ok c r budget a0"
    using a0 try_schedule_encoder_inputs_bound(1,2) [OF _ assms(2)]
    by (auto simp: encoder_start_def acc_ok_def split: if_splits)
  moreover have "ea_num_new_tokens a = reserve_prefill_lookahead e r nc (ea_num_new_tokens a0)" using a by simp
  note this [THEN reserve_prefill_lookahead_cases(1)] this [THEN reserve_prefill_lookahead_cases(2)]
    this [THEN reserve_prefill_lookahead_cases(3)]
  ultimately show "0 \<le> ea_num_new_tokens a" "ea_num_new_tokens a \<le> max n 0" "acc_ok c r budget a"
    "0 < ea_num_new_tokens a \<Longrightarrow> \<not> (0 < num_tokens r - (nc + ea_num_new_tokens a)
        \<and> num_tokens r - (nc + ea_num_new_tokens a) < num_prefill_lookahead e)"
    using assms(3) a by (auto simp: acc_ok_def)
qed


subsection \<open>A concrete configuration\<close>

text \<open>Two pipeline stages, FIFO queues, an encoder cache that admits what fits the budget, and blocks without end.\<close>

definition demo_loop :: "demo_world loop_env" where
  "demo_loop = \<lparr>
    max_num_scheduled_tokens = 8, max_num_batched_tokens = 8, draft_slots = 0, max_num_encoder_input_tokens = 8,
    max_num_running_reqs = 4, long_prefill_token_threshold = 0, enable_chunked_prefill = True,
    disable_chunked_mm_input = False, num_spec_tokens = 0, dynamic_sd_lookup = None, num_lookahead_tokens = 0,
    requires_kv_delivery = False, max_loras = None, pipeline_parallel_size = 2, pp_spread = True,
    dispatch = \<lparr>use_pp = True, async_scheduling = False, use_v2_model_runner = False\<rparr>,
    scheduler_reserve_full_isl = False, supports_divergent_local_hybrid_hits = False,
    need_mamba_block_aligned_split = False, mamba_has_prefill_checkpoint_blocks = False,
    mamba_partial_cache_hit = False, use_eagle_block_drop = False, cache_block_size = 4, hash_block_size = 2,
    has_encoder_inputs = (\<lambda>r. mm_features r \<noteq> []), get_num_encoder_embeds = (\<lambda>r i. mm_length (mm_features r ! i)),
    get_num_embeds = mm_length, get_embeds_indices_in_range = (\<lambda>f a b. (a, b)),
    get_mm_features_in_window = (\<lambda>fs a b. (length (takeWhile (\<lambda>f. mm_offset f + mm_length f \<le> a) fs),
      length (takeWhile (\<lambda>f. mm_offset f < b) fs))),
    has_prefill_stats = (\<lambda>w i. False), queue_pop = (\<lambda>ob q. (hd q, tl q)),
    queue_prepend_requests = (\<lambda>ob xs q. xs @ q), kv_new_step_starts = (\<lambda>w. w),
    kv_allocate_slots = (\<lambda>w r a. (Some (Some [[0]]), w\<lparr>dw_owned := (dw_owned w)(request_id r := [0])\<rparr>)),
    kv_get_computed_blocks = (\<lambda>w r. ((None, 0, 0), w)),
    kv_get_computed_blocks_for_connector = (\<lambda>w r. ((None, 0, 0, False), w)),
    kv_truncate_computed_blocks = (\<lambda>w b n. b), kv_empty_blocks = None, kv_get_blocks = (\<lambda>w i. Some [dw_owned w i]),
    kv_record_prefix_cache_stats = (\<lambda>w r n. w), kv_num_blocks_to_allocate = (\<lambda>w i n m. 0),
    kv_zeroing_block_ids_in_range = (\<lambda>w i a b. []), kv_take_boundary_state_offloads = (\<lambda>w. w),
    kv_take_block_copies = (\<lambda>w. (([], []), w)), kv_take_new_block_ids = (\<lambda>w. ([], w)),
    encoder_check_and_update_cache = (\<lambda>w r i. (False, w)),
    encoder_can_allocate = (\<lambda>w r i b n. (mm_length (mm_features r ! i) + n \<le> b, w)),
    encoder_allocate = (\<lambda>w r i. w), ec_has_cache_item = (\<lambda>w k. False),
    ec_ensure_cache_available = (\<lambda>w r n. (True, w)), ec_update_state_after_alloc = (\<lambda>w r i. w),
    connector_get_num_new_matched_tokens = (\<lambda>w r n. ((Some 0, False), w)),
    connector_update_state_after_alloc = (\<lambda>w r b n. w), connector_build_meta = (\<lambda>w so. w), ec_build_meta = (\<lambda>w so. w)\<rparr>"

definition demo_mamba :: "demo_world loop_env" where
  "demo_mamba = demo_loop\<lparr>need_mamba_block_aligned_split := True, max_num_scheduled_tokens := 6\<rparr>"

definition long_request :: request where
  "long_request = (demo_request ''a'' False)\<lparr>all_token_ids := replicate 11 7, num_prompt_tokens := 11,
    num_computed_tokens := 1, shared_prefix_boundary := 6\<rparr>"

lemmas demo_loop_sel = demo_loop_def demo_mamba_def long_request_def demo_request_def demo_env_def

theorem mamba_split_aligned_witness:
  "mamba_block_aligned_split demo_mamba long_request 6 0 0 = 3
    \<and> (3 :: int) \<le> 6 \<and> (1 :: int) + 3 \<le> (1 div 4 + 1) * 4 \<and> 1 + 3 \<le> last_cache_position demo_mamba long_request
    \<and> 1 + 3 \<le> shared_prefix_boundary long_request \<and> ((1 + 3 :: int) mod 4 = 0 \<or> 1 + 3 = tail_boundary demo_mamba long_request
        \<or> max_prefill_tokens demo_mamba < 4 \<and> (1 + 3 :: int) div 4 = 1 div 4)"
proof -
  have sel: "cache_block_size demo_mamba = 4" "\<not> mamba_has_prefill_checkpoint_blocks demo_mamba"
    "num_computed_tokens long_request = 1" "num_prompt_tokens long_request = 11" "num_tokens long_request = 11"
    by (simp_all add: demo_loop_sel)
  have pos: "last_cache_position demo_mamba long_request = 8" "shared_prefix_boundary long_request = 6"
    "aligned_chunk_end demo_mamba 1 7 = 4" "tail_boundary demo_mamba long_request = 0"
    by (simp_all add: last_cache_position_def aligned_chunk_end_def tail_boundary_def Let_def demo_loop_sel)
  have v: "mamba_block_aligned_split demo_mamba long_request 6 0 0 = 3"
    unfolding mamba_block_aligned_split_def mandatory_stops_def Let_def
    by (simp add: sel pos min_default_def)
  show ?thesis
    using mamba_split_aligned [of 4 demo_mamba 1 long_request 0 0 11 3 6] v sel pos by simp
qed

theorem mamba_split_progress_witness: "0 < mamba_block_aligned_split demo_mamba long_request 6 0 0"
  by (rule mamba_split_progress) (simp_all add: demo_loop_sel max_prefill_tokens_def)

text \<open>C38: The chunk left after the encoder inputs and the lookahead reserve is between nothing and what was asked
  for; it never ends closer to the end of the prefill than the drafter's lookahead without reaching it; the encoder
  budget falls by exactly the embeddings of the inputs scheduled; and every encoder input the chunk overlaps is
  computed or loaded in this step, cached already, or has no embedding in the window.\<close>

theorem chunk_inputs_available:
  assumes "cap_chunk e c w r nc n budget = Ok a" and "\<not> is_encoder_decoder e" and "has_encoder_inputs c r"
    and "window_law c (mm_features r)" and "encoder_keeps c cached" and "0 \<le> num_prefill_lookahead e"
  shows "0 \<le> ea_num_new_tokens a \<and> ea_num_new_tokens a \<le> max n 0
    \<and> (0 < ea_num_new_tokens a \<longrightarrow> num_tokens r - (nc + ea_num_new_tokens a) \<le> 0
        \<or> num_prefill_lookahead e \<le> num_tokens r - (nc + ea_num_new_tokens a))
    \<and> ea_budget a = budget - (\<Sum>i\<leftarrow>ea_inputs a. get_num_embeds c (mm_features r ! i))
    \<and> (0 < ea_num_new_tokens a \<longrightarrow> (\<forall>i<length (mm_features r).
        mm_offset (mm_features r ! i) < nc + ea_num_new_tokens a
        \<and> nc < mm_offset (mm_features r ! i) + mm_length (mm_features r ! i)
        \<longrightarrow> covered c cached r nc (nc + n + num_prefill_lookahead e) a i))"
proof -
  note bounds = cap_chunk_bounds [OF assms(1,4,6)]
  obtain a0 where a0: "try_schedule_encoder_inputs e c w r nc n budget (num_prefill_lookahead e) = Ok a0"
    and a: "a = a0\<lparr>ea_num_new_tokens := reserve_prefill_lookahead e r nc (ea_num_new_tokens a0)\<rparr>"
    using assms(1,3) by (auto simp: cap_chunk_def bindE_eq_Inr_iff)
  have le: "ea_num_new_tokens a \<le> ea_num_new_tokens a0" if "0 < ea_num_new_tokens a"
    using reserve_prefill_lookahead_cases(2) [OF refl assms(6), of r nc "ea_num_new_tokens a0"] that by (simp add: a)
  have same: "covered c cached r nc we a i = covered c cached r nc we a0 i" for we i by (simp add: a covered_def)
  have "covered c cached r nc (nc + n + num_prefill_lookahead e) a i"
    if "i < length (mm_features r)" "0 < ea_num_new_tokens a" "mm_offset (mm_features r ! i) < nc + ea_num_new_tokens a"
      "nc < mm_offset (mm_features r ! i) + mm_length (mm_features r ! i)" for i
    unfolding same
    by (rule try_schedule_encoder_inputs_bound(3) [OF a0 assms(4,6,2,5,3) that(1) le [OF that(2)] that(2-4)])
  then show ?thesis using bounds by (auto simp: acc_ok_def not_less)
qed

definition demo_blank :: demo_world where
  "demo_blank = \<lparr>dw_owned = (\<lambda>_. []), dw_ref = (\<lambda>_. 0)\<rparr>"

definition image_request :: request where
  "image_request = (demo_request ''a'' False)\<lparr>mm_features := [\<lparr>mm_identifier = ''img'', mm_offset = 1, mm_length = 2\<rparr>]\<rparr>"

lemma image_window: "window_law demo_loop (mm_features image_request)"
  by (auto simp: window_law_def image_request_def demo_loop_def)

lemma demo_keeps: "encoder_keeps demo_loop (\<lambda>w r i. False)"
  by (simp add: encoder_keeps_def demo_loop_def)

theorem chunk_inputs_available_witness:
  "\<exists>a. cap_chunk demo_env demo_loop demo_blank image_request 0 3 8 = Ok a \<and> ea_num_new_tokens a = 3
    \<and> covered demo_loop (\<lambda>w r i. False) image_request 0 3 a 0"
proof -
  obtain a where a: "cap_chunk demo_env demo_loop demo_blank image_request 0 3 8 = Ok a" "ea_num_new_tokens a = 3"
    by (simp add: cap_chunk_def try_schedule_encoder_inputs_def encoder_start_def encoder_input_step_def Let_def
        reserve_prefill_lookahead_def demo_loop_def demo_env_def image_request_def demo_request_def py_index_def)
  have "\<not> is_encoder_decoder demo_env" "has_encoder_inputs demo_loop image_request" "num_prefill_lookahead demo_env = 0"
    by (simp_all add: demo_env_def demo_loop_def image_request_def)
  then show ?thesis
    using chunk_inputs_available [OF a(1) _ _ image_window demo_keeps] a by (auto simp: image_request_def)
qed


end
