(* ===== verification/KV_Spec.thy ===== *)
theory KV_Spec
  imports Prelude
begin

text \<open>
  Layer specs, KV cache groups and the configuration they are sized against
  (\<open>v1/core/kv_cache_utils.py\<close>): the block sizes of the scheduler and of the hasher, the memory a
  request needs, and the search for the longest context that fits.

  The spec classes live outside the repository.  A layer spec is a type variable and every attribute,
  class test and method the code uses is a field of the record \<open>spec_env\<close>.
\<close>

subsection \<open>Specs, groups, configuration\<close>

datatype spec_class =
    AttentionSpec | FullAttentionSpec | MLAAttentionSpec | SlidingWindowSpec | SlidingWindowMLASpec
  | ChunkedLocalAttentionSpec | CircularBufferSpec | MambaSpec | KpoolTailSpec | HiddenStateCacheSpec
  | OtherSpec

text \<open>A group carries one layer spec or a dictionary of specs of one type.\<close>

datatype 'l kv_spec = Layer 'l | UniformTypeKVCacheSpecs int "(string, 'l) dict"

record 'l kv_group =
  layer_names :: "string list"
  kv_cache_spec :: "'l kv_spec"
  is_eagle_group :: bool

definition new_group :: "string list \<Rightarrow> 'l kv_spec \<Rightarrow> 'l kv_group" where
  "new_group names spec = \<lparr>layer_names = names, kv_cache_spec = spec, is_eagle_group = False\<rparr>"

lemma new_group_simps [simp]:
  "layer_names (new_group n s) = n" "kv_cache_spec (new_group n s) = s" "\<not> is_eagle_group (new_group n s)"
  by (simp_all add: new_group_def)

record kv_layout =
  is_block_outermost :: bool
  is_block_compact :: bool
  is_layer_compact :: bool

record spec_config =
  num_speculative_tokens :: int
  use_eagle :: bool
  use_eagle_block_drop :: bool
  use_multi_module_mtp :: bool

record vllm_config =
  max_model_len :: int
  original_max_model_len :: int
  total_num_hidden_layers :: int
  model_type :: string
  block_size :: int
  enable_prefix_caching :: bool
  prefix_match_unit :: "int option"
  num_gpu_blocks_override :: "int option"
  prefix_cache_retention_interval :: "int option"
  resolved_kv_cache_layout :: kv_layout
  decode_context_parallel_size :: int
  pipeline_parallel_size :: nat
  has_kv_transfer_config :: bool
  disable_hybrid_kv_cache_manager :: bool
  speculative_config :: "spec_config option"

text \<open>Code outside the repository.  \<open>mro\<close> is the class of a spec followed by its base classes, as far as
  the code names them; \<open>tokens_per_state\<close> is \<open>None\<close> when the attribute is not an integer; \<open>merge\<close>
  may raise; \<open>replace_as\<close> gives the spec of another class with a new block and padded page size.\<close>

record 'l spec_env =
  mro :: "'l \<Rightarrow> spec_class list"
  page_size_bytes :: "'l kv_spec \<Rightarrow> int"
  real_page_size_bytes :: "'l \<Rightarrow> int"
  unpadded_page_size_bytes :: "'l \<Rightarrow> int"
  page_size_padded :: "'l \<Rightarrow> int option"
  spec_block_size :: "'l \<Rightarrow> int"
  tokens_per_state :: "'l \<Rightarrow> int option"
  prefix_cacheable :: "'l kv_spec \<Rightarrow> bool"
  mamba_cache_mode :: "'l \<Rightarrow> string"
  non_causal_multi_token_decode :: "'l \<Rightarrow> bool"
  hidden_bytes_per_token :: "'l \<Rightarrow> int"
  iter_layer_specs :: "'l kv_spec \<Rightarrow> 'l list"
  spec_max_memory_usage_bytes :: "vllm_config \<Rightarrow> 'l kv_spec \<Rightarrow> int"
  max_memory_usage_pages :: "vllm_config \<Rightarrow> 'l kv_spec \<Rightarrow> int"
  max_layers_per_page_size :: "(string, 'l) dict \<Rightarrow> int"
  merge_specs :: "'l list \<Rightarrow> 'l res"
  is_uniform_type :: "(string, 'l) dict \<Rightarrow> bool"
  from_specs :: "(string, 'l) dict \<Rightarrow> (int \<times> (string, 'l) dict) option"
  replace_page_size_padded :: "int \<Rightarrow> 'l \<Rightarrow> 'l"
  replace_block_size :: "int \<Rightarrow> 'l \<Rightarrow> 'l"
  replace_extra_retained_tokens :: "int \<Rightarrow> 'l \<Rightarrow> 'l"
  replace_as :: "spec_class \<Rightarrow> int \<Rightarrow> int option \<Rightarrow> 'l \<Rightarrow> 'l"
  check_kv_cache_spec_registry :: "(string, 'l) dict \<Rightarrow> unit res"
  compute_layout_strides :: "'l \<Rightarrow> int \<Rightarrow> nat \<Rightarrow> kv_layout \<Rightarrow> int option \<Rightarrow> int \<times> int"
  cdiv :: "int \<Rightarrow> int \<Rightarrow> int"
  get_pp_indices :: "int \<Rightarrow> nat \<Rightarrow> nat \<Rightarrow> int \<times> int"
  extract_layer_index :: "string \<Rightarrow> int"

definition isinstance :: "'l spec_env \<Rightarrow> 'l \<Rightarrow> spec_class \<Rightarrow> bool" where
  "isinstance E s c \<longleftrightarrow> c \<in> set (mro E s)"

definition type_is :: "'l spec_env \<Rightarrow> 'l \<Rightarrow> spec_class \<Rightarrow> bool" where
  "type_is E s c \<longleftrightarrow> (case mro E s of [] \<Rightarrow> False | c' # _ \<Rightarrow> c' = c)"

text \<open>\<open>cdiv\<close> is documented as the ceiling of the quotient.\<close>

definition cdiv_law :: "'l spec_env \<Rightarrow> bool" where
  "cdiv_law E \<longleftrightarrow> (\<forall>a b. 0 < b \<longrightarrow> cdiv E a b = (a + b - 1) div b)"

lemma cdiv_bounds:
  assumes "cdiv_law E" and "0 < b"
  shows "a \<le> cdiv E a b * b" and "cdiv E a b * b < a + b"
proof -
  have c: "cdiv E a b = (a + b - 1) div b" using assms by (simp add: cdiv_law_def)
  let ?q = "(a + b - 1) div b" and ?r = "(a + b - 1) mod b"
  have "a + b - 1 = ?q * b + ?r" "0 \<le> ?r" "?r < b" using assms by simp_all
  then show "a \<le> cdiv E a b * b" "cdiv E a b * b < a + b" unfolding c by linarith+
qed

lemma cdiv_pos: "cdiv_law E \<Longrightarrow> 0 < b \<Longrightarrow> 0 < a \<Longrightarrow> 0 < cdiv E a b"
  using cdiv_bounds(1) [of E b a] by (smt (verit) zero_less_mult_pos2)

text \<open>The members of a Python set built by a comprehension, in order of first occurrence.\<close>

fun first_occurrences :: "'a list \<Rightarrow> 'a list" where
  "first_occurrences [] = []"
| "first_occurrences (x # xs) = x # filter (\<lambda>y. y \<noteq> x) (first_occurrences xs)"

lemma set_first_occurrences [simp]: "set (first_occurrences xs) = set xs"
  by (induction xs) auto

lemma distinct_first_occurrences [simp]: "distinct (first_occurrences xs)"
  by (induction xs) auto

lemma singleton_occurrences: "first_occurrences xs = [p] \<Longrightarrow> x \<in> set xs \<Longrightarrow> x = p"
  by (metis empty_iff insert_iff list.set(1) list.set(2) set_first_occurrences)

subsection \<open>Block sizes of the scheduler and the hasher\<close>

text \<open>\<^verbatim>\<open>math.lcm(*xs)\<close> and \<^verbatim>\<open>math.gcd(*xs)\<close>.\<close>

definition math_lcm :: "int list \<Rightarrow> int" where
  "math_lcm xs = foldr lcm xs 1"

definition math_gcd :: "int list \<Rightarrow> int" where
  "math_gcd xs = foldr gcd xs 0"

lemma dvd_math_lcm: "x \<in> set xs \<Longrightarrow> x dvd math_lcm xs"
  unfolding math_lcm_def by (induction xs) (auto intro: dvd_lcmI2)

lemma math_gcd_dvd: "x \<in> set xs \<Longrightarrow> math_gcd xs dvd x"
  unfolding math_gcd_def by (induction xs) (auto intro: dvd_trans)

lemma math_lcm_pos: "(\<And>x. x \<in> set xs \<Longrightarrow> 0 < x) \<Longrightarrow> 0 < math_lcm xs"
  unfolding math_lcm_def by (induction xs) (simp_all, metis lcm_pos_int less_irrefl)

lemma math_gcd_pos: "xs \<noteq> [] \<Longrightarrow> (\<And>x. x \<in> set xs \<Longrightarrow> 0 < x) \<Longrightarrow> 0 < math_gcd xs"
  unfolding math_gcd_def by (cases xs) (simp_all, metis gcd_pos_int less_irrefl)

text \<open>The block sizes of the groups whose blocks are found by hash; of all groups when there is none.\<close>

definition hashing_sizes :: "'l spec_env \<Rightarrow> 'l kv_group list \<Rightarrow> int list \<Rightarrow> int list" where
  "hashing_sizes E groups sizes =
     (let hs = map snd (filter (\<lambda>(g, b). prefix_cacheable E (kv_cache_spec g)) (zip groups sizes))
      in if hs = [] then sizes else hs)"

definition layer_specs_of :: "'l spec_env \<Rightarrow> 'l kv_group list \<Rightarrow> 'l list" where
  "layer_specs_of E groups = concat (map (\<lambda>g. iter_layer_specs E (kv_cache_spec g)) groups)"

text \<open>The \<open>block_size\<close> of a spec, and the tokens one of its blocks spans under decode context parallelism.\<close>

definition kv_spec_block_size :: "'l spec_env \<Rightarrow> 'l kv_spec \<Rightarrow> int" where
  "kv_spec_block_size E spec =
     (case spec of Layer l \<Rightarrow> spec_block_size E l | UniformTypeKVCacheSpecs b d \<Rightarrow> b)"

definition resolve_dcp_kv_block_size :: "'l spec_env \<Rightarrow> 'l kv_spec \<Rightarrow> int \<Rightarrow> int" where
  "resolve_dcp_kv_block_size E spec dcp =
     (let layer_specs = iter_layer_specs E spec
      in if layer_specs \<noteq> [] \<and> list_all (\<lambda>l. isinstance E l AttentionSpec) layer_specs
         then kv_spec_block_size E spec * dcp else kv_spec_block_size E spec)"

definition prefix_alignments :: "'l spec_env \<Rightarrow> 'l kv_group list \<Rightarrow> int list" where
  "prefix_alignments E groups =
     concat (map (\<lambda>s. case tokens_per_state E s of
                        Some t \<Rightarrow> if prefix_cacheable E (Layer s) \<and> t > 1 then [t] else []
                      | None \<Rightarrow> [])
                 (layer_specs_of E groups))"

definition has_partial_mamba_group ::
  "'l spec_env \<Rightarrow> int \<Rightarrow> int \<Rightarrow> 'l kv_group list \<Rightarrow> int list \<Rightarrow> bool" where
  "has_partial_mamba_group E dcp hash_block_size groups sizes \<longleftrightarrow>
     (\<exists>(g, b) \<in> set (zip groups sizes). \<exists>s \<in> set (iter_layer_specs E (kv_cache_spec g)).
        isinstance E s MambaSpec \<and> mamba_cache_mode E s = ''align'' \<and>
        (dcp = 1 \<and> b > hash_block_size \<or> dcp > 1 \<and> b \<ge> hash_block_size))"

definition resolve_kv_cache_block_sizes ::
  "'l spec_env \<Rightarrow> 'l kv_group list \<Rightarrow> vllm_config \<Rightarrow> (int \<times> int) res" where
  "resolve_kv_cache_block_sizes E groups cfg =
     (let dcp = decode_context_parallel_size cfg in
      if length groups \<le> 1 then Ok (block_size cfg * dcp, block_size cfg * dcp)
      else
        let sizes = map (\<lambda>g. resolve_dcp_kv_block_size E (kv_cache_spec g) dcp) groups;
            scheduler_block_size = math_lcm sizes
        in if \<not> (enable_prefix_caching cfg \<or> has_kv_transfer_config cfg)
           then Ok (scheduler_block_size, scheduler_block_size)
           else if \<exists>s \<in> set (layer_specs_of E groups). isinstance E s MambaSpec \<and> mamba_cache_mode E s \<noteq> ''align''
           then Ok (scheduler_block_size, scheduler_block_size)
           else
             let hs = hashing_sizes E groups sizes;
                 hash_block_size = or_default (math_gcd hs) (prefix_match_unit cfg);
                 alignment = (if has_partial_mamba_group E dcp hash_block_size groups sizes
                              then hash_block_size else scheduler_block_size)
             in if hash_block_size = 0 then Err ZeroDivisionError
                else if \<exists>b \<in> set hs. b mod hash_block_size \<noteq> 0 then Err ValueError
                else if \<exists>a \<in> set (prefix_alignments E groups). alignment mod a \<noteq> 0 then Err ValueError
                else Ok (scheduler_block_size, hash_block_size))"

subsection \<open>Memory of one request\<close>

text \<open>\<open>max_memory_usage_bytes\<close> of a collection of specs.\<close>

definition max_memory_usage_bytes :: "'l spec_env \<Rightarrow> 'l kv_spec list \<Rightarrow> vllm_config \<Rightarrow> int" where
  "max_memory_usage_bytes E specs cfg = sum_list (map (spec_max_memory_usage_bytes E cfg) specs)"

text \<open>The two \<open>ValueError\<close>s of the check, with the numbers their messages print; the estimate is printed
  only when it is positive.\<close>

datatype memory_verdict =
    Enough
  | NoAvailableMemory
  | TooLong (too_long_len: int) (too_long_needed: int) (too_long_available: int) (too_long_estimate: "int option")

definition check_enough_memory ::
  "int \<Rightarrow> (vllm_config \<Rightarrow> int res) \<Rightarrow> (int \<Rightarrow> vllm_config \<Rightarrow> int res \<times> vllm_config) \<Rightarrow> vllm_config \<Rightarrow>
   memory_verdict res \<times> vllm_config" where
  "check_enough_memory available need estimate cfg =
     (if available \<le> 0 then (Ok NoAvailableMemory, cfg)
      else case need cfg of
        Inl e \<Rightarrow> (Err e, cfg)
      | Inr needed \<Rightarrow>
          if needed > available
          then (let (r, cfg') = estimate available cfg
                in (bindE r (\<lambda>n. Ok (TooLong (max_model_len cfg) needed available (if n > 0 then Some n else None))),
                    cfg'))
          else (Ok Enough, cfg))"

text \<open>The loop of the two estimates.  \<open>fits\<close> writes the tried length into the configuration, which the
  loop therefore threads; an exception of \<open>fits\<close> ends the loop.\<close>

function len_search ::
  "(int \<Rightarrow> vllm_config \<Rightarrow> bool res \<times> vllm_config) \<Rightarrow> int \<Rightarrow> int \<Rightarrow> int \<Rightarrow> vllm_config \<Rightarrow> int res \<times> vllm_config"
  where
  "len_search fits left right result cfg =
     (if left \<le> right then
        (let mid = (left + right) div 2;
             (ok, cfg') = fits mid cfg
         in case ok of
              Inl e \<Rightarrow> (Err e, cfg')
            | Inr True \<Rightarrow> len_search fits (mid + 1) right mid cfg'
            | Inr False \<Rightarrow> len_search fits left (mid - 1) result cfg')
      else (Ok result, cfg))"
  by pat_completeness auto
termination
  by (relation "measure (\<lambda>(fits, left, right, result, cfg). nat (right - left + 1))") auto

declare len_search.simps [simp del]

definition fits_in_memory ::
  "(vllm_config \<Rightarrow> int res) \<Rightarrow> int \<Rightarrow> int \<Rightarrow> vllm_config \<Rightarrow> bool res \<times> vllm_config" where
  "fits_in_memory need available n cfg =
     (let cfg' = cfg\<lparr>max_model_len := n\<rparr>
      in (bindE (need cfg') (\<lambda>needed. Ok (needed \<le> available)), cfg'))"

text \<open>The body of the \<open>try\<close> statement and the \<open>finally\<close> clause that restores the length.\<close>

definition search_and_restore ::
  "(vllm_config \<Rightarrow> int res) \<Rightarrow> int \<Rightarrow> vllm_config \<Rightarrow> int res \<times> vllm_config" where
  "search_and_restore need available cfg =
     (let original = max_model_len cfg;
          (ok, cfg1) = fits_in_memory need available 1 cfg;
          (r, cfg2) = (case ok of
                         Inl e \<Rightarrow> (Err e, cfg1)
                       | Inr False \<Rightarrow> (Ok 0, cfg1)
                       | Inr True \<Rightarrow> len_search (fits_in_memory need available) 1 original 1 cfg1)
      in (r, cfg2\<lparr>max_model_len := original\<rparr>))"

definition estimate_max_model_len ::
  "'l spec_env \<Rightarrow> (string, 'l) dict \<Rightarrow> int \<Rightarrow> vllm_config \<Rightarrow> int res \<times> vllm_config" where
  "estimate_max_model_len E specs available cfg =
     search_and_restore (\<lambda>c. Ok (max_memory_usage_bytes E (map (Layer \<circ> snd) specs) c)) available cfg"

subsection \<open>The block sizes divide as the hasher and the scheduler need\<close>

text \<open>When block hashes are finer than the scheduler's blocks.\<close>

definition fine_hashing :: "'l spec_env \<Rightarrow> 'l kv_group list \<Rightarrow> vllm_config \<Rightarrow> bool" where
  "fine_hashing E groups cfg \<longleftrightarrow>
     length groups > 1 \<and> (enable_prefix_caching cfg \<or> has_kv_transfer_config cfg) \<and>
     (\<forall>s \<in> set (layer_specs_of E groups). isinstance E s MambaSpec \<longrightarrow> mamba_cache_mode E s = ''align'')"

definition group_sizes :: "'l spec_env \<Rightarrow> 'l kv_group list \<Rightarrow> vllm_config \<Rightarrow> int list" where
  "group_sizes E groups cfg =
     map (\<lambda>g. resolve_dcp_kv_block_size E (kv_cache_spec g) (decode_context_parallel_size cfg)) groups"

definition hit_alignment :: "'l spec_env \<Rightarrow> 'l kv_group list \<Rightarrow> vllm_config \<Rightarrow> int \<Rightarrow> int \<Rightarrow> int" where
  "hit_alignment E groups cfg S H =
     (if has_partial_mamba_group E (decode_context_parallel_size cfg) H groups (group_sizes E groups cfg)
      then H else S)"

lemma length_group_sizes [simp]: "length (group_sizes E groups cfg) = length groups"
  by (simp add: group_sizes_def)

lemma set_hashing_sizes: "length sizes = length groups \<Longrightarrow> set (hashing_sizes E groups sizes) \<subseteq> set sizes"
  by (auto simp: hashing_sizes_def Let_def dest: set_zip_rightD)

lemma hashing_sizes_ne: "sizes \<noteq> [] \<Longrightarrow> hashing_sizes E groups sizes \<noteq> []"
  by (simp add: hashing_sizes_def Let_def)

lemma hashing_size_of_group:
  assumes "g \<in> set groups" and "prefix_cacheable E (kv_cache_spec g)"
  shows "resolve_dcp_kv_block_size E (kv_cache_spec g) (decode_context_parallel_size cfg)
           \<in> set (hashing_sizes E groups (group_sizes E groups cfg))" (is "?b \<in> _")
proof -
  have "(g, ?b) \<in> set (zip groups (group_sizes E groups cfg))"
    using assms(1) by (simp add: group_sizes_def zip_map2 zip_same_conv_map image_iff)
  then have "(g, ?b) \<in> set (filter (\<lambda>(g, b). prefix_cacheable E (kv_cache_spec g)) (zip groups (group_sizes E groups cfg)))"
    using assms(2) by simp
  then have "?b \<in> set (map snd (filter (\<lambda>(g, b). prefix_cacheable E (kv_cache_spec g))
                                  (zip groups (group_sizes E groups cfg))))"
    unfolding set_map by (rule rev_image_eqI) simp
  then show ?thesis unfolding hashing_sizes_def Let_def
    by (cases "filter (\<lambda>(g, b). prefix_cacheable E (kv_cache_spec g)) (zip groups (group_sizes E groups cfg))") simp_all
qed

lemma resolve_fine:
  assumes "fine_hashing E groups cfg"
  shows "resolve_kv_cache_block_sizes E groups cfg =
     (let S = math_lcm (group_sizes E groups cfg);
          hs = hashing_sizes E groups (group_sizes E groups cfg);
          H = or_default (math_gcd hs) (prefix_match_unit cfg)
      in if H = 0 then Err ZeroDivisionError
         else if \<exists>b \<in> set hs. \<not> H dvd b then Err ValueError
         else if \<exists>a \<in> set (prefix_alignments E groups). \<not> a dvd hit_alignment E groups cfg S H then Err ValueError
         else Ok (S, H))"
proof -
  have "(length groups \<le> 1) = False" "(enable_prefix_caching cfg \<or> has_kv_transfer_config cfg) = True"
    "(\<exists>s \<in> set (layer_specs_of E groups). isinstance E s MambaSpec \<and> mamba_cache_mode E s \<noteq> ''align'') = False"
    using assms by (auto simp: fine_hashing_def)
  then show ?thesis
    by (simp only: resolve_kv_cache_block_sizes_def Let_def group_sizes_def hit_alignment_def dvd_eq_mod_eq_0
        if_False not_True_eq_False)
qed

lemma resolve_coarse:
  assumes "\<not> fine_hashing E groups cfg" and "length groups > 1"
  shows "resolve_kv_cache_block_sizes E groups cfg =
     Ok (math_lcm (group_sizes E groups cfg), math_lcm (group_sizes E groups cfg))"
  using assms unfolding resolve_kv_cache_block_sizes_def fine_hashing_def
  by (auto simp: Let_def group_sizes_def)


subsection \<open>The search returns the longest length that fits\<close>

text \<open>What the search needs of the memory function: below the configured length it returns, and a longer
  context never needs less.\<close>

definition grows_with_len :: "(vllm_config \<Rightarrow> int res) \<Rightarrow> (int \<Rightarrow> int) \<Rightarrow> vllm_config \<Rightarrow> bool" where
  "grows_with_len need amount cfg \<longleftrightarrow>
     (\<forall>n \<in> {1..max_model_len cfg}. need (cfg\<lparr>max_model_len := n\<rparr>) = Ok (amount n)) \<and>
     (\<forall>b \<in> {1..max_model_len cfg}. \<forall>a \<in> {1..b}. amount a \<le> amount b)"

definition longest_fit :: "(int \<Rightarrow> int) \<Rightarrow> int \<Rightarrow> int \<Rightarrow> int \<Rightarrow> bool" where
  "longest_fit amount available limit n \<longleftrightarrow>
     1 \<le> n \<and> n \<le> limit \<and> amount n \<le> available \<and> (\<forall>k \<in> {n<..limit}. available < amount k)"

lemma fits_in_memory_at:
  "need (cfg\<lparr>max_model_len := n\<rparr>) = Ok v \<Longrightarrow>
   fits_in_memory need m n (cfg\<lparr>max_model_len := k\<rparr>) = (Ok (v \<le> m), cfg\<lparr>max_model_len := n\<rparr>)"
  by (simp add: fits_in_memory_def Let_def)

text \<open>The loop invariant: \<open>result\<close> fits and lies just below the interval, everything above it does not fit.\<close>

lemma len_search_longest:
  assumes "\<forall>n \<in> {1..limit}. need (cfg\<lparr>max_model_len := n\<rparr>) = Ok (amount n)"
    and "\<forall>b \<in> {1..limit}. \<forall>a \<in> {1..b}. amount a \<le> amount b"
    and "1 \<le> left" "left \<le> right + 1" "right \<le> limit" "1 \<le> result" "result \<le> limit"
    and "left = result + 1 \<or> left = result" "amount result \<le> m" "\<forall>k \<in> {right<..limit}. m < amount k"
  shows "\<exists>n k. len_search (fits_in_memory need m) left right result (cfg\<lparr>max_model_len := j\<rparr>)
                 = (Ok n, cfg\<lparr>max_model_len := k\<rparr>) \<and> longest_fit amount m limit n"
  using assms(3-)
proof (induction "nat (right - left + 1)" arbitrary: left right result j rule: less_induct)
  case less
  show ?case
  proof (cases "left \<le> right")
    case False
    then have "longest_fit amount m limit result"
      using less.prems by (auto simp: longest_fit_def)
    then show ?thesis using False by (subst len_search.simps) auto
  next
    case True
    let ?mid = "(left + right) div 2"
    have mid: "left \<le> ?mid" "?mid \<le> right" using True by auto
    have fits: "fits_in_memory need m ?mid (cfg\<lparr>max_model_len := j\<rparr>)
                  = (Ok (amount ?mid \<le> m), cfg\<lparr>max_model_len := ?mid\<rparr>)"
      using assms(1) mid less.prems(1,3) by (intro fits_in_memory_at) auto
    show ?thesis
    proof (cases "amount ?mid \<le> m")
      case fit: True
      then show ?thesis
        using less.hyps [of right "?mid + 1" ?mid ?mid] mid less.prems True fits
        by (subst len_search.simps) auto
    next
      case nofit: False
      have "m < amount k" if "k \<in> {?mid - 1<..limit}" for k
        using that nofit assms(2) mid less.prems(1) by (smt (verit, best) atLeastAtMost_iff greaterThanAtMost_iff)
      then show ?thesis
        using less.hyps [of "?mid - 1" left result ?mid] mid less.prems True fits nofit
        by (subst len_search.simps) auto
    qed
  qed
qed

lemma search_and_restore_none:
  assumes "need (cfg\<lparr>max_model_len := 1\<rparr>) = Ok v" "m < v"
  shows "search_and_restore need m cfg = (Ok 0, cfg)"
  using assms fits_in_memory_at [of need 1 cfg v m "max_model_len cfg"]
  by (simp add: search_and_restore_def Let_def)

lemma search_and_restore_longest:
  assumes "grows_with_len need amount cfg" "1 \<le> max_model_len cfg" "amount 1 \<le> m"
  shows "\<exists>n. search_and_restore need m cfg = (Ok n, cfg) \<and> longest_fit amount m (max_model_len cfg) n"
proof -
  let ?M = "max_model_len cfg"
  have 1: "fits_in_memory need m 1 cfg = (Ok True, cfg\<lparr>max_model_len := 1\<rparr>)"
    using assms fits_in_memory_at [of need 1 cfg "amount 1" m ?M] by (simp add: grows_with_len_def)
  obtain n k where "len_search (fits_in_memory need m) 1 ?M 1 (cfg\<lparr>max_model_len := 1\<rparr>)
                      = (Ok n, cfg\<lparr>max_model_len := k\<rparr>)" "longest_fit amount m ?M n"
    using len_search_longest [of ?M need cfg amount 1 ?M 1 m 1] assms by (auto simp: grows_with_len_def)
  then show ?thesis using 1 by (simp add: search_and_restore_def Let_def)
qed

text \<open>The interface between the memory check and the two estimates: the configuration is restored even
  when the memory function raises, zero stands for nothing fits, and otherwise the estimate is the
  longest length that fits.\<close>

locale len_estimator =
  fixes need :: "'c \<Rightarrow> vllm_config \<Rightarrow> int res"
    and estimate :: "'c \<Rightarrow> int \<Rightarrow> vllm_config \<Rightarrow> int res \<times> vllm_config"
  assumes restores: "snd (estimate c m cfg) = cfg"
    and none_fits: "need c (cfg\<lparr>max_model_len := 1\<rparr>) = Ok v \<Longrightarrow> m < v \<Longrightarrow> fst (estimate c m cfg) = Ok 0"
    and longest: "grows_with_len (need c) amount cfg \<Longrightarrow> 1 \<le> max_model_len cfg \<Longrightarrow> amount 1 \<le> m \<Longrightarrow>
                    \<exists>n. fst (estimate c m cfg) = Ok n \<and> longest_fit amount m (max_model_len cfg) n"
begin

lemma check_keeps_config: "snd (check_enough_memory m (need c) (estimate c) cfg) = cfg"
  using restores [of c m cfg] by (auto simp: check_enough_memory_def split: sum.split prod.split)

lemma check_enough_iff:
  "fst (check_enough_memory m (need c) (estimate c) cfg) = Ok Enough \<longleftrightarrow>
     0 < m \<and> (\<exists>v. need c cfg = Ok v \<and> v \<le> m)"
  by (auto simp: check_enough_memory_def bindE_def split: sum.split prod.split)

lemma check_total:
  assumes "grows_with_len (need c) amount cfg" "1 \<le> max_model_len cfg"
  shows "\<exists>v. fst (check_enough_memory m (need c) (estimate c) cfg) = Ok v"
proof (cases "amount 1 \<le> m")
  case True
  obtain n where "fst (estimate c m cfg) = Ok n" using longest [OF assms True] by blast
  moreover have "need c cfg = Ok (amount (max_model_len cfg))"
    using assms by (force simp: grows_with_len_def)
  ultimately show ?thesis by (auto simp: check_enough_memory_def split: prod.split)
next
  case False
  have "need c (cfg\<lparr>max_model_len := 1\<rparr>) = Ok (amount 1)" "need c cfg = Ok (amount (max_model_len cfg))"
    using assms by (force simp: grows_with_len_def)+
  then show ?thesis using none_fits [of c cfg "amount 1" m] False
    by (auto simp: check_enough_memory_def split: prod.split)
qed

text \<open>A length printed by a failed check is one with which the check would pass.\<close>

lemma reported_length_passes:
  assumes "grows_with_len (need c) amount cfg" "1 \<le> max_model_len cfg"
    and "fst (check_enough_memory m (need c) (estimate c) cfg) = Ok (TooLong len needed avail (Some n))"
  shows "1 \<le> n \<and> n < len \<and> fst (check_enough_memory m (need c) (estimate c) (cfg\<lparr>max_model_len := n\<rparr>)) = Ok Enough"
proof -
  have top: "need c cfg = Ok (amount (max_model_len cfg))" using assms(1,2) by (force simp: grows_with_len_def)
  have m: "0 < m" "m < amount (max_model_len cfg)" and len: "len = max_model_len cfg"
    and est: "fst (estimate c m cfg) = Ok n" "0 < n"
    using assms(3) top
    by (auto simp: check_enough_memory_def bindE_def split: if_splits sum.splits prod.splits)
  have one: "need c (cfg\<lparr>max_model_len := 1\<rparr>) = Ok (amount 1)" using assms(1,2) by (force simp: grows_with_len_def)
  have "amount 1 \<le> m"
  proof (rule ccontr)
    assume "\<not> amount 1 \<le> m"
    then show False using none_fits [OF one, of m] est by simp
  qed
  then have fit: "longest_fit amount m (max_model_len cfg) n" using longest [OF assms(1,2)] est by fastforce
  then have "need c (cfg\<lparr>max_model_len := n\<rparr>) = Ok (amount n)"
    using assms(1) by (auto simp: grows_with_len_def longest_fit_def)
  moreover have "n < max_model_len cfg"
    using fit m(2) unfolding longest_fit_def by (metis order_le_less not_le)
  ultimately show ?thesis using fit m(1) by (simp add: check_enough_iff len longest_fit_def)
qed

end

lemma len_search_config:
  "\<exists>k. snd (len_search (fits_in_memory need m) left right result (cfg\<lparr>max_model_len := j\<rparr>)) = cfg\<lparr>max_model_len := k\<rparr>"
proof (induction "nat (right - left + 1)" arbitrary: left right result j rule: less_induct)
  case less
  let ?mid = "(left + right) div 2"
  have fits: "fits_in_memory need m ?mid (cfg\<lparr>max_model_len := j\<rparr>) =
      (bindE (need (cfg\<lparr>max_model_len := ?mid\<rparr>)) (\<lambda>needed. Ok (needed \<le> m)), cfg\<lparr>max_model_len := ?mid\<rparr>)"
    by (simp add: fits_in_memory_def Let_def)
  show ?case
  proof (cases "left \<le> right")
    case True
    then show ?thesis
      using less [of right "?mid + 1" ?mid ?mid] less [of "?mid - 1" left result ?mid] fits
      by (subst len_search.simps) (auto simp: Let_def split: sum.split bool.split)
  qed (subst len_search.simps, auto)
qed

lemma search_and_restore_config: "snd (search_and_restore need m cfg) = cfg"
proof -
  obtain k where "snd (len_search (fits_in_memory need m) 1 (max_model_len cfg) 1 (cfg\<lparr>max_model_len := 1\<rparr>))
                    = cfg\<lparr>max_model_len := k\<rparr>"
    using len_search_config [of need m 1 "max_model_len cfg" 1 1 cfg] by blast
  then show ?thesis
    by (auto simp: search_and_restore_def Let_def fits_in_memory_def split: sum.split bool.split prod.split)
qed

text \<open>Every estimate that runs the search on its own memory function is an estimator.\<close>

lemma search_is_estimator: "len_estimator need (\<lambda>c. search_and_restore (need c))"
proof
  fix c cfg v m
  assume "need c (cfg\<lparr>max_model_len := 1\<rparr>) = Ok v" "m < v"
  then show "fst (search_and_restore (need c) m cfg) = Ok 0" by (simp add: search_and_restore_none)
next
  fix c amount cfg m
  assume "grows_with_len (need c) amount cfg" "1 \<le> max_model_len cfg" "amount 1 \<le> m"
  from search_and_restore_longest [OF this]
  show "\<exists>n. fst (search_and_restore (need c) m cfg) = Ok n \<and> longest_fit amount m (max_model_len cfg) n" by force
qed (simp add: search_and_restore_config)

definition spec_need :: "'l spec_env \<times> (string, 'l) dict \<Rightarrow> vllm_config \<Rightarrow> int res" where
  "spec_need c cfg = Ok (max_memory_usage_bytes (fst c) (map (Layer \<circ> snd) (snd c)) cfg)"

lemma estimate_searches: "estimate_max_model_len (fst c) (snd c) = search_and_restore (spec_need c)"
  unfolding estimate_max_model_len_def [abs_def] spec_need_def [abs_def] by (rule refl)

interpretation spec_est: len_estimator spec_need "\<lambda>c. estimate_max_model_len (fst c) (snd c)"
  unfolding estimate_searches by (rule search_is_estimator)

subsection \<open>A concrete environment\<close>

record demo_layer =
  demo_class :: spec_class
  demo_token_bytes :: int
  demo_block :: int
  demo_pad :: "int option"
  demo_state :: int

definition demo_page :: "demo_layer \<Rightarrow> int" where
  "demo_page l = or_default (demo_token_bytes l * demo_block l) (demo_pad l)"

definition demo_blocks :: "vllm_config \<Rightarrow> demo_layer \<Rightarrow> int" where
  "demo_blocks cfg l = (max_model_len cfg + demo_block l - 1) div demo_block l"

definition demo_mro :: "demo_layer \<Rightarrow> spec_class list" where
  "demo_mro l =
     (case demo_class l of
        MLAAttentionSpec \<Rightarrow> [MLAAttentionSpec, FullAttentionSpec, AttentionSpec]
      | SlidingWindowSpec \<Rightarrow> [SlidingWindowSpec, AttentionSpec]
      | FullAttentionSpec \<Rightarrow> [FullAttentionSpec, AttentionSpec]
      | c \<Rightarrow> [c])"

definition demo_uniform :: "(string, demo_layer) dict \<Rightarrow> bool" where
  "demo_uniform d = (case d of [] \<Rightarrow> False
     | (_, l) # r \<Rightarrow> list_all (\<lambda>(_, l'). demo_class l' = demo_class l \<and> demo_block l' = demo_block l) r)"

definition demo_spec_env :: "demo_layer spec_env" where
  "demo_spec_env = \<lparr>
     mro = demo_mro,
     page_size_bytes = (\<lambda>s. case s of Layer l \<Rightarrow> demo_page l
                          | UniformTypeKVCacheSpecs b d \<Rightarrow> sum_list (map (demo_page \<circ> snd) d)),
     real_page_size_bytes = (\<lambda>l. demo_token_bytes l * demo_block l),
     unpadded_page_size_bytes = (\<lambda>l. demo_token_bytes l * demo_block l),
     page_size_padded = demo_pad,
     spec_block_size = demo_block,
     tokens_per_state = (\<lambda>l. Some (demo_state l)),
     prefix_cacheable = (\<lambda>s. True),
     mamba_cache_mode = (\<lambda>l. ''align''),
     non_causal_multi_token_decode = (\<lambda>l. False),
     hidden_bytes_per_token = demo_token_bytes,
     iter_layer_specs = (\<lambda>s. case s of Layer l \<Rightarrow> [l] | UniformTypeKVCacheSpecs b d \<Rightarrow> map snd d),
     spec_max_memory_usage_bytes = (\<lambda>cfg s. case s of Layer l \<Rightarrow> demo_blocks cfg l * demo_page l
                          | UniformTypeKVCacheSpecs b d \<Rightarrow> sum_list (map (\<lambda>(_, l). demo_blocks cfg l * demo_page l) d)),
     max_memory_usage_pages = (\<lambda>cfg s. case s of Layer l \<Rightarrow> demo_blocks cfg l
                          | UniformTypeKVCacheSpecs b d \<Rightarrow> (max_model_len cfg + b - 1) div b),
     max_layers_per_page_size = (\<lambda>d. foldr max (map (\<lambda>(_, l). int (length (filter (\<lambda>(_, l'). demo_page l' = demo_page l) d))) d) 0),
     merge_specs = (\<lambda>ls. case ls of [] \<Rightarrow> Err IndexError
                          | l # r \<Rightarrow> if list_all (\<lambda>l'. l' = l) r then Ok l else Err AssertionError),
     is_uniform_type = demo_uniform,
     from_specs = (\<lambda>d. if demo_uniform d then Some (demo_block (snd (hd d)), d) else None),
     replace_page_size_padded = (\<lambda>p l. l\<lparr>demo_pad := Some p\<rparr>),
     replace_block_size = (\<lambda>b l. l\<lparr>demo_block := b\<rparr>),
     replace_extra_retained_tokens = (\<lambda>n l. l),
     replace_as = (\<lambda>c b p l. l\<lparr>demo_class := c, demo_block := b, demo_pad := p\<rparr>),
     check_kv_cache_spec_registry = (\<lambda>d. Ok ()),
     compute_layout_strides = (\<lambda>l nb n layout fixed. case fixed of Some S \<Rightarrow> (demo_page l, S)
                          | None \<Rightarrow> (demo_page l * nb, demo_page l)),
     cdiv = (\<lambda>a b. (a + b - 1) div b),
     get_pp_indices = (\<lambda>n r w. (int r * n div int w, (int r + 1) * n div int w)),
     extract_layer_index = (\<lambda>s. int (length s))\<rparr>"

definition demo_config :: vllm_config where
  "demo_config = \<lparr>
     max_model_len = 64, original_max_model_len = 64, total_num_hidden_layers = 4, model_type = ''deepseek_v41'',
     block_size = 4, enable_prefix_caching = True, prefix_match_unit = None, num_gpu_blocks_override = None,
     prefix_cache_retention_interval = None,
     resolved_kv_cache_layout = \<lparr>is_block_outermost = True, is_block_compact = True, is_layer_compact = False\<rparr>,
     decode_context_parallel_size = 1, pipeline_parallel_size = 2, has_kv_transfer_config = False,
     disable_hybrid_kv_cache_manager = False, speculative_config = None\<rparr>"

definition demo_layer_of :: "spec_class \<Rightarrow> int \<Rightarrow> int \<Rightarrow> demo_layer" where
  "demo_layer_of c bytes bs =
     \<lparr>demo_class = c, demo_token_bytes = bytes, demo_block = bs, demo_pad = None, demo_state = 1\<rparr>"


text \<open>C22: \<open>estimate_max_model_len\<close> always returns and leaves the configuration as it was, although it tries
  lengths by writing them into it.  When the memory of the specs does not shrink with the length, the
  result is 0 exactly if not even one token fits, and otherwise the largest length up to the configured
  one that fits in the available memory.\<close>

theorem estimate_is_longest:
  assumes "1 \<le> max_model_len cfg"
    and "\<forall>b \<in> {1..max_model_len cfg}. \<forall>a \<in> {1..b}.
           max_memory_usage_bytes E (map (Layer \<circ> snd) specs) (cfg\<lparr>max_model_len := a\<rparr>)
             \<le> max_memory_usage_bytes E (map (Layer \<circ> snd) specs) (cfg\<lparr>max_model_len := b\<rparr>)"
  shows "\<exists>n. estimate_max_model_len E specs available cfg = (Ok n, cfg) \<and>
           (if available < max_memory_usage_bytes E (map (Layer \<circ> snd) specs) (cfg\<lparr>max_model_len := 1\<rparr>) then n = 0
            else longest_fit (\<lambda>k. max_memory_usage_bytes E (map (Layer \<circ> snd) specs) (cfg\<lparr>max_model_len := k\<rparr>))
                   available (max_model_len cfg) n)"
proof -
  let ?use = "\<lambda>k. max_memory_usage_bytes E (map (Layer \<circ> snd) specs) (cfg\<lparr>max_model_len := k\<rparr>)"
  have grows: "grows_with_len (spec_need (E, specs)) ?use cfg"
    using assms(2) by (simp add: grows_with_len_def spec_need_def)
  have "\<exists>n. fst (estimate_max_model_len E specs available cfg) = Ok n \<and>
          (if available < ?use 1 then n = 0 else longest_fit ?use available (max_model_len cfg) n)"
    using spec_est.none_fits [of "(E, specs)" cfg "?use 1" available]
      spec_est.longest [OF grows assms(1), of available]
    by (cases "available < ?use 1") (auto simp: spec_need_def)
  then show ?thesis
    using spec_est.restores [of "(E, specs)" available cfg] by (auto simp: prod_eq_iff)
qed

theorem estimate_is_longest_witness:
  "\<exists>n. estimate_max_model_len demo_spec_env [(''a'', demo_layer_of FullAttentionSpec 2 4)] 100 demo_config
         = (Ok n, demo_config) \<and> n = 48"
proof -
  let ?specs = "[(''a'', demo_layer_of FullAttentionSpec 2 4)]"
  have "1 \<le> max_model_len demo_config" by code_simp
  moreover have "\<forall>b \<in> {1..max_model_len demo_config}. \<forall>a \<in> {1..b}.
           max_memory_usage_bytes demo_spec_env (map (Layer \<circ> snd) ?specs) (demo_config\<lparr>max_model_len := a\<rparr>)
             \<le> max_memory_usage_bytes demo_spec_env (map (Layer \<circ> snd) ?specs) (demo_config\<lparr>max_model_len := b\<rparr>)"
    by (auto simp: max_memory_usage_bytes_def demo_spec_env_def demo_blocks_def demo_page_def demo_layer_of_def zdiv_mono1)
  ultimately obtain n where "estimate_max_model_len demo_spec_env ?specs 100 demo_config = (Ok n, demo_config)"
    using estimate_is_longest [of demo_config demo_spec_env ?specs 100] by blast
  moreover have "fst (estimate_max_model_len demo_spec_env ?specs 100 demo_config) = Ok 48" by code_simp
  ultimately show ?thesis by simp
qed

end
