(* ===== verification/KV_Groups.thy ===== *)
theory KV_Groups
  imports KV_Spec "HOL-Library.Multiset"
begin

text \<open>
  How the layers of a model are split into KV cache groups (\<open>v1/core/kv_cache_utils.py\<close>,
  \<open>get_kv_cache_groups\<close> and what it calls): uniform models, the Mamba/MLA layout, packing of mixed page
  sizes, unification of page sizes, promotion of local attention, hidden-state layers and the marking of
  draft groups.  The main result is that the groups partition the layers.
\<close>

subsection \<open>Dictionaries of layers\<close>

definition dict_item :: "('k, 'v) dict \<Rightarrow> 'k \<Rightarrow> 'v res" where
  "dict_item d k = (case dict_get d k of None \<Rightarrow> Err KeyError | Some v \<Rightarrow> Ok v)"

text \<open>\<^verbatim>\<open>d[k].append(v)\<close> on a \<^verbatim>\<open>defaultdict(list)\<close>.\<close>

fun dict_append :: "'k \<Rightarrow> 'v \<Rightarrow> ('k, 'v list) dict \<Rightarrow> ('k, 'v list) dict" where
  "dict_append k v [] = [(k, [v])]"
| "dict_append k v ((k', vs) # d) = (if k = k' then (k', vs @ [v]) # d else (k', vs) # dict_append k v d)"

text \<open>\<^verbatim>\<open>xs[i::n]\<close> and \<^verbatim>\<open>list(zip(*xss))\<close>.\<close>

definition stride_slice :: "nat \<Rightarrow> nat \<Rightarrow> 'a list \<Rightarrow> 'a list" where
  "stride_slice i n xs = map (nth xs) (filter (\<lambda>j. i \<le> j \<and> (j - i) mod n = 0) [0..<length xs])"

definition py_zip :: "'a list list \<Rightarrow> 'a list list" where
  "py_zip xss = (case xss of [] \<Rightarrow> [] | xs # r \<Rightarrow>
     map (\<lambda>j. map (\<lambda>ys. ys ! j) xss) [0..<foldr (min \<circ> length) r (length xs)])"

text \<open>\<^verbatim>\<open>max(xs, default=0)\<close>.\<close>

definition max_default :: "int list \<Rightarrow> int" where
  "max_default xs = (case xs of [] \<Rightarrow> 0 | x # r \<Rightarrow> foldr max r x)"

abbreviation layer_page :: "'l spec_env \<Rightarrow> 'l \<Rightarrow> int" where
  "layer_page E s \<equiv> page_size_bytes E (Layer s)"

subsection \<open>Groups of uniform models\<close>

definition create_one_group :: "'l spec_env \<Rightarrow> (string, 'l) dict \<Rightarrow> string list \<Rightarrow> 'l kv_group res" where
  "create_one_group E d names =
     bindE (mapE (dict_item d) names) (\<lambda>specs.
       if specs = [] then Err IndexError
       else bindE (merge_specs E specs) (\<lambda>merged. Ok (new_group names (Layer merged))))"

definition create_kv_cache_group_specs ::
  "'l spec_env \<Rightarrow> (string, 'l) dict \<Rightarrow> string list list \<Rightarrow> 'l kv_group list res" where
  "create_kv_cache_group_specs E d grouped_layer_names = mapE (create_one_group E d) grouped_layer_names"

definition is_kv_cache_spec_uniform :: "'l spec_env \<Rightarrow> (string, 'l) dict \<Rightarrow> bool res" where
  "is_kv_cache_spec_uniform E d =
     (if d = [] then Ok True
      else case merge_specs E (map snd d) of
             Inr _ \<Rightarrow> Ok True
           | Inl e \<Rightarrow> if e = AssertionError then Ok False else Err e)"

definition get_uniform_page_size :: "'l spec_env \<Rightarrow> 'l kv_spec list \<Rightarrow> int res" where
  "get_uniform_page_size E specs =
     (let pages = first_occurrences (map (page_size_bytes E) specs)
      in bindE (assertE (length pages = 1)) (\<lambda>_. Ok (hd pages)))"

definition get_kv_cache_groups_uniform_spec :: "'l spec_env \<Rightarrow> (string, 'l) dict \<Rightarrow> 'l kv_group list res" where
  "get_kv_cache_groups_uniform_spec E d = create_kv_cache_group_specs E d [dict_keys d]"

definition get_kv_cache_groups_uniform_type :: "int \<times> (string, 'l) dict \<Rightarrow> 'l kv_group list" where
  "get_kv_cache_groups_uniform_type spec =
     (case spec of (b, d) \<Rightarrow> [new_group (dict_keys d) (UniformTypeKVCacheSpecs b d)])"

subsection \<open>Mamba layers next to MLA layers\<close>

fun pp_groups_loop ::
  "'l spec_env \<Rightarrow> int \<Rightarrow> nat \<Rightarrow> int list \<Rightarrow> int list \<Rightarrow> nat list \<Rightarrow> int \<Rightarrow> int option" where
  "pp_groups_loop E total_layers pp mamba mla [] num_groups = Some num_groups"
| "pp_groups_loop E total_layers pp mamba mla (rank # ranks) num_groups =
     (let (start, stop) = get_pp_indices E total_layers rank pp;
          num_mamba = length (filter (\<lambda>i. start \<le> i \<and> i < stop) mamba);
          num_mla = length (filter (\<lambda>i. start \<le> i \<and> i < stop) mla)
      in if num_mamba = 0 then pp_groups_loop E total_layers pp mamba mla ranks num_groups
         else if num_mla = 0 then None
         else pp_groups_loop E total_layers pp mamba mla ranks (max num_groups (cdiv E (int num_mamba) (int num_mla))))"

definition pp_balanced_mamba_group_count ::
  "'l spec_env \<Rightarrow> vllm_config \<Rightarrow> string list \<Rightarrow> string list \<Rightarrow> int option" where
  "pp_balanced_mamba_group_count E cfg mamba_names mla_names =
     (let num_groups = cdiv E (int (length mamba_names)) (int (length mla_names));
          pp = pipeline_parallel_size cfg
      in if pp = 1 then Some num_groups
         else pp_groups_loop E (total_num_hidden_layers cfg) pp
                (map (extract_layer_index E) mamba_names) (map (extract_layer_index E) mla_names) [0..<pp] num_groups)"

text \<open>\<open>tokens_per_state > 1\<close> of an MLA spec, where the attribute is an integer.\<close>

definition compressed :: "'l spec_env \<Rightarrow> 'l \<Rightarrow> bool" where
  "compressed E s = (case tokens_per_state E s of Some t \<Rightarrow> t > 1 | None \<Rightarrow> False)"

definition glm5_tail_group :: "'l spec_env \<Rightarrow> (string, 'l) dict \<Rightarrow> int \<Rightarrow> 'l kv_group list res" where
  "glm5_tail_group E tail idx_page =
     (if tail = [] then Ok []
      else let padded = map (\<lambda>(n, s). (n, replace_page_size_padded E idx_page s)) tail
           in case from_specs E padded of
                None \<Rightarrow> Err AssertionError
              | Some (b, u) \<Rightarrow> Ok [new_group (dict_keys padded) (UniformTypeKVCacheSpecs b u)])"

text \<open>Dealing the layers out in turn, \<^verbatim>\<open>grouped[index % num_groups].append(name)\<close>.\<close>

definition deal_step :: "nat \<Rightarrow> nat \<times> 'a \<Rightarrow> 'a list list \<Rightarrow> 'a list list" where
  "deal_step n x gs = gs[fst x mod n := gs ! (fst x mod n) @ [snd x]]"

definition deal :: "nat \<Rightarrow> 'a list \<Rightarrow> 'a list list" where
  "deal n xs = fold (deal_step n) (enumerate 0 xs) (replicate n [])"

definition glm5_mamba_groups ::
  "'l spec_env \<Rightarrow> vllm_config \<Rightarrow> (string, 'l) dict \<Rightarrow> string list \<Rightarrow> int \<Rightarrow> 'l kv_group list res" where
  "glm5_mamba_groups E cfg mamba mla_names mla_page =
     (let any_mamba = snd (hd mamba)
      in bindE (assertE (list_all (\<lambda>(_, s). s = any_mamba) mamba)) (\<lambda>_.
           if real_page_size_bytes E any_mamba > mla_page then Err ValueError
           else
             let padded = map (\<lambda>(n, _). (n, replace_page_size_padded E mla_page any_mamba)) mamba
             in case pp_balanced_mamba_group_count E cfg (dict_keys mamba) mla_names of
                  None \<Rightarrow> Err ValueError
                | Some num_groups \<Rightarrow>
                    if num_groups = 0 then Err ZeroDivisionError
                    else create_kv_cache_group_specs E padded (deal (nat num_groups) (dict_keys mamba))))"

definition get_kv_cache_groups_glm5_next ::
  "'l spec_env \<Rightarrow> vllm_config \<Rightarrow> (string, 'l) dict \<Rightarrow> 'l kv_group list option res" where
  "get_kv_cache_groups_glm5_next E cfg d =
     (let mamba = filter (\<lambda>(_, s). isinstance E s MambaSpec) d;
          tail = filter (\<lambda>(_, s). isinstance E s KpoolTailSpec) d;
          attn = filter (\<lambda>(_, s). \<not> (isinstance E s MambaSpec \<or> isinstance E s KpoolTailSpec)) d
      in if mamba = [] \<or> \<not> list_all (\<lambda>(_, s). type_is E s MLAAttentionSpec) attn then Ok None
         else
           let idx_pages = first_occurrences (map (layer_page E \<circ> snd) (filter (compressed E \<circ> snd) attn));
               mla = filter (\<lambda>(_, s). tokens_per_state E s = Some 1) attn;
               mla_pages = first_occurrences (map (layer_page E \<circ> snd) mla)
           in if idx_pages = [] then Ok None
              else
                bindE (assertE (list_all (\<lambda>(_, s). page_size_padded E s = None) attn)) (\<lambda>_.
                bindE (assertE (length idx_pages = 1)) (\<lambda>_.
                bindE (assertE (length mla_pages = 1)) (\<lambda>_.
                case from_specs E attn of
                  None \<Rightarrow> Err AssertionError
                | Some (b, u) \<Rightarrow>
                    bindE (glm5_tail_group E tail (hd idx_pages)) (\<lambda>tail_group.
                    bindE (glm5_mamba_groups E cfg mamba (dict_keys mla) (hd mla_pages)) (\<lambda>mamba_groups.
                    Ok (Some ([new_group (dict_keys attn) (UniformTypeKVCacheSpecs b u)]
                              @ tail_group @ mamba_groups))))))))"

subsection \<open>Unifying page sizes\<close>

definition unify_one ::
  "'l spec_env \<Rightarrow> int \<Rightarrow> string \<times> 'l \<Rightarrow> (string \<times> 'l) res" where
  "unify_one E max_page x =
     (case x of (name, spec) \<Rightarrow>
        if layer_page E spec = max_page then Ok (name, spec)
        else
          bindE (if isinstance E spec MambaSpec then Ok (replace_page_size_padded E max_page spec)
                 else if layer_page E spec = 0 then Err ZeroDivisionError
                 else if max_page mod layer_page E spec = 0
                 then Ok (replace_block_size E (spec_block_size E spec * (max_page div layer_page E spec)) spec)
                 else if isinstance E spec AttentionSpec \<and> \<not> isinstance E spec MLAAttentionSpec
                 then Ok (replace_page_size_padded E max_page spec)
                 else Err NotImplementedError) (\<lambda>new_spec.
          bindE (assertE (layer_page E new_spec = max_page)) (\<lambda>_. Ok (name, new_spec))))"

definition unify_kv_cache_spec_page_size ::
  "'l spec_env \<Rightarrow> (string, 'l) dict \<Rightarrow> (string, 'l) dict res" where
  "unify_kv_cache_spec_page_size E d =
     (let pages = first_occurrences (map (layer_page E \<circ> snd) d)
      in if length pages \<le> 1 then Ok d
         else mapE (unify_one E (foldr max pages (hd pages))) d)"

subsection \<open>Groups of one page size\<close>

fun place_layers ::
  "'l spec_env \<Rightarrow> string list \<Rightarrow> 'l \<Rightarrow> (string list \<times> 'l list) list \<Rightarrow> (string list \<times> 'l list) list res" where
  "place_layers E names spec [] = Ok [(names, [spec])]"
| "place_layers E names spec ((ns, specs) # buckets) =
     (case merge_specs E (specs @ [spec]) of
        Inr _ \<Rightarrow> Ok ((ns @ names, specs @ [spec]) # buckets)
      | Inl e \<Rightarrow> if e = AssertionError \<or> e = ValueError
                 then bindE (place_layers E names spec buckets) (\<lambda>r. Ok ((ns, specs) # r))
                 else Err e)"

definition same_type_layers :: "(string, 'l) dict \<Rightarrow> ('l, string list) dict" where
  "same_type_layers d = fold (\<lambda>(name, spec). dict_append spec name) d []"

definition layer_buckets :: "'l spec_env \<Rightarrow> (string, 'l) dict \<Rightarrow> string list list res" where
  "layer_buckets E d =
     bindE (foldE (\<lambda>(spec, names). place_layers E names spec) (same_type_layers d) []) (\<lambda>buckets.
       Ok (map fst buckets))"

text \<open>\<open>max_num_layers < min_num_layers * 1.5\<close>; the product is exact in binary floating point.\<close>

definition group_size_of :: "nat list \<Rightarrow> nat" where
  "group_size_of lens =
     (let min_num_layers = foldr min lens (hd lens);
          max_num_layers = foldr max lens (hd lens)
      in if 2 * max_num_layers < 3 * min_num_layers then max_num_layers else min_num_layers)"

definition split_layers :: "'l spec_env \<Rightarrow> nat \<Rightarrow> 'a list \<Rightarrow> 'a list list" where
  "split_layers E group_size layers =
     (let num_groups = nat (cdiv E (int (length layers)) (int group_size))
      in map (\<lambda>i. stride_slice i num_groups layers) [0..<num_groups])"

definition get_kv_cache_groups_uniform_page_size ::
  "'l spec_env \<Rightarrow> (string, 'l) dict \<Rightarrow> 'l kv_group list res" where
  "get_kv_cache_groups_uniform_page_size E d =
     bindE (layer_buckets E d) (\<lambda>buckets.
       if buckets = [] then Err ValueError
       else create_kv_cache_group_specs E d
              (concat (map (split_layers E (group_size_of (map length buckets))) buckets)))"

subsection \<open>Packing mixed page sizes into blocks\<close>

text \<open>The loop of \<open>_approximate_gcd\<close> over the candidates, with the best one so far.\<close>

fun approximate_gcd_loop :: "int list \<Rightarrow> int list \<Rightarrow> int \<Rightarrow> int option \<Rightarrow> int" where
  "approximate_gcd_loop vals [] best_d best_pad = best_d"
| "approximate_gcd_loop vals (d # ds) best_d best_pad =
     (let pad = sum_list (map (\<lambda>x. (d - x mod d) mod d) vals)
      in if (case best_pad of None \<Rightarrow> True | Some b \<Rightarrow> pad < b \<or> pad = b \<and> d > best_d)
         then approximate_gcd_loop vals ds d (Some pad)
         else approximate_gcd_loop vals ds best_d best_pad)"

definition approximate_gcd :: "int list \<Rightarrow> int option \<Rightarrow> int res" where
  "approximate_gcd vals lower_bound =
     (if vals = [] then Err ValueError
      else if \<exists>x \<in> set vals. x \<le> 0 then Err ValueError
      else
        let min_d = max 1 (or_default 1 lower_bound);
            max_d = foldr max vals (hd vals)
        in if min_d > max_d then Ok min_d
           else Ok (approximate_gcd_loop vals [min_d..max_d] min_d None))"

text \<open>The greedy buckets: a layer joins the first bucket it is of one type with.\<close>

fun join_bucket :: "'l spec_env \<Rightarrow> string \<times> 'l \<Rightarrow> (string, 'l) dict list \<Rightarrow> (string, 'l) dict list" where
  "join_bucket E x [] = [[x]]"
| "join_bucket E x (bucket # buckets) =
     (if is_uniform_type E (dict_set (fst x) (snd x) bucket)
      then dict_set (fst x) (snd x) bucket # buckets
      else bucket # join_bucket E x buckets)"

definition packed_buckets :: "'l spec_env \<Rightarrow> (string, 'l) dict \<Rightarrow> (string, 'l) dict list" where
  "packed_buckets E d = fold (join_bucket E) d []"

definition page_size_layers :: "'l spec_env \<Rightarrow> (string, 'l) dict \<Rightarrow> (int, string list) dict" where
  "page_size_layers E bucket = fold (\<lambda>(name, spec). dict_append (layer_page E spec) name) bucket []"

definition balanced_bucket :: "'l spec_env \<Rightarrow> (string, 'l) dict \<Rightarrow> bool" where
  "balanced_bucket E bucket \<longleftrightarrow>
     length (first_occurrences (map (length \<circ> snd) (page_size_layers E bucket))) = 1"

text \<open>An entry of \<open>bucketed\<close>: the uniform spec (block size and layers), its layers by page size, balanced.\<close>

type_synonym 'l packed = "(int \<times> (string, 'l) dict) \<times> (int, string list) dict \<times> bool"

definition bucket_entry :: "'l spec_env \<Rightarrow> (string, 'l) dict \<Rightarrow> 'l packed res" where
  "bucket_entry E bucket =
     (case from_specs E bucket of
        None \<Rightarrow> Err AssertionError
      | Some u \<Rightarrow> Ok (u, page_size_layers E bucket, balanced_bucket E bucket))"

definition min_repeats_per_group :: "'l spec_env \<Rightarrow> 'l packed list \<Rightarrow> int" where
  "min_repeats_per_group E bucketed =
     max_default (map (\<lambda>((b, u), _, _). max_layers_per_page_size E u)
                      (filter (\<lambda>(_, pages, balanced). balanced \<and> length pages > 1) bucketed))"

definition repeats_per_group :: "'l spec_env \<Rightarrow> 'l packed list \<Rightarrow> int option res" where
  "repeats_per_group E bucketed =
     (let floor = min_repeats_per_group E bucketed
      in if floor = 0 then Ok None
         else bindE (approximate_gcd (map (\<lambda>((b, u), _, _). max_layers_per_page_size E u)
                                          (filter (\<lambda>(_, _, balanced). balanced) bucketed)) (Some floor))
                (\<lambda>r. Ok (Some r)))"

definition num_groups_for :: "'l spec_env \<Rightarrow> int option \<Rightarrow> (string, 'l) dict \<Rightarrow> bool \<Rightarrow> int" where
  "num_groups_for E repeats u balanced =
     (case repeats of Some r \<Rightarrow> if balanced then cdiv E (max_layers_per_page_size E u) r else 1 | None \<Rightarrow> 1)"

definition widest_group_bytes :: "'l spec_env \<Rightarrow> (int, string list) dict \<Rightarrow> int \<Rightarrow> int" where
  "widest_group_bytes E pages n = sum_list (map (\<lambda>(page, names). cdiv E (int (length names)) n * page) pages)"

definition is_state_bucket :: "'l spec_env \<Rightarrow> int option \<Rightarrow> (string, 'l) dict \<Rightarrow> bool" where
  "is_state_bucket E repeats u \<longleftrightarrow>
     (let first_spec = snd (hd u)
      in isinstance E first_spec MambaSpec \<or> isinstance E first_spec CircularBufferSpec \<or>
         repeats = None \<and> isinstance E first_spec SlidingWindowSpec)"

definition anchor_bytes :: "'l spec_env \<Rightarrow> int option \<Rightarrow> 'l packed list \<Rightarrow> int" where
  "anchor_bytes E repeats bucketed =
     max_default (map (\<lambda>((b, u), pages, balanced).
                         widest_group_bytes E pages (if is_state_bucket E repeats u then int (length u)
                                                     else num_groups_for E repeats u balanced)) bucketed)"

text \<open>How many groups a bucket is split into.  A state bucket is capped at the states a block fits.\<close>

definition bucket_num_groups :: "'l spec_env \<Rightarrow> int option \<Rightarrow> int \<Rightarrow> 'l packed \<Rightarrow> int" where
  "bucket_num_groups E repeats anchor x =
     (case x of ((b, u), pages, balanced) \<Rightarrow>
        let n = num_groups_for E repeats u balanced
        in if anchor \<noteq> 0 \<and> is_state_bucket E repeats u
           then max n (cdiv E (int (length u)) (max (anchor div layer_page E (snd (hd u))) 1))
           else n)"

definition group_of_names :: "'l spec_env \<Rightarrow> (string, 'l) dict \<Rightarrow> string list \<Rightarrow> 'l kv_group res" where
  "group_of_names E u names =
     bindE (mapE (\<lambda>name. bindE (dict_item u name) (\<lambda>s. Ok (name, s))) names) (\<lambda>specs.
     case from_specs E specs of
       None \<Rightarrow> Err AssertionError
     | Some (b, u') \<Rightarrow> Ok (new_group names (UniformTypeKVCacheSpecs b u')))"

definition split_bucket :: "'l spec_env \<Rightarrow> int option \<Rightarrow> int \<Rightarrow> 'l packed \<Rightarrow> 'l kv_group list res" where
  "split_bucket E repeats anchor x =
     (case x of ((b, u), pages, balanced) \<Rightarrow>
        let num_groups = bucket_num_groups E repeats anchor x
        in if anchor \<noteq> 0 \<and> is_state_bucket E repeats u \<and> layer_page E (snd (hd u)) = 0 then Err ZeroDivisionError
           else if num_groups = 1 then Ok [new_group (dict_keys u) (UniformTypeKVCacheSpecs b u)]
           else
             let pattern_repeats = py_zip (map snd pages);
                 n = nat num_groups
             in mapE (\<lambda>i. group_of_names E u (concat (stride_slice i n pattern_repeats))) [0..<n])"

subsection \<open>Draft groups\<close>

fun flag_first :: "string \<Rightarrow> 'l kv_group list \<Rightarrow> 'l kv_group list" where
  "flag_first name [] = []"
| "flag_first name (g # gs) =
     (if name \<in> set (layer_names g) then g\<lparr>is_eagle_group := True\<rparr> # gs else g # flag_first name gs)"

definition annotate_eagle_groups ::
  "'l spec_env \<Rightarrow> vllm_config \<Rightarrow> (string, 'l) dict \<Rightarrow> bool \<Rightarrow> 'l kv_group list \<Rightarrow> 'l kv_group list" where
  "annotate_eagle_groups E cfg d use_deepseek_v4_fallback groups =
     (case speculative_config cfg of
        None \<Rightarrow> groups
      | Some sc \<Rightarrow>
          if \<not> use_eagle_block_drop sc then groups
          else
            let marked = map (\<lambda>g. if \<exists>s \<in> set (iter_layer_specs E (kv_cache_spec g)). non_causal_multi_token_decode E s
                                  then g\<lparr>is_eagle_group := True\<rparr> else g) groups
            in if use_deepseek_v4_fallback then flag_first (fst (last d)) marked else marked)"

definition is_deepseek_v4_eagle :: "vllm_config \<Rightarrow> bool" where
  "is_deepseek_v4_eagle cfg =
     (case speculative_config cfg of
        None \<Rightarrow> False
      | Some sc \<Rightarrow> use_eagle sc \<and> model_type cfg \<in> {''deepseek_v4'', ''deepseek_v41''})"

definition get_packed_kv_cache_groups ::
  "'l spec_env \<Rightarrow> vllm_config \<Rightarrow> (string, 'l) dict \<Rightarrow> 'l kv_group list option res" where
  "get_packed_kv_cache_groups E cfg d =
     (let pages = first_occurrences (map (layer_page E \<circ> snd) d)
      in if \<not> is_block_outermost (resolved_kv_cache_layout cfg) \<or> length pages \<le> 1 then Ok None
         else
           bindE (mapE (bucket_entry E) (packed_buckets E d)) (\<lambda>bucketed.
           bindE (repeats_per_group E bucketed) (\<lambda>repeats.
           bindE (mapE (split_bucket E repeats (anchor_bytes E repeats bucketed)) bucketed) (\<lambda>groups.
           Ok (Some (annotate_eagle_groups E cfg d (is_deepseek_v4_eagle cfg) (concat groups)))))))"

subsection \<open>Promotion of local attention\<close>

definition uniform_or_one_type :: "'l spec_env \<Rightarrow> (string, 'l) dict \<Rightarrow> bool res" where
  "uniform_or_one_type E d = bindE (is_kv_cache_spec_uniform E d) (\<lambda>b. Ok (b \<or> is_uniform_type E d))"

definition promotions :: "spec_class \<Rightarrow> spec_class option" where
  "promotions c =
     (case c of SlidingWindowMLASpec \<Rightarrow> Some MLAAttentionSpec
      | SlidingWindowSpec \<Rightarrow> Some FullAttentionSpec
      | ChunkedLocalAttentionSpec \<Rightarrow> Some FullAttentionSpec
      | _ \<Rightarrow> None)"

definition promotion_target :: "'l spec_env \<Rightarrow> 'l \<Rightarrow> spec_class option" where
  "promotion_target E s =
     (case filter (\<lambda>c. promotions c \<noteq> None) (mro E s) of [] \<Rightarrow> None | c # _ \<Rightarrow> promotions c)"

definition promoted_page_size_padded :: "'l spec_env \<Rightarrow> 'l \<Rightarrow> int \<Rightarrow> int option res" where
  "promoted_page_size_padded E s bs =
     (case page_size_padded E s of
        None \<Rightarrow> Ok None
      | Some p \<Rightarrow> if spec_block_size E s = 0 then Err ZeroDivisionError
                  else Ok (Some (max p (unpadded_page_size_bytes E s * bs div spec_block_size E s))))"

definition promote_one :: "'l spec_env \<Rightarrow> int option \<Rightarrow> string \<times> 'l \<Rightarrow> (string \<times> 'l) res" where
  "promote_one E full_block x =
     (case x of (name, s) \<Rightarrow>
        case promotion_target E s of
          None \<Rightarrow> Ok (name, s)
        | Some target \<Rightarrow>
            let bs = (case full_block of Some b \<Rightarrow> if b \<noteq> 0 then b else spec_block_size E s
                                       | None \<Rightarrow> spec_block_size E s)
            in bindE (assertE (isinstance E s AttentionSpec)) (\<lambda>_.
               bindE (promoted_page_size_padded E s bs) (\<lambda>p. Ok (name, replace_as E target bs p s))))"

definition promote_local_kv_cache_specs :: "'l spec_env \<Rightarrow> (string, 'l) dict \<Rightarrow> (string, 'l) dict res" where
  "promote_local_kv_cache_specs E d =
     bindE (uniform_or_one_type E d) (\<lambda>done.
     if done then Ok d
     else
       let has_class = (\<lambda>c. \<exists>(_, s) \<in> set d. isinstance E s c);
           full_sizes = first_occurrences (map (spec_block_size E \<circ> snd) (filter (\<lambda>(_, s). isinstance E s FullAttentionSpec) d));
           full_block = (if length full_sizes = 1 then Some (hd full_sizes) else None)
       in bindE (if has_class FullAttentionSpec \<and> (has_class SlidingWindowSpec \<or> has_class ChunkedLocalAttentionSpec)
                 then mapE (promote_one E full_block) d else Ok d) (\<lambda>d'.
          bindE (uniform_or_one_type E d') (\<lambda>ok. if ok then Ok d' else Err ValueError)))"

definition unify_hybrid_kv_cache_specs :: "'l spec_env \<Rightarrow> (string, 'l) dict \<Rightarrow> (string, 'l) dict res" where
  "unify_hybrid_kv_cache_specs E d =
     bindE (uniform_or_one_type E d) (\<lambda>done.
     if done then Ok d
     else bindE (promote_local_kv_cache_specs E d) (\<lambda>d'. Ok (fold (\<lambda>(n, s). dict_set n s) d' d)))"

definition full_allocation_fallback :: "'l spec_env \<Rightarrow> (string, 'l) dict \<Rightarrow> 'l kv_group list option res" where
  "full_allocation_fallback E d =
     (let has_class = (\<lambda>c. \<exists>(_, s) \<in> set d. isinstance E s c)
      in if has_class HiddenStateCacheSpec then Ok None
         else if has_class SlidingWindowMLASpec \<or> has_class ChunkedLocalAttentionSpec then Ok None
         else if \<not> (has_class MLAAttentionSpec \<and> has_class SlidingWindowSpec) then Ok None
         else case promote_local_kv_cache_specs E d of
                Inl e \<Rightarrow> if e = ValueError then Ok None else Err e
              | Inr d' \<Rightarrow> (case from_specs E d' of
                            None \<Rightarrow> Ok None
                          | Some u \<Rightarrow> Ok (Some (get_kv_cache_groups_uniform_type u))))"

subsection \<open>The groups of a model\<close>

fun divisor_loop :: "int \<Rightarrow> nat \<Rightarrow> int" where
  "divisor_loop value 0 = 1"
| "divisor_loop value (Suc c) = (if value mod int (Suc c) = 0 then int (Suc c) else divisor_loop value c)"

definition largest_divisor_at_most :: "int \<Rightarrow> int \<Rightarrow> int" where
  "largest_divisor_at_most value limit = divisor_loop value (nat (min value limit))"

definition hidden_group :: "'l spec_env \<Rightarrow> int \<Rightarrow> int \<Rightarrow> string \<times> 'l \<Rightarrow> 'l kv_group res" where
  "hidden_group E common_page group_block_size x =
     (case x of (name, spec) \<Rightarrow>
        let per_token = hidden_bytes_per_token E spec
        in if per_token = 0 then Err ZeroDivisionError
           else
             let new_bs = largest_divisor_at_most group_block_size (max (common_page div per_token) 1)
             in Ok (new_group [name]
                     (Layer (replace_page_size_padded E common_page (replace_block_size E new_bs spec)))))"

definition with_hidden_groups ::
  "'l spec_env \<Rightarrow> (string, 'l) dict \<Rightarrow> 'l kv_group list \<Rightarrow> 'l kv_group list res" where
  "with_hidden_groups E hidden groups =
     (if hidden = [] then Ok groups
      else
        bindE (get_uniform_page_size E (map kv_cache_spec groups)) (\<lambda>common_page.
        bindE (mapE (hidden_group E common_page (math_gcd (map (kv_spec_block_size E \<circ> kv_cache_spec) groups))) hidden)
          (\<lambda>hs. Ok (groups @ hs))))"

text \<open>The hybrid path, after the uniform cases and the Mamba/MLA layout have been ruled out.\<close>

definition hybrid_groups :: "'l spec_env \<Rightarrow> vllm_config \<Rightarrow> (string, 'l) dict \<Rightarrow> 'l kv_group list res" where
  "hybrid_groups E cfg d =
     (let hidden = filter (\<lambda>(_, s). isinstance E s HiddenStateCacheSpec) d;
          filtered = filter (\<lambda>(_, s). \<not> isinstance E s HiddenStateCacheSpec) d
      in bindE (get_packed_kv_cache_groups E cfg filtered) (\<lambda>packed.
         if packed \<noteq> None \<and> packed \<noteq> Some []
         then Ok (the packed @ map (\<lambda>(name, s). new_group [name] (Layer s)) hidden)
         else case unify_kv_cache_spec_page_size E filtered of
                Inl e \<Rightarrow>
                  if e = NotImplementedError
                  then bindE (full_allocation_fallback E d) (\<lambda>fallback.
                         case fallback of None \<Rightarrow> Err NotImplementedError | Some gs \<Rightarrow> Ok gs)
                  else Err e
              | Inr unified \<Rightarrow>
                  bindE (get_kv_cache_groups_uniform_page_size E unified) (\<lambda>groups.
                  bindE (with_hidden_groups E hidden groups) (\<lambda>all_groups.
                  Ok (annotate_eagle_groups E cfg d False all_groups)))))"

definition groups_of_specs :: "'l spec_env \<Rightarrow> vllm_config \<Rightarrow> (string, 'l) dict \<Rightarrow> 'l kv_group list res" where
  "groups_of_specs E cfg d =
     (if d = [] then Ok []
      else
        bindE (is_kv_cache_spec_uniform E d) (\<lambda>uniform.
        if uniform then get_kv_cache_groups_uniform_spec E d
        else case from_specs E d of
               Some u \<Rightarrow> Ok (get_kv_cache_groups_uniform_type u)
             | None \<Rightarrow>
                 bindE (get_kv_cache_groups_glm5_next E cfg d) (\<lambda>glm5.
                 if glm5 \<noteq> None \<and> glm5 \<noteq> Some [] then Ok (the glm5) else hybrid_groups E cfg d)))"

text \<open>The dictionary is updated in place when the hybrid manager is disabled; it is returned with the groups.\<close>

definition get_kv_cache_groups ::
  "'l spec_env \<Rightarrow> vllm_config \<Rightarrow> (string, 'l) dict \<Rightarrow> ((string, 'l) dict \<times> 'l kv_group list) res" where
  "get_kv_cache_groups E cfg d =
     bindE (if disable_hybrid_kv_cache_manager cfg then unify_hybrid_kv_cache_specs E d else Ok d) (\<lambda>d'.
     bindE (groups_of_specs E cfg d') (\<lambda>groups. Ok (d', groups)))"

subsection \<open>Multisets of the lists that are dealt out\<close>

lemma mset_concat_sum: "mset (concat xss) = (\<Sum>xs \<leftarrow> xss. mset xs)"
  by (induction xss) auto

lemma concat_map_concat: "concat (map concat xsss) = concat (concat xsss)"
  by (induction xsss) auto

lemma mset_concat_cong: "mset xss = mset yss \<Longrightarrow> mset (concat xss) = mset (concat yss)"
  unfolding mset_concat_sum by (metis mset_map sum_mset_sum_list)

lemma mset_concat_filter:
  fixes f :: "'a \<Rightarrow> nat"
  assumes "\<And>y. y \<in> set ys \<Longrightarrow> f y < n"
  shows "mset (concat (map (\<lambda>i. filter (\<lambda>y. f y = i) ys) [0..<n])) = mset ys"
  using assms
proof (induction ys)
  case Nil
  then show ?case by (simp add: mset_concat_sum o_def sum_list_0)
next
  case (Cons y ys)
  have "(\<Sum>i \<leftarrow> [0..<n]. if f y = i then {#y#} else {#}) = {#y#}"
    using Cons.prems by (simp add: interv_sum_list_conv_sum_set_nat)
  moreover have "(\<Sum>i \<leftarrow> [0..<n]. mset (filter (\<lambda>z. f z = i) (y # ys))) =
      (\<Sum>i \<leftarrow> [0..<n]. if f y = i then {#y#} else {#}) + (\<Sum>i \<leftarrow> [0..<n]. mset (filter (\<lambda>z. f z = i) ys))"
    by (subst sum_list_addf [symmetric]) (auto intro!: arg_cong [where f = sum_list])
  ultimately show ?case using Cons by (simp add: mset_concat_sum o_def)
qed

lemma stride_slice_filter:
  "i < n \<Longrightarrow> stride_slice i n xs = map (nth xs) (filter (\<lambda>j. j mod n = i) [0..<length xs])"
proof -
  assume i: "i < n"
  have "(i \<le> j \<and> (j - i) mod n = 0) = (j mod n = i)" for j
  proof
    assume "i \<le> j \<and> (j - i) mod n = 0"
    then have "j = (j - i) + i" "n dvd (j - i)" by auto
    then show "j mod n = i" using i by (metis dvd_imp_mod_0 mod_add_left_eq add_0 mod_less)
  next
    assume "j mod n = i"
    then show "i \<le> j \<and> (j - i) mod n = 0" using i by (metis mod_less_eq_dividend minus_mod_self2 dvd_minus_mod dvd_imp_mod_0)
  qed
  then show ?thesis by (simp add: stride_slice_def)
qed

lemma mset_stride_slices:
  assumes "0 < n"
  shows "mset (concat (map (\<lambda>i. stride_slice i n xs) [0..<n])) = mset xs"
proof -
  have "map (\<lambda>i. stride_slice i n xs) [0..<n] =
        map (map (nth xs)) (map (\<lambda>i. filter (\<lambda>j. j mod n = i) [0..<length xs]) [0..<n])"
    by (simp add: stride_slice_filter)
  then have "mset (concat (map (\<lambda>i. stride_slice i n xs) [0..<n])) =
        image_mset (nth xs) (mset (concat (map (\<lambda>i. filter (\<lambda>j. j mod n = i) [0..<length xs]) [0..<n])))"
    by (simp only: map_concat [symmetric] mset_map)
  also have "\<dots> = image_mset (nth xs) (mset [0..<length xs])"
    using assms by (subst mset_concat_filter) auto
  also have "\<dots> = mset xs" by (metis map_nth mset_map)
  finally show ?thesis .
qed

lemma mset_append_at:
  "k < length gs \<Longrightarrow> mset (concat (gs[k := gs ! k @ [x]])) = add_mset x (mset (concat gs))"
  by (induction gs arbitrary: k) (auto split: nat.split)

lemma mset_deal:
  assumes "0 < n"
  shows "mset (concat (deal n xs)) = mset xs"
proof -
  have "length (fold (deal_step n) ys gs) = n \<and> mset (concat (fold (deal_step n) ys gs)) = mset (concat gs) + mset (map snd ys)"
    if "length gs = n" for ys :: "(nat \<times> 'a) list" and gs
    using that
  proof (induction ys arbitrary: gs)
    case (Cons y ys)
    have "length (deal_step n y gs) = n" using Cons.prems by (simp add: deal_step_def)
    moreover have "mset (concat (deal_step n y gs)) = add_mset (snd y) (mset (concat gs))"
      using Cons.prems assms by (simp add: deal_step_def mset_append_at)
    ultimately show ?case using Cons.IH by simp
  qed simp
  from this [of "replicate n []" "enumerate 0 xs"] show ?thesis
    by (simp add: deal_def mset_concat_sum sum_list_replicate)
qed

lemma mset_dict_append: "mset (concat (map snd (dict_append k v d))) = add_mset v (mset (concat (map snd d)))"
  by (induction k v d rule: dict_append.induct) auto

lemma dict_append_ne: "[] \<notin> snd ` set d \<Longrightarrow> [] \<notin> snd ` set (dict_append k v d)"
  by (induction k v d rule: dict_append.induct) auto

lemma mset_fold_dict_append:
  "mset (concat (map snd (fold (\<lambda>(v, k). dict_append (f k) v) d acc))) = mset (concat (map snd acc)) + mset (map fst d)"
  by (induction d arbitrary: acc) (auto simp: mset_dict_append)

lemma fold_dict_append_ne:
  "[] \<notin> snd ` set acc \<Longrightarrow> [] \<notin> snd ` set (fold (\<lambda>(v, k). dict_append (f k) v) d acc)"
proof (induction d arbitrary: acc)
  case (Cons x d)
  obtain v k where "x = (v, k)" by (cases x)
  then show ?case using Cons.IH [OF dict_append_ne [OF Cons.prems]] by simp
qed simp

lemma mset_py_zip:
  assumes "\<And>ys. ys \<in> set xss \<Longrightarrow> length ys = m" and "xss \<noteq> []"
  shows "mset (concat (py_zip xss)) = mset (concat xss)"
proof -
  obtain xs r where xss: "xss = xs # r" using assms(2) by (cases xss) auto
  have "foldr (min \<circ> length) r m = m" if "\<And>ys. ys \<in> set r \<Longrightarrow> length ys = m"
    using that by (induction r) auto
  then have "foldr (min \<circ> length) r (length xs) = m" using assms(1) xss by simp
  then have zip: "py_zip xss = map (\<lambda>j. map (\<lambda>ys. ys ! j) xss) [0..<m]" by (simp add: py_zip_def xss)
  have "mset (concat (map (\<lambda>j. map (\<lambda>ys. ys ! j) zss) [0..<m])) = mset (concat zss)"
    if "\<And>ys. ys \<in> set zss \<Longrightarrow> length ys = m" for zss :: "'a list list"
    using that
  proof (induction zss)
    case Nil
    then show ?case by (simp add: mset_concat_sum o_def sum_list_0)
  next
    case (Cons ys zss)
    have "(\<Sum>j \<leftarrow> [0..<m]. mset (map (\<lambda>ys. ys ! j) (ys # zss))) =
        (\<Sum>j \<leftarrow> [0..<m]. {#ys ! j#}) + (\<Sum>j \<leftarrow> [0..<m]. mset (map (\<lambda>ys. ys ! j) zss))"
      by (subst sum_list_addf [symmetric]) simp
    moreover have "(\<Sum>j \<leftarrow> [0..<m]. {#ys ! j#}) = mset ys"
    proof -
      have "(\<Sum>j \<leftarrow> js. {#ys ! j#}) = mset (map (nth ys) js)" for js by (induction js) auto
      then show ?thesis using Cons.prems [of ys] map_nth [of ys] by (metis list.set_intros(1))
    qed
    ultimately show ?case using Cons by (simp add: mset_concat_sum o_def)
  qed
  then show ?thesis using assms(1) zip by metis
qed

subsection \<open>Every path keeps every layer\<close>

definition grouped_layers :: "'l kv_group list \<Rightarrow> string multiset" where
  "grouped_layers groups = mset (concat (map layer_names groups))"

abbreviation layers_of :: "(string, 'l) dict \<Rightarrow> string multiset" where
  "layers_of d \<equiv> mset (dict_keys d)"

lemma grouped_layers_simps [simp]:
  "grouped_layers [] = {#}"
  "grouped_layers (g # gs) = mset (layer_names g) + grouped_layers gs"
  "grouped_layers (gs @ hs) = grouped_layers gs + grouped_layers hs"
  by (simp_all add: grouped_layers_def)

lemma grouped_layers_concat: "grouped_layers (concat gss) = (\<Sum>gs \<leftarrow> gss. grouped_layers gs)"
  by (induction gss) auto

lemma grouped_layers_singletons:
  "grouped_layers (map (\<lambda>(name, s). new_group [name] (f s)) d) = layers_of d"
  by (induction d) auto

text \<open>What the grouping relies on in the spec classes: \<open>from_specs\<close> wraps exactly the specs it is given,
  \<open>cdiv\<close> is the ceiling of the quotient, and no class is both a Mamba and a tail spec.\<close>

definition from_specs_law :: "'l spec_env \<Rightarrow> bool" where
  "from_specs_law E \<longleftrightarrow> (\<forall>d b u. from_specs E d = Some (b, u) \<longrightarrow> u = d)"

definition spec_laws :: "'l spec_env \<Rightarrow> bool" where
  "spec_laws E \<longleftrightarrow> cdiv_law E \<and> from_specs_law E \<and>
     (\<forall>s. \<not> (isinstance E s MambaSpec \<and> isinstance E s KpoolTailSpec))"

lemma spec_lawsD:
  assumes "spec_laws E"
  shows "cdiv_law E" "from_specs E d = Some (b, u) \<Longrightarrow> u = d"
    "isinstance E s MambaSpec \<Longrightarrow> \<not> isinstance E s KpoolTailSpec"
  using assms by (auto simp: spec_laws_def from_specs_law_def)

lemma mapE_related: "mapE f xs = Ok ys \<Longrightarrow> (\<And>x y. x \<in> set xs \<Longrightarrow> f x = Ok y \<Longrightarrow> h y = g x) \<Longrightarrow> map h ys = map g xs"
  by (induction xs arbitrary: ys) (auto simp: bindE_eq_Inr_iff)

lemma layers_filter:
  "layers_of d = layers_of (filter P d) + layers_of (filter (\<lambda>x. \<not> P x) d)"
  by (induction d) auto

lemma create_groups_names:
  assumes "create_kv_cache_group_specs E d grouped = Ok gs"
  shows "map layer_names gs = grouped"
proof -
  have "map layer_names gs = map (\<lambda>x. x) grouped"
    using assms unfolding create_kv_cache_group_specs_def
    by (rule mapE_related) (auto simp: create_one_group_def bindE_eq_Inr_iff split: if_splits)
  then show ?thesis by simp
qed

lemma create_groups_layers:
  "create_kv_cache_group_specs E d grouped = Ok gs \<Longrightarrow> grouped_layers gs = mset (concat grouped)"
  by (simp add: grouped_layers_def create_groups_names)

lemma uniform_type_layers:
  "spec_laws E \<Longrightarrow> from_specs E d = Some u \<Longrightarrow> grouped_layers (get_kv_cache_groups_uniform_type u) = layers_of d"
  by (cases u) (auto simp: get_kv_cache_groups_uniform_type_def dest: spec_lawsD(2))

text \<open>The Mamba/MLA layout.\<close>

lemma pp_groups_loop_ge: "pp_groups_loop E t pp mamba mla ranks n = Some k \<Longrightarrow> n \<le> k"
proof (induction ranks arbitrary: n)
  case (Cons rank ranks)
  obtain start stop where "get_pp_indices E t rank pp = (start, stop)" by (cases "get_pp_indices E t rank pp")
  then show ?case
    using Cons.prems by (simp add: Let_def split: if_splits) (use Cons.IH max.boundedE in blast)+
qed simp

lemma mamba_group_count_pos:
  assumes "cdiv_law E" "mamba_names \<noteq> []" "mla_names \<noteq> []"
    and "pp_balanced_mamba_group_count E cfg mamba_names mla_names = Some n"
  shows "0 < n"
proof -
  have "0 < cdiv E (int (length mamba_names)) (int (length mla_names))"
    using assms(1-3) by (intro cdiv_pos) auto
  also have "\<dots> \<le> n"
    using assms(4) pp_groups_loop_ge
    by (auto simp: pp_balanced_mamba_group_count_def Let_def split: if_splits)
  finally show ?thesis .
qed

lemma glm5_mamba_layers:
  assumes "spec_laws E" "mamba \<noteq> []" "mla_names \<noteq> []"
    and "glm5_mamba_groups E cfg mamba mla_names mla_page = Ok gs"
  shows "grouped_layers gs = layers_of mamba"
proof -
  obtain d n where n: "pp_balanced_mamba_group_count E cfg (dict_keys mamba) mla_names = Some n"
    and gs: "create_kv_cache_group_specs E d (deal (nat n) (dict_keys mamba)) = Ok gs"
    using assms(4) by (auto simp: glm5_mamba_groups_def Let_def bindE_eq_Inr_iff split: if_splits option.splits)
  have "0 < n" using mamba_group_count_pos [OF spec_lawsD(1) [OF assms(1)] _ assms(3) n] assms(2) by simp
  then show ?thesis using create_groups_layers [OF gs] by (simp add: mset_deal)
qed

lemma glm5_tail_layers: "glm5_tail_group E tail p = Ok gs \<Longrightarrow> grouped_layers gs = layers_of tail"
  by (auto simp: glm5_tail_group_def Let_def o_def split_beta split: if_splits option.splits)

lemma glm5_layers:
  assumes "spec_laws E" "get_kv_cache_groups_glm5_next E cfg d = Ok (Some gs)"
  shows "grouped_layers gs = layers_of d"
proof -
  let ?mamba = "filter (\<lambda>(_, s). isinstance E s MambaSpec) d"
  let ?tail = "filter (\<lambda>(_, s). isinstance E s KpoolTailSpec) d"
  let ?attn = "filter (\<lambda>(_, s). \<not> (isinstance E s MambaSpec \<or> isinstance E s KpoolTailSpec)) d"
  let ?mla = "filter (\<lambda>(_, s). tokens_per_state E s = Some 1) ?attn"
  have d: "layers_of d = layers_of ?attn + layers_of ?tail + layers_of ?mamba"
    using spec_lawsD(3) [OF assms(1)] by (induction d) auto
  obtain b u tg mg where gs: "gs = [new_group (dict_keys ?attn) (UniformTypeKVCacheSpecs b u)] @ tg @ mg"
    and ne: "?mamba \<noteq> []" "length (first_occurrences (map (layer_page E \<circ> snd) ?mla)) = 1"
    and tg: "glm5_tail_group E ?tail (hd (first_occurrences (map (layer_page E \<circ> snd) (filter (compressed E \<circ> snd) ?attn)))) = Ok tg"
    and mg: "glm5_mamba_groups E cfg ?mamba (dict_keys ?mla) (hd (first_occurrences (map (layer_page E \<circ> snd) ?mla))) = Ok mg"
    using assms(2) unfolding get_kv_cache_groups_glm5_next_def Let_def
    by (auto simp: bindE_eq_Inr_iff split: if_splits option.splits)
  have "?mla \<noteq> []" using ne(2) by (cases ?mla) auto
  then have "grouped_layers mg = layers_of ?mamba"
    using glm5_mamba_layers [OF assms(1) ne(1) _ mg] by simp
  then show ?thesis using glm5_tail_layers [OF tg] d by (simp add: gs)
qed

text \<open>One page size.\<close>

lemma unify_keys: "unify_kv_cache_spec_page_size E d = Ok d' \<Longrightarrow> dict_keys d' = dict_keys d"
  unfolding unify_kv_cache_spec_page_size_def Let_def
  by (auto split: if_splits elim!: mapE_related simp: unify_one_def bindE_eq_Inr_iff)

lemma place_layers_mset:
  "place_layers E names spec bs = Ok bs' \<Longrightarrow>
   mset (concat (map fst bs')) = mset (concat (map fst bs)) + mset names \<and>
   (names \<noteq> [] \<longrightarrow> [] \<notin> fst ` set bs \<longrightarrow> [] \<notin> fst ` set bs')"
  by (induction E names spec bs arbitrary: bs' rule: place_layers.induct)
    (auto simp: bindE_eq_Inr_iff split: sum.splits if_splits, (metis fst_conv image_eqI)+)

lemma place_all_mset:
  assumes "foldE (\<lambda>(spec, names). place_layers E names spec) xs bs = Ok bs'" "[] \<notin> snd ` set xs" "[] \<notin> fst ` set bs"
  shows "mset (concat (map fst bs')) = mset (concat (map fst bs)) + mset (concat (map snd xs)) \<and> [] \<notin> fst ` set bs'"
  using assms
proof (induction xs arbitrary: bs)
  case (Cons x xs)
  obtain spec names where x: "x = (spec, names)" by (cases x)
  then obtain bs1 where bs1: "place_layers E names spec bs = Ok bs1"
    "foldE (\<lambda>(spec, names). place_layers E names spec) xs bs1 = Ok bs'"
    using Cons.prems(1) by (auto simp: bindE_eq_Inr_iff)
  have "names \<noteq> []" using Cons.prems(2) x by auto
  then show ?case using place_layers_mset [OF bs1(1)] Cons.IH [OF bs1(2)] Cons.prems(2,3) x by auto
qed simp

lemma layer_buckets_mset:
  assumes "layer_buckets E d = Ok buckets"
  shows "mset (concat buckets) = layers_of d" and "[] \<notin> set buckets"
proof -
  obtain bs where bs: "foldE (\<lambda>(spec, names). place_layers E names spec) (same_type_layers d) [] = Ok bs"
    "buckets = map fst bs"
    using assms by (auto simp: layer_buckets_def bindE_eq_Inr_iff)
  have "mset (concat (map snd (same_type_layers d))) = layers_of d" "[] \<notin> snd ` set (same_type_layers d)"
    using mset_fold_dict_append [of "\<lambda>k. k" d "[]"] fold_dict_append_ne [of "[]" "\<lambda>k. k" d]
    by (simp_all add: same_type_layers_def)
  then show "mset (concat buckets) = layers_of d" "[] \<notin> set buckets"
    using place_all_mset [OF bs(1)] bs(2) by auto
qed

lemma group_size_pos:
  assumes "\<And>l. l \<in> set lens \<Longrightarrow> 0 < l" "lens \<noteq> []"
  shows "0 < group_size_of lens"
proof -
  have "0 < foldr min ls a" "0 < foldr max ls a" if "\<And>l. l \<in> set ls \<Longrightarrow> 0 < l" "0 < a" for ls :: "nat list" and a
    using that by (induction ls) auto
  then show ?thesis using assms by (auto simp: group_size_of_def Let_def)
qed

lemma mset_split_layers:
  assumes "cdiv_law E" "0 < k" "xs \<noteq> []"
  shows "mset (concat (split_layers E k xs)) = mset xs"
proof -
  have "0 < cdiv E (int (length xs)) (int k)" using assms by (intro cdiv_pos) auto
  then show ?thesis by (simp add: split_layers_def Let_def mset_stride_slices)
qed

lemma uniform_page_size_layers:
  assumes "spec_laws E" "get_kv_cache_groups_uniform_page_size E d = Ok gs"
  shows "grouped_layers gs = layers_of d"
proof -
  obtain buckets where b: "layer_buckets E d = Ok buckets" "buckets \<noteq> []"
    and gs: "create_kv_cache_group_specs E d
              (concat (map (split_layers E (group_size_of (map length buckets))) buckets)) = Ok gs"
    using assms(2) by (auto simp: get_kv_cache_groups_uniform_page_size_def bindE_eq_Inr_iff split: if_splits)
  let ?k = "group_size_of (map length buckets)"
  have ne: "xs \<noteq> []" if "xs \<in> set buckets" for xs using layer_buckets_mset(2) [OF b(1)] that by auto
  have "0 < ?k" using ne b(2) by (intro group_size_pos) auto
  have "mset (concat (concat (map (split_layers E ?k) bs))) = mset (concat bs)" if "set bs \<subseteq> set buckets" for bs
    using that
  proof (induction bs)
    case (Cons xs bs)
    then show ?case using mset_split_layers [OF spec_lawsD(1) [OF assms(1)] \<open>0 < ?k\<close>, of xs] ne [of xs] by simp
  qed simp
  then show ?thesis using create_groups_layers [OF gs] layer_buckets_mset(1) [OF b(1)] by simp
qed

text \<open>Packed blocks.\<close>

definition total_padding :: "int list \<Rightarrow> int \<Rightarrow> int" where
  "total_padding vals d = sum_list (map (\<lambda>x. (d - x mod d) mod d) vals)"

text \<open>The loop returns the candidate with the least padding, the largest of those.\<close>

definition best_chunk :: "int list \<Rightarrow> int set \<Rightarrow> int \<Rightarrow> bool" where
  "best_chunk vals D d \<longleftrightarrow> d \<in> D \<and>
     (\<forall>d' \<in> D. total_padding vals d < total_padding vals d' \<or>
                total_padding vals d = total_padding vals d' \<and> d' \<le> d)"

lemma approximate_gcd_loop_best:
  assumes "best_chunk vals D cand" "\<And>x y. x \<in> D \<Longrightarrow> y \<in> set ds \<Longrightarrow> x < y" "sorted_wrt (<) ds"
  shows "best_chunk vals (D \<union> set ds) (approximate_gcd_loop vals ds cand (Some (total_padding vals cand)))"
  using assms
proof (induction ds arbitrary: D cand)
  case (Cons d ds)
  have less: "cand < d" using Cons.prems(1,2) by (auto simp: best_chunk_def)
  let ?cand = "if total_padding vals d \<le> total_padding vals cand then d else cand"
  have "best_chunk vals (insert d D) ?cand"
    using Cons.prems(1) less by (auto simp: best_chunk_def)
  moreover have "x < y" if "x \<in> insert d D" "y \<in> set ds" for x y using that Cons.prems(2,3) by auto
  ultimately have "best_chunk vals (insert d D \<union> set ds)
      (approximate_gcd_loop vals ds ?cand (Some (total_padding vals ?cand)))"
    using Cons.IH [of "insert d D" ?cand] Cons.prems(3) by auto
  moreover have "approximate_gcd_loop vals (d # ds) cand (Some (total_padding vals cand)) =
      approximate_gcd_loop vals ds ?cand (Some (total_padding vals ?cand))"
    using less by (auto simp: Let_def total_padding_def)
  ultimately show ?case by (simp add: Un_commute insert_commute)
qed simp

lemma approximate_gcd_best:
  assumes "vals \<noteq> []" "\<forall>x \<in> set vals. 0 < x"
    and "1 \<le> lower" "\<exists>x \<in> set vals. lower \<le> x"
  shows "\<exists>d. approximate_gcd vals (Some lower) = Ok d \<and>
           best_chunk vals {lower..foldr max vals (hd vals)} d"
proof -
  let ?M = "foldr max vals (hd vals)"
  have "x \<le> foldr max xs a" if "x \<in> set xs" for x a and xs :: "int list" using that by (induction xs) auto
  then have "lower \<le> ?M" using assms(4) order_trans by blast
  then have split: "[lower..?M] = lower # [lower + 1..?M]" by (simp add: upto_rec1)
  have "best_chunk vals {lower} lower" by (simp add: best_chunk_def)
  then have "best_chunk vals ({lower} \<union> set [lower + 1..?M])
      (approximate_gcd_loop vals [lower + 1..?M] lower (Some (total_padding vals lower)))"
    by (rule approximate_gcd_loop_best) auto
  moreover have "{lower} \<union> set [lower + 1..?M] = {lower..?M}" using \<open>lower \<le> ?M\<close> by auto
  moreover have "approximate_gcd vals (Some lower) =
      Ok (approximate_gcd_loop vals [lower + 1..?M] lower (Some (total_padding vals lower)))"
    using assms \<open>lower \<le> ?M\<close> split by (auto simp: approximate_gcd_def Let_def total_padding_def not_le not_less)
  ultimately show ?thesis by simp
qed

lemma approximate_gcd_loop_in: "approximate_gcd_loop vals ds cand pad \<in> insert cand (set ds)"
  by (induction vals ds cand pad rule: approximate_gcd_loop.induct) (auto simp: Let_def)

lemma approximate_gcd_pos:
  assumes "approximate_gcd vals lb = Ok r"
  shows "1 \<le> r" and "x \<in> set vals \<Longrightarrow> 0 < x"
proof -
  let ?l = "max 1 (or_default 1 lb)" and ?M = "foldr max vals (hd vals)"
  have "r = ?l \<or> r = approximate_gcd_loop vals [?l..?M] ?l None"
    using assms by (auto simp: approximate_gcd_def Let_def split: if_splits)
  then show "1 \<le> r" using approximate_gcd_loop_in [of vals "[?l..?M]" ?l None] by auto
  show "0 < x" if "x \<in> set vals" using assms that
    by (auto simp: approximate_gcd_def split: if_splits)
qed

lemma join_bucket_mset:
  "fst x \<notin> fst ` set (concat bs) \<Longrightarrow> mset (concat (join_bucket E x bs)) = add_mset x (mset (concat bs))"
  by (induction E x bs rule: join_bucket.induct) (auto simp: dict_set_new image_Un)

lemma join_bucket_ne: "[] \<notin> set bs \<Longrightarrow> [] \<notin> set (join_bucket E x bs)"
proof (induction E x bs rule: join_bucket.induct)
  case (2 E x bucket buckets)
  have "dict_set (fst x) (snd x) bucket \<noteq> []" by (cases bucket) (auto split: if_splits)
  then show ?case using 2 by auto
qed auto

lemma packed_buckets_mset:
  assumes "distinct (dict_keys d)"
  shows "mset (concat (packed_buckets E d)) = mset d" and "[] \<notin> set (packed_buckets E d)"
proof -
  have "mset (concat (fold (join_bucket E) d bs)) = mset (concat bs) + mset d \<and> [] \<notin> set (fold (join_bucket E) d bs)"
    if "distinct (dict_keys d)" "fst ` set (concat bs) \<inter> fst ` set d = {}" "[] \<notin> set bs" for bs
    using that
  proof (induction d arbitrary: bs)
    case (Cons x d)
    have new: "fst x \<notin> fst ` set (concat bs)" using Cons.prems(2) by auto
    have "mset (concat (join_bucket E x bs)) = add_mset x (mset (concat bs))" by (rule join_bucket_mset [OF new])
    moreover from this have "set (concat (join_bucket E x bs)) = insert x (set (concat bs))"
      by (metis set_mset_add_mset_insert set_mset_mset)
    then have "fst ` set (concat (join_bucket E x bs)) \<inter> fst ` set d = {}"
      using Cons.prems(1,2) by auto
    ultimately show ?case using Cons.IH [of "join_bucket E x bs"] Cons.prems(1) join_bucket_ne [OF Cons.prems(3), of E x] by simp
  qed simp
  from this [of "[]"] show "mset (concat (packed_buckets E d)) = mset d" "[] \<notin> set (packed_buckets E d)"
    using assms by (simp_all add: packed_buckets_def)
qed

text \<open>A bucket that may be split beyond the repeat pattern has as many layers of each of its page sizes.\<close>

definition state_buckets_balanced :: "'l spec_env \<Rightarrow> (string, 'l) dict \<Rightarrow> bool" where
  "state_buckets_balanced E d \<longleftrightarrow>
     (\<forall>bucket \<in> set (packed_buckets E d).
        (let s = snd (hd bucket)
         in isinstance E s MambaSpec \<or> isinstance E s CircularBufferSpec \<or> isinstance E s SlidingWindowSpec)
        \<longrightarrow> balanced_bucket E bucket)"

lemma page_size_layers_mset: "mset (concat (map snd (page_size_layers E u))) = layers_of u"
  using mset_fold_dict_append [of "layer_page E" u "[]"] by (simp add: page_size_layers_def)

lemma mset_balanced_zip:
  assumes "balanced_bucket E u"
  shows "mset (concat (py_zip (map snd (page_size_layers E u)))) = layers_of u"
proof -
  obtain m where m: "first_occurrences (map (length \<circ> snd) (page_size_layers E u)) = [m]"
    using assms unfolding balanced_bucket_def by (metis One_nat_def length_0_conv length_Suc_conv)
  then have "map snd (page_size_layers E u) \<noteq> []" by (cases "page_size_layers E u") auto
  moreover have "length ys = m" if "ys \<in> set (map snd (page_size_layers E u))" for ys
    using singleton_occurrences [OF m, of "length ys"] that by auto
  ultimately have "mset (concat (py_zip (map snd (page_size_layers E u)))) =
      mset (concat (map snd (page_size_layers E u)))" by (intro mset_py_zip) auto
  then show ?thesis by (simp add: page_size_layers_mset)
qed

lemma group_of_names_layers: "group_of_names E u names = Ok g \<Longrightarrow> layer_names g = names"
  by (auto simp: group_of_names_def bindE_eq_Inr_iff split: option.splits)

lemma num_groups_pos:
  assumes "cdiv_law E" "repeats_per_group E bucketed = Ok repeats"
    and "((b, u), pages, balanced) \<in> set bucketed"
  shows "1 \<le> num_groups_for E repeats u balanced"
proof (cases repeats)
  case (Some r)
  then obtain floor where r: "approximate_gcd (map (\<lambda>((b, u), _, _). max_layers_per_page_size E u)
      (filter (\<lambda>(_, _, balanced). balanced) bucketed)) floor = Ok r"
    using assms(2) by (auto simp: repeats_per_group_def Let_def bindE_eq_Inr_iff split: if_splits)
  have "0 < max_layers_per_page_size E u" if "balanced"
    using approximate_gcd_pos(2) [OF r] assms(3) that by force
  then show ?thesis
    using cdiv_pos [OF assms(1)] approximate_gcd_pos(1) [OF r] Some by (auto simp: num_groups_for_def int_one_le_iff_zero_less)
qed (simp add: num_groups_for_def)

lemma split_bucket_layers:
  assumes "spec_laws E" "repeats_per_group E bucketed = Ok repeats"
    and x: "x = ((b, u), page_size_layers E u, balanced_bucket E u)" "x \<in> set bucketed"
    and "is_state_bucket E repeats u \<Longrightarrow> balanced_bucket E u"
    and "split_bucket E repeats anchor x = Ok gs"
  shows "grouped_layers gs = layers_of u"
proof -
  let ?n = "bucket_num_groups E repeats anchor x"
  have "1 \<le> num_groups_for E repeats u (balanced_bucket E u)"
    using num_groups_pos [OF spec_lawsD(1) [OF assms(1)] assms(2)] x by blast
  then have n: "1 \<le> ?n" by (auto simp: bucket_num_groups_def x(1) Let_def)
  show ?thesis
  proof (cases "?n = 1")
    case True
    then show ?thesis using assms(6) by (auto simp: split_bucket_def x(1) Let_def split: if_splits)
  next
    case False
    then have bal: "balanced_bucket E u"
      using assms(5) by (auto simp: bucket_num_groups_def num_groups_for_def x(1) Let_def split: if_splits option.splits)
    let ?rep = "py_zip (map snd (page_size_layers E u))"
    have "mapE (\<lambda>i. group_of_names E u (concat (stride_slice i (nat ?n) ?rep))) [0..<nat ?n] = Ok gs"
      using assms(6) False by (auto simp: split_bucket_def x(1) Let_def split: if_splits)
    then have "map layer_names gs = map (\<lambda>i. concat (stride_slice i (nat ?n) ?rep)) [0..<nat ?n]"
      by (rule mapE_related) (rule group_of_names_layers)
    also have "\<dots> = map concat (map (\<lambda>i. stride_slice i (nat ?n) ?rep) [0..<nat ?n])" by simp
    finally have "grouped_layers gs = mset (concat (concat (map (\<lambda>i. stride_slice i (nat ?n) ?rep) [0..<nat ?n])))"
      by (simp only: grouped_layers_def concat_map_concat)
    also have "\<dots> = mset (concat ?rep)"
      using n by (intro mset_concat_cong mset_stride_slices) simp
    finally show ?thesis using mset_balanced_zip [OF bal] by simp
  qed
qed

lemma annotate_names [simp]: "map layer_names (annotate_eagle_groups E cfg d fb gs) = map layer_names gs"
proof -
  have "map layer_names (flag_first n hs) = map layer_names hs" for n and hs :: "'a kv_group list"
    by (induction n hs rule: flag_first.induct) auto
  then show ?thesis
    by (auto simp: annotate_eagle_groups_def Let_def split: option.splits)
qed

lemma annotate_layers [simp]: "grouped_layers (annotate_eagle_groups E cfg d fb gs) = grouped_layers gs"
  by (simp add: grouped_layers_def)

lemma layers_concat: "(\<Sum>u \<leftarrow> us. layers_of u) = image_mset fst (mset (concat us))"
  by (induction us) auto

lemma packed_layers:
  assumes "spec_laws E" "distinct (dict_keys d)" "state_buckets_balanced E d"
    and "get_packed_kv_cache_groups E cfg d = Ok (Some gs)"
  shows "grouped_layers gs = layers_of d"
proof -
  obtain bucketed repeats gss where entries: "mapE (bucket_entry E) (packed_buckets E d) = Ok bucketed"
    and rep: "repeats_per_group E bucketed = Ok repeats"
    and gss: "mapE (split_bucket E repeats (anchor_bytes E repeats bucketed)) bucketed = Ok gss"
    and gs: "gs = annotate_eagle_groups E cfg d (is_deepseek_v4_eagle cfg) (concat gss)"
    using assms(4) by (auto simp: get_packed_kv_cache_groups_def Let_def bindE_eq_Inr_iff split: if_splits)
  have entry: "\<exists>b. bucket_entry E u = Ok ((b, u), page_size_layers E u, balanced_bucket E u)"
    if "bucket_entry E u = Ok x" for u x
    using that spec_lawsD(2) [OF assms(1)] by (auto simp: bucket_entry_def split: option.splits)
  have shape: "\<exists>b u. x = ((b, u), page_size_layers E u, balanced_bucket E u) \<and> u \<in> set (packed_buckets E d)"
    if "x \<in> set bucketed" for x
  proof -
    have "\<exists>u \<in> set us. bucket_entry E u = Ok x" if "mapE (bucket_entry E) us = Ok xs" "x \<in> set xs" for us xs
      using that by (induction us arbitrary: xs) (auto simp: bindE_eq_Inr_iff)
    from this [OF entries that] obtain u where u: "u \<in> set (packed_buckets E d)" "bucket_entry E u = Ok x" by blast
    obtain b where "bucket_entry E u = Ok ((b, u), page_size_layers E u, balanced_bucket E u)"
      using entry [OF u(2)] by blast
    then show ?thesis using u by (intro exI [of _ b] exI [of _ u]) simp
  qed
  have us: "map (\<lambda>x. snd (fst x)) bucketed = packed_buckets E d"
  proof -
    have "snd (fst x) = u" if "bucket_entry E u = Ok x" for u x using entry [OF that] that by auto
    then show ?thesis using mapE_related [OF entries, of "\<lambda>x. snd (fst x)" "\<lambda>u. u"] by simp
  qed
  have "map grouped_layers gss = map (\<lambda>x. layers_of (snd (fst x))) bucketed"
  proof (rule mapE_related [OF gss])
    fix x hs assume x: "x \<in> set bucketed" and hs: "split_bucket E repeats (anchor_bytes E repeats bucketed) x = Ok hs"
    obtain b u where u: "x = ((b, u), page_size_layers E u, balanced_bucket E u)" "u \<in> set (packed_buckets E d)"
      using shape [OF x] by blast
    have "balanced_bucket E u" if "is_state_bucket E repeats u"
      using assms(3) that u(2) by (auto simp: state_buckets_balanced_def is_state_bucket_def Let_def)
    then show "grouped_layers hs = layers_of (snd (fst x))"
      using split_bucket_layers [OF assms(1) rep u(1) x _ hs] u(1) by simp
  qed
  then have "grouped_layers (concat gss) = (\<Sum>u \<leftarrow> map (\<lambda>x. snd (fst x)) bucketed. layers_of u)"
    by (simp add: grouped_layers_concat o_def)
  also have "\<dots> = image_mset fst (mset (concat (packed_buckets E d)))"
    unfolding us by (rule layers_concat)
  finally show ?thesis using packed_buckets_mset(1) [OF assms(2)] by (simp add: gs)
qed

text \<open>The remaining paths, and all of them together.\<close>

lemma promote_keys: "promote_local_kv_cache_specs E d = Ok d' \<Longrightarrow> dict_keys d' = dict_keys d"
proof -
  assume "promote_local_kv_cache_specs E d = Ok d'"
  then have "d' = d \<or> (\<exists>b. mapE (promote_one E b) d = Ok d')"
    unfolding promote_local_kv_cache_specs_def Let_def by (auto simp: bindE_eq_Inr_iff split: if_splits)
  moreover have "fst y = fst x" if "promote_one E b x = Ok y" for b x y
    using that by (auto simp: promote_one_def Let_def bindE_eq_Inr_iff split: prod.splits option.splits)
  then have "dict_keys d' = dict_keys d" if "mapE (promote_one E b) d = Ok d'" for b
    using mapE_related [OF that, of fst fst] by blast
  ultimately show ?thesis by blast
qed

lemma keys_dict_set_present: "k \<in> fst ` set d \<Longrightarrow> dict_keys (dict_set k v d) = dict_keys d"
  by (induction k v d rule: dict_set.induct) auto

lemma keys_dict_update: "fst ` set xs \<subseteq> fst ` set d \<Longrightarrow> dict_keys (fold (\<lambda>(n, s). dict_set n s) xs d) = dict_keys d"
proof (induction xs arbitrary: d)
  case (Cons x xs)
  obtain n s where x: "x = (n, s)" by (cases x)
  have keys: "dict_keys (dict_set n s d) = dict_keys d" using Cons.prems x by (intro keys_dict_set_present) simp
  have "fst ` set (dict_set n s d) = fst ` set d" using Cons.prems x by auto
  then show ?case using Cons.IH [of "dict_set n s d"] Cons.prems keys x by simp
qed simp

lemma unify_hybrid_keys: "unify_hybrid_kv_cache_specs E d = Ok d' \<Longrightarrow> dict_keys d' = dict_keys d"
  unfolding unify_hybrid_kv_cache_specs_def
  by (auto simp: bindE_eq_Inr_iff split: if_splits dest!: promote_keys)
    (metis keys_dict_update list.set_map order_refl)

lemma fallback_layers:
  assumes "spec_laws E" "full_allocation_fallback E d = Ok (Some gs)"
  shows "grouped_layers gs = layers_of d"
proof -
  obtain d' u where "promote_local_kv_cache_specs E d = Ok d'" "from_specs E d' = Some u"
    "gs = get_kv_cache_groups_uniform_type u"
    using assms(2) unfolding full_allocation_fallback_def Let_def
    by (auto split: if_splits sum.splits option.splits)
  then show ?thesis using uniform_type_layers [OF assms(1)] promote_keys by metis
qed

lemma with_hidden_layers:
  assumes "with_hidden_groups E hidden groups = Ok gs"
  shows "grouped_layers gs = grouped_layers groups + layers_of hidden"
proof (cases "hidden = []")
  case False
  then obtain p b hs where hs: "mapE (hidden_group E p b) hidden = Ok hs" "gs = groups @ hs"
    using assms by (auto simp: with_hidden_groups_def bindE_eq_Inr_iff)
  have "map layer_names hs = map (\<lambda>x. [fst x]) hidden"
    using hs(1) by (rule mapE_related) (auto simp: hidden_group_def Let_def split: prod.splits if_splits)
  then have "grouped_layers hs = layers_of hidden" by (simp add: grouped_layers_def)
  then show ?thesis using hs(2) by simp
qed (use assms in \<open>simp add: with_hidden_groups_def\<close>)

lemma hybrid_groups_cases:
  assumes "get_packed_kv_cache_groups E cfg (filter (\<lambda>(_, s). \<not> isinstance E s HiddenStateCacheSpec) d) = Ok packed"
    and "hybrid_groups E cfg d = Ok gs"
  shows "(\<exists>ps. packed = Some ps \<and>
           gs = ps @ map (\<lambda>(name, s). new_group [name] (Layer s)) (filter (\<lambda>(_, s). isinstance E s HiddenStateCacheSpec) d)) \<or>
    full_allocation_fallback E d = Ok (Some gs) \<or>
    (\<exists>u groups all_groups.
       unify_kv_cache_spec_page_size E (filter (\<lambda>(_, s). \<not> isinstance E s HiddenStateCacheSpec) d) = Ok u \<and>
       get_kv_cache_groups_uniform_page_size E u = Ok groups \<and>
       with_hidden_groups E (filter (\<lambda>(_, s). isinstance E s HiddenStateCacheSpec) d) groups = Ok all_groups \<and>
       gs = annotate_eagle_groups E cfg d False all_groups)"
proof (cases "packed \<noteq> None \<and> packed \<noteq> Some []")
  case True
  then show ?thesis using assms by (auto simp: hybrid_groups_def Let_def)
next
  case False
  let ?unified = "unify_kv_cache_spec_page_size E (filter (\<lambda>(_, s). \<not> isinstance E s HiddenStateCacheSpec) d)"
  show ?thesis
  proof (cases ?unified)
    case (Inl e)
    then show ?thesis
      using assms(2) False
      unfolding hybrid_groups_def Let_def assms(1) bindE_simps if_not_P [OF False]
      by (auto simp: bindE_eq_Inr_iff split: if_splits option.splits)
  next
    case (Inr u)
    then show ?thesis
      using assms(2)
      unfolding hybrid_groups_def Let_def assms(1) bindE_simps if_not_P [OF False] Inr sum.case
      by (auto simp: bindE_eq_Inr_iff)
  qed
qed

lemma hybrid_layers:
  assumes "spec_laws E" "distinct (dict_keys d)"
    and "state_buckets_balanced E (filter (\<lambda>(_, s). \<not> isinstance E s HiddenStateCacheSpec) d)"
    and "hybrid_groups E cfg d = Ok gs"
  shows "grouped_layers gs = layers_of d"
proof -
  let ?hidden = "filter (\<lambda>(_, s). isinstance E s HiddenStateCacheSpec) d"
  let ?rest = "filter (\<lambda>(_, s). \<not> isinstance E s HiddenStateCacheSpec) d"
  have d: "layers_of d = layers_of ?hidden + layers_of ?rest"
    using layers_filter [of d "\<lambda>(_, s). isinstance E s HiddenStateCacheSpec"] by (simp add: split_beta)
  have dist: "distinct (dict_keys ?rest)" using assms(2) by (simp add: distinct_map_filter)
  obtain packed where pk: "get_packed_kv_cache_groups E cfg ?rest = Ok packed"
    using assms(4) by (auto simp: hybrid_groups_def Let_def bindE_eq_Inr_iff)
  consider (packed) ps where "packed = Some ps" "gs = ps @ map (\<lambda>(name, s). new_group [name] (Layer s)) ?hidden"
    | (fallback) "full_allocation_fallback E d = Ok (Some gs)"
    | (unified) u groups all_groups where "unify_kv_cache_spec_page_size E ?rest = Ok u"
        "get_kv_cache_groups_uniform_page_size E u = Ok groups"
        "with_hidden_groups E ?hidden groups = Ok all_groups" "gs = annotate_eagle_groups E cfg d False all_groups"
    using hybrid_groups_cases [OF pk assms(4)] by blast
  then show ?thesis
  proof cases
    case packed
    then show ?thesis
      using packed_layers [OF assms(1) dist assms(3), of cfg ps] pk d
      by (simp add: grouped_layers_singletons add.commute)
  next
    case fallback
    then show ?thesis by (rule fallback_layers [OF assms(1)])
  next
    case unified
    then show ?thesis
      using uniform_page_size_layers [OF assms(1) unified(2)] with_hidden_layers [OF unified(3)] unify_keys [OF unified(1)] d
      by simp
  qed
qed

lemma glm5_or_hybrid:
  assumes "bindE (get_kv_cache_groups_glm5_next E cfg d)
     (\<lambda>glm5. if glm5 \<noteq> None \<and> glm5 \<noteq> Some [] then Ok (the glm5) else hybrid_groups E cfg d) = Ok gs"
  shows "get_kv_cache_groups_glm5_next E cfg d = Ok (Some gs) \<or> hybrid_groups E cfg d = Ok gs"
proof -
  obtain glm5 where g: "get_kv_cache_groups_glm5_next E cfg d = Ok glm5"
    "(if glm5 \<noteq> None \<and> glm5 \<noteq> Some [] then Ok (the glm5) else hybrid_groups E cfg d) = Ok gs"
    using assms unfolding bindE_eq_Inr_iff by blast
  then show ?thesis by (cases glm5) (auto split: if_splits)
qed

lemma groups_of_specs_cases:
  assumes "groups_of_specs E cfg d = Ok gs"
  shows "d = [] \<and> gs = [] \<or> create_kv_cache_group_specs E d [dict_keys d] = Ok gs \<or>
    (\<exists>u. from_specs E d = Some u \<and> gs = get_kv_cache_groups_uniform_type u) \<or>
    get_kv_cache_groups_glm5_next E cfg d = Ok (Some gs) \<or> hybrid_groups E cfg d = Ok gs"
proof (cases "d = []")
  case False
  obtain uniform where u: "is_kv_cache_spec_uniform E d = Ok uniform"
    using assms False unfolding groups_of_specs_def by (auto simp: bindE_eq_Inr_iff)
  show ?thesis
  proof (cases uniform)
    case True
    then show ?thesis using assms False u by (simp add: groups_of_specs_def get_kv_cache_groups_uniform_spec_def)
  next
    case not_uniform: False
    show ?thesis
    proof (cases "from_specs E d")
      case (Some w)
      then show ?thesis using assms False u not_uniform by (simp add: groups_of_specs_def)
    next
      case None
      then have "get_kv_cache_groups_glm5_next E cfg d = Ok (Some gs) \<or> hybrid_groups E cfg d = Ok gs"
        using assms False u not_uniform
        unfolding groups_of_specs_def u bindE_simps if_not_P [OF False] if_not_P [OF not_uniform] None option.case
        by (intro glm5_or_hybrid)
      then show ?thesis by blast
    qed
  qed
qed (use assms in \<open>simp add: groups_of_specs_def\<close>)

lemma groups_of_specs_layers:
  assumes "spec_laws E" "distinct (dict_keys d)"
    and "state_buckets_balanced E (filter (\<lambda>(_, s). \<not> isinstance E s HiddenStateCacheSpec) d)"
    and "groups_of_specs E cfg d = Ok gs"
  shows "grouped_layers gs = layers_of d"
  using groups_of_specs_cases [OF assms(4)] create_groups_layers [of E d "[dict_keys d]" gs]
    uniform_type_layers [OF assms(1)] glm5_layers [OF assms(1)] hybrid_layers [OF assms(1-3)] by fastforce

text \<open>C9: \<open>get_kv_cache_groups\<close> partitions the layers, where \<open>state_buckets_balanced\<close> holds: a bucket of state or
  sliding-window specs that the packed path may split has as many layers of each of its page sizes.  On every path
  that returns (uniform model, one type, Mamba next to MLA, packed blocks, unified pages, full-allocation
  fallback, hidden-state layers) each layer of the model is then in exactly one group, no group names
  another layer, and the dictionary that the function may rewrite keeps its keys.  Without the condition
  the packed path can return and lose a layer (C37).\<close>

theorem groups_partition_layers:
  assumes "spec_laws E" and "distinct (dict_keys d)"
    and "get_kv_cache_groups E cfg d = Ok (d', groups)"
    and "state_buckets_balanced E (filter (\<lambda>(_, s). \<not> isinstance E s HiddenStateCacheSpec) d')"
  shows "distinct (concat (map layer_names groups)) \<and>
    set (concat (map layer_names groups)) = set (dict_keys d) \<and> dict_keys d' = dict_keys d"
proof -
  have keys: "dict_keys d' = dict_keys d"
    using assms(3) unify_hybrid_keys by (auto simp: get_kv_cache_groups_def bindE_eq_Inr_iff split: if_splits)
  have "groups_of_specs E cfg d' = Ok groups"
    using assms(3) by (auto simp: get_kv_cache_groups_def bindE_eq_Inr_iff)
  then have m: "mset (concat (map layer_names groups)) = mset (dict_keys d)"
    using groups_of_specs_layers [OF assms(1) _ assms(4)] assms(2) keys by (simp add: grouped_layers_def)
  then show ?thesis using mset_eq_imp_distinct_iff [OF m] mset_eq_setD [OF m] assms(2) keys by blast
qed

lemma demo_spec_laws: "spec_laws demo_spec_env"
  unfolding spec_laws_def
proof (intro conjI allI)
  show "cdiv_law demo_spec_env" by (simp add: cdiv_law_def demo_spec_env_def)
  show "from_specs_law demo_spec_env" by (simp add: from_specs_law_def demo_spec_env_def)
  show "\<not> (isinstance demo_spec_env s MambaSpec \<and> isinstance demo_spec_env s KpoolTailSpec)" for s
    by (cases "demo_class s") (simp_all add: isinstance_def demo_spec_env_def demo_mro_def)
qed

text \<open>Two attention types with two page sizes each, which the packed path splits into three groups.\<close>

definition demo_mix :: "(string, demo_layer) dict" where
  "demo_mix = [(''f0'', demo_layer_of FullAttentionSpec 4 4), (''f1'', demo_layer_of FullAttentionSpec 2 4),
               (''s0'', demo_layer_of SlidingWindowSpec 3 4), (''s1'', demo_layer_of SlidingWindowSpec 3 4),
               (''h'', demo_layer_of HiddenStateCacheSpec 1 4)]"

theorem groups_partition_layers_witness:
  "\<exists>d' groups. get_kv_cache_groups demo_spec_env demo_config demo_mix = Ok (d', groups) \<and>
     map layer_names groups = [[''f0'', ''f1''], [''s0''], [''s1''], [''h'']] \<and>
     distinct (concat (map layer_names groups)) \<and>
     set (concat (map layer_names groups)) = set (dict_keys demo_mix) \<and> dict_keys d' = dict_keys demo_mix"
proof -
  have run: "map_sum id (\<lambda>(d', gs). (d', map layer_names gs)) (get_kv_cache_groups demo_spec_env demo_config demo_mix)
      = Ok (demo_mix, [[''f0'', ''f1''], [''s0''], [''s1''], [''h'']])" by code_simp
  then obtain groups where r: "get_kv_cache_groups demo_spec_env demo_config demo_mix = Ok (demo_mix, groups)"
    "map layer_names groups = [[''f0'', ''f1''], [''s0''], [''s1''], [''h'']]"
    by (cases "get_kv_cache_groups demo_spec_env demo_config demo_mix") auto
  have hyps: "distinct (dict_keys demo_mix)"
    "state_buckets_balanced demo_spec_env (filter (\<lambda>(_, s). \<not> isinstance demo_spec_env s HiddenStateCacheSpec) demo_mix)"
    by code_simp+
  show ?thesis
    by (rule exI, rule exI, rule conjI, rule r(1), rule conjI, rule r(2),
        rule groups_partition_layers [OF demo_spec_laws hyps(1) r(1) hyps(2)])
qed

text \<open>Three sliding-window layers of two page sizes next to one full-attention layer.\<close>

definition sliding_mix :: "(string, demo_layer) dict" where
  "sliding_mix = [(''f'', demo_layer_of FullAttentionSpec 25 4), (''a0'', demo_layer_of SlidingWindowSpec 15 4),
                  (''b0'', demo_layer_of SlidingWindowSpec 10 4), (''a1'', demo_layer_of SlidingWindowSpec 15 4)]"

definition demo_env_empty :: "(int \<times> (string, demo_layer) dict) option \<Rightarrow> demo_layer spec_env" where
  "demo_env_empty x = demo_spec_env\<lparr>from_specs := (\<lambda>d. if d = [] then x else from_specs demo_spec_env d)\<rparr>"

text \<open>C37: the side condition of the partition is needed.  The packed path splits the three sliding-window
  layers into three groups, because a block fits one of them, but \<^verbatim>\<open>zip\<close> stops at the shorter of the two
  lists of layers: whatever \<open>from_specs\<close> makes of an empty dictionary, the call fails with an assertion
  or layer \<open>a1\<close> is in no group.\<close>

theorem packed_split_drops_layer:
  "case get_packed_kv_cache_groups (demo_env_empty x) demo_config sliding_mix of
     Inl e \<Rightarrow> e = AssertionError
   | Inr None \<Rightarrow> False
   | Inr (Some groups) \<Rightarrow> ''a1'' \<notin> set (concat (map layer_names groups))"
proof (cases x)
  case None
  show ?thesis unfolding None by code_simp
next
  case (Some y)
  obtain b u where y: "y = (b, u)" by (cases y)
  have "map_sum id (map_option (map layer_names)) (get_packed_kv_cache_groups (demo_env_empty (Some (b, u))) demo_config sliding_mix)
      = Ok (Some [[''f''], [''a0'', ''b0''], [], []])" by code_simp
  then show ?thesis unfolding Some y
    by (cases "get_packed_kv_cache_groups (demo_env_empty (Some (b, u))) demo_config sliding_mix") auto
qed

end
