(* ===== verification/KV_Layout.thy ===== *)
theory KV_Layout
  imports KV_Groups
begin

text \<open>
  From KV cache groups to the tensors of every worker (\<open>v1/core/kv_cache_utils.py\<close>): bytes per block,
  the placement of each layer in the shared allocation, projection of the groups to a pipeline rank,
  automatic choice of the context length, the admission check and the common number of blocks.
\<close>

subsection \<open>The Mamba/MLA layout\<close>

definition get_per_layer_spec :: "'l kv_group \<Rightarrow> string \<Rightarrow> 'l res" where
  "get_per_layer_spec g name =
     (case kv_cache_spec g of Layer s \<Rightarrow> Ok s | UniformTypeKVCacheSpecs _ d \<Rightarrow> dict_item d name)"

record 'l glm5_layout =
  attn_specs :: "(string, 'l) dict"
  mamba_groups :: "'l kv_group list"
  mla_names :: "string list"
  idx_names :: "string list"
  mla_page :: int
  idx_page :: int
  tail_names :: "string list"
  attn_spec :: "'l kv_spec"

definition uniform_inner :: "'l kv_group \<Rightarrow> (string, 'l) dict option" where
  "uniform_inner g = (case kv_cache_spec g of UniformTypeKVCacheSpecs _ d \<Rightarrow> Some d | Layer _ \<Rightarrow> None)"

definition is_mamba_group :: "'l spec_env \<Rightarrow> 'l kv_group \<Rightarrow> bool" where
  "is_mamba_group E g = (case kv_cache_spec g of Layer s \<Rightarrow> isinstance E s MambaSpec | UniformTypeKVCacheSpecs _ _ \<Rightarrow> False)"

text \<open>The loop that looks for the attention and the tail group; a later group replaces an earlier one.\<close>

definition scan_group ::
  "'l spec_env \<Rightarrow> 'l kv_group \<Rightarrow> 'l kv_group option \<times> 'l kv_group option \<Rightarrow> 'l kv_group option \<times> 'l kv_group option" where
  "scan_group E g st =
     (case uniform_inner g of
        None \<Rightarrow> st
      | Some inner \<Rightarrow>
          if list_all (\<lambda>(_, s). type_is E s MLAAttentionSpec) inner then (Some g, snd st)
          else if list_all (\<lambda>(_, s). isinstance E s KpoolTailSpec) inner then (fst st, Some g)
          else st)"

text \<open>The tail part: the names, or \<open>None\<close> when the tail does not fit the indexer slots.\<close>

definition tail_layout :: "'l spec_env \<Rightarrow> 'l kv_group option \<Rightarrow> string list \<Rightarrow> int \<Rightarrow> string list option" where
  "tail_layout E tail_group idxs idx_pg =
     (case tail_group of
        None \<Rightarrow> Some []
      | Some g \<Rightarrow>
          let pages = first_occurrences (map (unpadded_page_size_bytes E \<circ> snd) (the (uniform_inner g)))
          in if length pages \<noteq> 1 \<or> length (layer_names g) \<noteq> length idxs then None
             else if hd pages > idx_pg then None
             else Some (layer_names g))"

definition glm5_next_tensor_layout :: "'l spec_env \<Rightarrow> 'l kv_group list \<Rightarrow> 'l glm5_layout option res" where
  "glm5_next_tensor_layout E groups =
     (let uniform_groups = filter (\<lambda>g. uniform_inner g \<noteq> None) groups;
          mambas = filter (is_mamba_group E) groups;
          (attn_group, tail_group) = fold (scan_group E) uniform_groups (None, None)
      in case attn_group of
           None \<Rightarrow> Ok None
         | Some ag \<Rightarrow>
             if mambas = [] \<or> length uniform_groups + length mambas \<noteq> length groups then Ok None
             else
               let inner = the (uniform_inner ag)
               in if \<not> list_all (\<lambda>(_, s). type_is E s MLAAttentionSpec \<and> page_size_padded E s = None) inner then Ok None
                  else
                    bindE (mapE (\<lambda>n. bindE (dict_item inner n) (\<lambda>s. Ok (n, s))) (layer_names ag)) (\<lambda>named.
                    let mla = filter (\<lambda>(_, s). tokens_per_state E s = Some 1) named;
                        idx = filter (\<lambda>(_, s). compressed E s) named;
                        mla_pages = first_occurrences (map (layer_page E \<circ> snd) mla);
                        idx_pages = first_occurrences (map (layer_page E \<circ> snd) idx)
                    in if length mla_pages \<noteq> 1 \<or> length idx_pages \<noteq> 1 then Ok None
                       else if \<exists>g \<in> set mambas. page_size_bytes E (kv_cache_spec g) \<noteq> hd mla_pages then Ok None
                       else case tail_layout E tail_group (map fst idx) (hd idx_pages) of
                              None \<Rightarrow> Ok None
                            | Some tails \<Rightarrow>
                                Ok (Some \<lparr>attn_specs = inner, mamba_groups = mambas, mla_names = map fst mla,
                                          idx_names = map fst idx, mla_page = hd mla_pages, idx_page = hd idx_pages,
                                          tail_names = tails, attn_spec = kv_cache_spec ag\<rparr>)))"

definition glm5_bytes_per_block :: "'l glm5_layout \<Rightarrow> int" where
  "glm5_bytes_per_block L = int (length (mla_names L)) * mla_page L + int (length (idx_names L)) * idx_page L"

subsection \<open>Bytes per block\<close>

definition group_bytes :: "'l spec_env \<Rightarrow> 'l kv_group \<Rightarrow> int res" where
  "group_bytes E g =
     bindE (mapE (\<lambda>n. bindE (get_per_layer_spec g n) (\<lambda>s. Ok (layer_page E s))) (layer_names g)) (\<lambda>pages.
     Ok (sum_list pages))"

definition max_group_bytes :: "'l spec_env \<Rightarrow> 'l kv_group list \<Rightarrow> int res" where
  "max_group_bytes E groups =
     bindE (mapE (group_bytes E) groups) (\<lambda>bs.
     if bs = [] then Err ValueError
     else bindE (assertE (foldr max bs (hd bs) > 0)) (\<lambda>_. Ok (foldr max bs (hd bs))))"

definition get_kv_cache_bytes_per_block :: "'l spec_env \<Rightarrow> 'l kv_group list \<Rightarrow> int res" where
  "get_kv_cache_bytes_per_block E groups =
     bindE (glm5_next_tensor_layout E groups) (\<lambda>layout.
     case layout of Some L \<Rightarrow> Ok (glm5_bytes_per_block L) | None \<Rightarrow> max_group_bytes E groups)"

definition pool_bytes_per_block :: "'l spec_env \<Rightarrow> 'l kv_group list \<Rightarrow> int res" where
  "pool_bytes_per_block E groups = get_kv_cache_bytes_per_block E groups"

definition may_override_num_blocks :: "vllm_config \<Rightarrow> int \<Rightarrow> int" where
  "may_override_num_blocks cfg n = or_default n (num_gpu_blocks_override cfg)"

definition validate_kv_cache_layout :: "'l spec_env \<Rightarrow> kv_layout \<Rightarrow> 'l kv_group list \<Rightarrow> unit res" where
  "validate_kv_cache_layout E layout groups =
     bindE (mapE (\<lambda>g. mapE (\<lambda>n. bindE (get_per_layer_spec g n) (\<lambda>s. Ok (layer_page E s))) (layer_names g)) groups) (\<lambda>pages.
     if length (first_occurrences (concat pages)) = 1 then Ok ()
     else if \<not> is_block_compact layout \<or> length groups > 1 \<and> is_layer_compact layout then Err ValueError
     else Ok ())"

subsection \<open>Tensors\<close>

record kv_cache_tensor =
  tensor_size :: int
  tensor_layers :: "string list"
  layer_stride :: int
  block_stride :: int
  tensor_offset :: int

record 'l kv_cache_config =
  num_blocks :: int
  kv_cache_tensors :: "kv_cache_tensor list"
  kv_cache_groups :: "'l kv_group list"
  retention_interval :: "int option"

definition make_config ::
  "vllm_config \<Rightarrow> int \<Rightarrow> kv_cache_tensor list \<Rightarrow> 'l kv_group list \<Rightarrow> 'l kv_cache_config" where
  "make_config cfg n tensors groups =
     \<lparr>num_blocks = n, kv_cache_tensors = tensors, kv_cache_groups = groups,
      retention_interval = prefix_cache_retention_interval cfg\<rparr>"

text \<open>\<open>add_tensor\<close> of the Mamba/MLA layout.\<close>

definition slot_tensor :: "int \<Rightarrow> int \<Rightarrow> string \<Rightarrow> int \<Rightarrow> int \<Rightarrow> kv_cache_tensor" where
  "slot_tensor sz nb name page offset =
     \<lparr>tensor_size = sz, tensor_layers = [name], layer_stride = page * nb, block_stride = page, tensor_offset = offset\<rparr>"

definition mla_slot ::
  "'l spec_env \<Rightarrow> 'l glm5_layout \<Rightarrow> int \<Rightarrow> int \<Rightarrow> nat \<times> string \<Rightarrow> kv_cache_tensor list res" where
  "mla_slot E L sz nb x =
     (case x of (index, name) \<Rightarrow>
        let offset = int index * mla_page L * nb
        in bindE (dict_item (attn_specs L) name) (\<lambda>s.
           Ok (slot_tensor sz nb name (layer_page E s) offset #
               map (\<lambda>g. slot_tensor sz nb (layer_names g ! index) (page_size_bytes E (kv_cache_spec g)) offset)
                   (filter (\<lambda>g. index < length (layer_names g)) (mamba_groups L)))))"

text \<open>The tail group is searched again by name; a name of the layout is always found.\<close>

definition tail_slot ::
  "'l spec_env \<Rightarrow> 'l kv_group list \<Rightarrow> int \<Rightarrow> int \<Rightarrow> int \<Rightarrow> string \<Rightarrow> kv_cache_tensor res" where
  "tail_slot E groups sz nb offset name =
     (case find (\<lambda>g. name \<in> set (layer_names g)) groups of
        None \<Rightarrow> Err StopIteration
      | Some g \<Rightarrow> (case uniform_inner g of
                    None \<Rightarrow> Err AttributeError
                  | Some d \<Rightarrow> bindE (dict_item d name) (\<lambda>s. Ok (slot_tensor sz nb name (layer_page E s) offset))))"

definition idx_slot ::
  "'l spec_env \<Rightarrow> 'l kv_group list \<Rightarrow> 'l glm5_layout \<Rightarrow> int \<Rightarrow> int \<Rightarrow> nat \<times> string \<Rightarrow> kv_cache_tensor list res" where
  "idx_slot E groups L sz nb x =
     (case x of (index, name) \<Rightarrow>
        let offset = int (length (mla_names L)) * mla_page L * nb + int index * idx_page L * nb
        in bindE (dict_item (attn_specs L) name) (\<lambda>s.
           bindE (if tail_names L = [] then Ok []
                  else bindE (tail_slot E groups sz nb offset (tail_names L ! index)) (\<lambda>t. Ok [t])) (\<lambda>ts.
           Ok (slot_tensor sz nb name (layer_page E s) offset # ts))))"

definition glm5_tensors ::
  "'l spec_env \<Rightarrow> 'l kv_group list \<Rightarrow> 'l glm5_layout \<Rightarrow> int \<Rightarrow> int \<Rightarrow> kv_cache_tensor list res" where
  "glm5_tensors E groups L sz nb =
     bindE (mapE (mla_slot E L sz nb) (enumerate 0 (mla_names L))) (\<lambda>a.
     bindE (mapE (idx_slot E groups L sz nb) (enumerate 0 (idx_names L))) (\<lambda>b.
     Ok (concat a @ concat b)))"

text \<open>The local layers of a group by spec.\<close>

definition layers_by_spec :: "'l kv_group \<Rightarrow> ('l, string list) dict" where
  "layers_by_spec g =
     (case kv_cache_spec g of
        UniformTypeKVCacheSpecs _ d \<Rightarrow>
          fold (\<lambda>(name, spec). dict_append spec name) (filter (\<lambda>(name, _). name \<in> set (layer_names g)) d) []
      | Layer s \<Rightarrow> if layer_names g = [] then [] else [(s, layer_names g)])"

fun group_tensors ::
  "'l spec_env \<Rightarrow> kv_layout \<Rightarrow> int option \<Rightarrow> int \<Rightarrow> int \<Rightarrow> ('l, string list) dict \<Rightarrow> int \<Rightarrow> kv_cache_tensor list res"
  where
  "group_tensors E layout fixed nb sz [] byte_offset = Ok []"
| "group_tensors E layout fixed nb sz ((spec, names) # rest) byte_offset =
     (let (ls, bs) = compute_layout_strides E spec nb (length names) layout fixed;
          page = layer_page E spec
      in if page = 0 then Err ZeroDivisionError
         else bindE (group_tensors E layout fixed nb sz rest (byte_offset + int (length names) * page)) (\<lambda>ts.
           Ok (\<lparr>tensor_size = sz, tensor_layers = names, layer_stride = ls, block_stride = bs,
                tensor_offset = byte_offset * max ls page div page\<rparr> # ts)))"

definition generic_config ::
  "'l spec_env \<Rightarrow> vllm_config \<Rightarrow> 'l kv_group list \<Rightarrow> int \<Rightarrow> 'l kv_cache_config res" where
  "generic_config E cfg groups available =
     (let layout = resolved_kv_cache_layout cfg
      in bindE (validate_kv_cache_layout E layout groups) (\<lambda>_.
         bindE (get_kv_cache_bytes_per_block E groups) (\<lambda>bytes_per_block.
         let nb = may_override_num_blocks cfg (available div bytes_per_block);
             fixed = (if is_block_outermost layout then Some bytes_per_block else None)
         in bindE (mapE (\<lambda>g. group_tensors E layout fixed nb (bytes_per_block * nb) (layers_by_spec g) 0) groups) (\<lambda>ts.
            Ok (make_config cfg nb (concat ts) groups)))))"

definition get_kv_cache_config_from_groups ::
  "'l spec_env \<Rightarrow> vllm_config \<Rightarrow> 'l kv_group list \<Rightarrow> int \<Rightarrow> 'l kv_cache_config res" where
  "get_kv_cache_config_from_groups E cfg groups available =
     (if groups = [] then Ok (make_config cfg 1 [] groups)
      else
        bindE (glm5_next_tensor_layout E groups) (\<lambda>layout.
        case layout of
          Some L \<Rightarrow>
            if glm5_bytes_per_block L = 0 then Err ZeroDivisionError
            else
              let nb = may_override_num_blocks cfg (available div glm5_bytes_per_block L)
              in bindE (glm5_tensors E groups L (glm5_bytes_per_block L * nb) nb) (\<lambda>ts.
                 Ok (make_config cfg nb ts groups))
        | None \<Rightarrow> generic_config E cfg groups available))"

subsection \<open>Memory of one request in terms of groups\<close>

text \<open>The blocks a request of the configured length takes from the shared pool.\<close>

definition group_blocks :: "'l spec_env \<Rightarrow> vllm_config \<Rightarrow> 'l kv_group \<Rightarrow> int" where
  "group_blocks E cfg g =
     (case kv_cache_spec g of
        UniformTypeKVCacheSpecs b d \<Rightarrow> max_memory_usage_pages E cfg (UniformTypeKVCacheSpecs b d)
      | Layer s \<Rightarrow> cdiv E (spec_max_memory_usage_bytes E cfg (Layer s)) (layer_page E s))"

definition glm5_request_blocks :: "'l spec_env \<Rightarrow> vllm_config \<Rightarrow> 'l glm5_layout \<Rightarrow> int" where
  "glm5_request_blocks E cfg L =
     max_memory_usage_pages E cfg (attn_spec L)
     + sum_list (map (\<lambda>g. cdiv E (spec_max_memory_usage_bytes E cfg (kv_cache_spec g)) (page_size_bytes E (kv_cache_spec g)))
                     (mamba_groups L))
     + (if tail_names L = [] then 0 else 1)"

definition max_memory_usage_bytes_from_groups :: "'l spec_env \<Rightarrow> 'l kv_group list \<Rightarrow> vllm_config \<Rightarrow> int res" where
  "max_memory_usage_bytes_from_groups E groups cfg =
     (if groups = [] then Ok 0
      else
        bindE (glm5_next_tensor_layout E groups) (\<lambda>layout.
        case layout of
          Some L \<Rightarrow> Ok (glm5_request_blocks E cfg L * glm5_bytes_per_block L)
        | None \<Rightarrow> bindE (pool_bytes_per_block E groups) (\<lambda>bpb. Ok (bpb * sum_list (map (group_blocks E cfg) groups)))))"

definition estimate_max_model_len_from_groups ::
  "'l spec_env \<Rightarrow> 'l kv_group list \<Rightarrow> int \<Rightarrow> vllm_config \<Rightarrow> int res \<times> vllm_config" where
  "estimate_max_model_len_from_groups E groups available cfg =
     search_and_restore (max_memory_usage_bytes_from_groups E groups) available cfg"

definition verdict_result :: "memory_verdict \<Rightarrow> unit res" where
  "verdict_result v = (case v of Enough \<Rightarrow> Ok () | _ \<Rightarrow> Err ValueError)"

text \<open>\<open>check_enough_kv_cache_memory\<close> groups a copy of the specs to learn the size of the null block.\<close>

definition check_enough_kv_cache_memory ::
  "'l spec_env \<Rightarrow> (string, 'l) dict \<Rightarrow> int \<Rightarrow> vllm_config \<Rightarrow> unit res \<times> vllm_config" where
  "check_enough_kv_cache_memory E d available cfg =
     (if d = [] then (Ok (), cfg)
      else case bindE (get_kv_cache_groups E cfg d) (\<lambda>(_, groups).
             if groups = [] then Ok available
             else bindE (pool_bytes_per_block E groups) (\<lambda>b. Ok (available - b))) of
        Inl e \<Rightarrow> (Err e, cfg)
      | Inr check_memory \<Rightarrow>
          (let (r, cfg') = check_enough_memory check_memory
                 (\<lambda>c. Ok (max_memory_usage_bytes E (map (Layer \<circ> snd) d) c)) (estimate_max_model_len E d) cfg
           in (bindE r verdict_result, cfg')))"

subsection \<open>Automatic context length\<close>

fun auto_fit_loop ::
  "'l spec_env \<Rightarrow> ('l kv_group list \<times> int) list \<Rightarrow> int \<Rightarrow> vllm_config \<Rightarrow> int res \<times> vllm_config" where
  "auto_fit_loop E [] auto_fit_max cfg = (Ok auto_fit_max, cfg)"
| "auto_fit_loop E ((groups, avail_mem) # workers) auto_fit_max cfg =
     (if groups = [] then auto_fit_loop E workers auto_fit_max cfg
      else case estimate_max_model_len_from_groups E groups avail_mem cfg of
             (Inl e, cfg') \<Rightarrow> (Err e, cfg')
           | (Inr worker_max, cfg') \<Rightarrow> auto_fit_loop E workers (min auto_fit_max worker_max) cfg')"

definition auto_fit_max_model_len ::
  "'l spec_env \<Rightarrow> 'l kv_group list list \<Rightarrow> int list \<Rightarrow> vllm_config \<Rightarrow> unit res \<times> vllm_config" where
  "auto_fit_max_model_len E projected available cfg =
     (let original_max = max_model_len cfg
      in if list_all (\<lambda>gs. gs = []) projected then (Ok (), cfg)
         else if available = [] then (Err IndexError, cfg)
         else case auto_fit_loop E (zip projected available) original_max cfg of
                (Inl e, cfg') \<Rightarrow> (Err e, cfg')
              | (Inr auto_fit_max, cfg') \<Rightarrow>
                  if auto_fit_max \<le> 0 then (Err ValueError, cfg')
                  else if auto_fit_max \<ge> original_max then (Ok (), cfg')
                  else (Ok (), cfg'\<lparr>max_model_len := auto_fit_max\<rparr>))"

subsection \<open>The configurations of all workers\<close>

definition project_group :: "(string, 'l) dict \<Rightarrow> 'l kv_group \<Rightarrow> 'l kv_group res" where
  "project_group worker_spec g =
     (let names = filter (\<lambda>n. n \<in> set (dict_keys worker_spec)) (layer_names g)
      in bindE (case kv_cache_spec g of
                  UniformTypeKVCacheSpecs b d \<Rightarrow>
                    if names = [] then Ok (kv_cache_spec g)
                    else bindE (mapE (\<lambda>n. bindE (dict_item d n) (\<lambda>s. Ok (n, s))) names) (\<lambda>d'.
                           Ok (UniformTypeKVCacheSpecs b d'))
                | Layer s \<Rightarrow> Ok (Layer s)) (\<lambda>spec.
         Ok \<lparr>layer_names = names, kv_cache_spec = spec, is_eagle_group = is_eagle_group g \<and> names \<noteq> []\<rparr>))"

definition project_kv_cache_groups_to_worker ::
  "'l kv_group list \<Rightarrow> (string, 'l) dict \<Rightarrow> 'l kv_group list res" where
  "project_kv_cache_groups_to_worker groups worker_spec = mapE (project_group worker_spec) groups"

definition merge_layer :: "string \<times> 'l \<Rightarrow> (string, 'l) dict \<Rightarrow> (string, 'l) dict res" where
  "merge_layer x merged =
     (case dict_get merged (fst x) of
        None \<Rightarrow> Ok (dict_set (fst x) (snd x) merged)
      | Some s \<Rightarrow> bindE (assertE (s = snd x)) (\<lambda>_. Ok merged))"

definition merge_worker_specs :: "(string, 'l) dict list \<Rightarrow> (string, 'l) dict res" where
  "merge_worker_specs specs = foldE (foldE merge_layer) specs []"

definition extra_retained_tokens :: "vllm_config \<Rightarrow> int" where
  "extra_retained_tokens cfg =
     (case speculative_config cfg of
        Some sc \<Rightarrow> if use_multi_module_mtp sc then num_speculative_tokens sc - 1 else 0
      | None \<Rightarrow> 0)"

definition tag_sliding_windows :: "'l spec_env \<Rightarrow> vllm_config \<Rightarrow> (string, 'l) dict \<Rightarrow> (string, 'l) dict" where
  "tag_sliding_windows E cfg d =
     map (\<lambda>(n, s). (n, if isinstance E s SlidingWindowSpec
                       then replace_extra_retained_tokens E (extra_retained_tokens cfg) s else s)) d"

definition override_memory :: "'l spec_env \<Rightarrow> int option \<Rightarrow> 'l kv_group list \<times> int \<Rightarrow> int res" where
  "override_memory E override x =
     (case override of
        None \<Rightarrow> Ok (snd x)
      | Some n \<Rightarrow> if fst x = [] then Ok (snd x)
                  else bindE (pool_bytes_per_block E (fst x)) (\<lambda>b.
                         if b = 0 then Err ZeroDivisionError else Ok (n * b)))"

definition reserve_null_block :: "'l spec_env \<Rightarrow> 'l kv_group list \<times> int \<Rightarrow> int res" where
  "reserve_null_block E x =
     (if fst x = [] then Ok (snd x) else bindE (pool_bytes_per_block E (fst x)) (\<lambda>b. Ok (snd x - b)))"

definition check_worker :: "'l spec_env \<Rightarrow> 'l kv_group list \<times> int \<Rightarrow> vllm_config \<Rightarrow> vllm_config res" where
  "check_worker E x cfg =
     (if fst x = [] then Ok cfg
      else
        let (r, cfg') = check_enough_memory (snd x) (max_memory_usage_bytes_from_groups E (fst x))
                          (estimate_max_model_len_from_groups E (fst x)) cfg
        in bindE r (\<lambda>v. bindE (verdict_result v) (\<lambda>_. Ok cfg')))"

definition worker_config ::
  "'l spec_env \<Rightarrow> vllm_config \<Rightarrow> 'l kv_group list \<times> (string, 'l) dict \<times> int \<Rightarrow> 'l kv_cache_config res" where
  "worker_config E cfg x =
     (case x of (groups, spec, available) \<Rightarrow>
        bindE (assertE (sum_list (map (length \<circ> layer_names) groups) = length spec)) (\<lambda>_.
        get_kv_cache_config_from_groups E cfg groups available))"

definition shrink_config ::
  "'l spec_env \<Rightarrow> vllm_config \<Rightarrow> int \<Rightarrow> 'l kv_cache_config \<Rightarrow> 'l kv_cache_config res" where
  "shrink_config E cfg min_num_blocks c =
     (if num_blocks c = min_num_blocks then Ok c
      else bindE (pool_bytes_per_block E (kv_cache_groups c)) (\<lambda>b.
             get_kv_cache_config_from_groups E cfg (kv_cache_groups c) (min_num_blocks * b)))"

definition shrink_configs ::
  "'l spec_env \<Rightarrow> vllm_config \<Rightarrow> 'l kv_cache_config list \<Rightarrow> 'l kv_cache_config list res" where
  "shrink_configs E cfg configs =
     (if configs = [] then Err ValueError
      else mapE (shrink_config E cfg (foldr (min \<circ> num_blocks) configs (num_blocks (hd configs)))) configs)"

text \<open>The memory each worker plans with, and the same less the null block.\<close>

definition planned_memory ::
  "'l spec_env \<Rightarrow> vllm_config \<Rightarrow> 'l kv_group list list \<Rightarrow> int list \<Rightarrow> (int list \<times> int list) res" where
  "planned_memory E cfg projected available =
     bindE (mapE (override_memory E (num_gpu_blocks_override cfg)) (zip projected available)) (\<lambda>avail.
     bindE (mapE (reserve_null_block E) (zip projected avail)) (\<lambda>check. Ok (avail, check)))"

definition fit_model_len :: "'l spec_env \<Rightarrow> 'l kv_group list list \<Rightarrow> int list \<Rightarrow> vllm_config \<Rightarrow> vllm_config res" where
  "fit_model_len E projected check cfg =
     (if original_max_model_len cfg = - 1
      then (let (r, cfg') = auto_fit_max_model_len E projected check cfg in bindE r (\<lambda>_. Ok cfg'))
      else Ok cfg)"

definition plan_workers ::
  "'l spec_env \<Rightarrow> vllm_config \<Rightarrow> 'l kv_group list list \<Rightarrow> (string, 'l) dict list \<Rightarrow> int list \<Rightarrow>
   (vllm_config \<times> 'l kv_cache_config list) res" where
  "plan_workers E cfg projected specs available =
     bindE (planned_memory E cfg projected available) (\<lambda>(avail, check).
     bindE (fit_model_len E projected check cfg) (\<lambda>cfg1.
     bindE (foldE (check_worker E) (zip projected check) cfg1) (\<lambda>cfg2.
     bindE (mapE (worker_config E cfg2) (zip projected (zip specs avail))) (\<lambda>configs.
     bindE (shrink_configs E cfg2 configs) (\<lambda>shrunk. Ok (cfg2, shrunk))))))"

definition get_kv_cache_configs ::
  "'l spec_env \<Rightarrow> vllm_config \<Rightarrow> (string, 'l) dict list \<Rightarrow> int list \<Rightarrow>
   (vllm_config \<times> 'l kv_cache_config list) res" where
  "get_kv_cache_configs E cfg specs available =
     bindE (merge_worker_specs specs) (\<lambda>merged.
     bindE (check_kv_cache_spec_registry E merged) (\<lambda>_.
     bindE (get_kv_cache_groups E cfg (tag_sliding_windows E cfg merged)) (\<lambda>(_, groups).
     bindE (mapE (project_kv_cache_groups_to_worker groups) specs) (\<lambda>projected.
     plan_workers E cfg projected specs available))))"

definition generate_scheduler_kv_cache_config :: "'l kv_cache_config list \<Rightarrow> 'l kv_cache_config res" where
  "generate_scheduler_kv_cache_config configs =
     (if configs = [] then Err IndexError
      else
        bindE (assertE (list_all (\<lambda>c. num_blocks c = num_blocks (hd configs)) configs)) (\<lambda>_.
        bindE (mapE (\<lambda>g. case kv_cache_spec g of
                        UniformTypeKVCacheSpecs _ d \<Rightarrow>
                          (case d of [] \<Rightarrow> Err StopIteration | (_, s) # _ \<Rightarrow> Ok (g\<lparr>kv_cache_spec := Layer s\<rparr>))
                      | Layer s \<Rightarrow> Ok g) (kv_cache_groups (hd configs))) (\<lambda>groups.
        Ok ((hd configs)\<lparr>kv_cache_groups := groups\<rparr>))))"

subsection \<open>All workers agree and a full-length request fits\<close>

interpretation group_est: len_estimator
  "\<lambda>c. max_memory_usage_bytes_from_groups (fst c) (snd c)"
  "\<lambda>c. estimate_max_model_len_from_groups (fst c) (snd c)"
  unfolding estimate_max_model_len_from_groups_def [abs_def] by (rule search_is_estimator)

definition pages_positive :: "'l spec_env \<Rightarrow> bool" where
  "pages_positive E \<longleftrightarrow> (\<forall>s. 0 < page_size_bytes E s)"

text \<open>The blocks a request needs, on either path.\<close>

definition request_blocks :: "'l spec_env \<Rightarrow> vllm_config \<Rightarrow> 'l kv_group list \<Rightarrow> int" where
  "request_blocks E cfg groups =
     (case glm5_next_tensor_layout E groups of
        Inr (Some L) \<Rightarrow> glm5_request_blocks E cfg L
      | _ \<Rightarrow> sum_list (map (group_blocks E cfg) groups))"

lemma foldr_max_ge: "x \<in> set xs \<Longrightarrow> x \<le> foldr max xs (a :: int)"
  by (induction xs) auto

lemma foldr_min_le: "c \<in> set cs \<Longrightarrow> foldr (min \<circ> f) cs a \<le> (f c :: int)"
  by (induction cs) auto

lemma foldr_min_in: "foldr (min \<circ> f) cs (a :: int) \<in> insert a (f ` set cs)"
  by (induction cs) (auto simp: min_def)

lemma foldr_min_hd: "cs \<noteq> [] \<Longrightarrow> \<exists>c \<in> set cs. foldr (min \<circ> f) cs (f (hd cs)) = (f c :: int)"
  using foldr_min_in [of f cs "f (hd cs)"] hd_in_set by blast

lemma glm5_layout_pages:
  assumes "pages_positive E" "glm5_next_tensor_layout E groups = Ok (Some L)"
  shows "0 < glm5_bytes_per_block L"
proof -
  obtain named where L: "mla_names L = map fst (filter (\<lambda>(_, s). tokens_per_state E s = Some 1) named)"
      "idx_names L = map fst (filter (\<lambda>(_, s). compressed E s) named)"
      "mla_page L = hd (first_occurrences (map (layer_page E \<circ> snd) (filter (\<lambda>(_, s). tokens_per_state E s = Some 1) named)))"
      "idx_page L = hd (first_occurrences (map (layer_page E \<circ> snd) (filter (\<lambda>(_, s). compressed E s) named)))"
    and len: "length (first_occurrences (map (layer_page E \<circ> snd) (filter (\<lambda>(_, s). tokens_per_state E s = Some 1) named))) = 1"
      "length (first_occurrences (map (layer_page E \<circ> snd) (filter (\<lambda>(_, s). compressed E s) named))) = 1"
    using assms(2) unfolding glm5_next_tensor_layout_def Let_def
    by (auto simp: bindE_eq_Inr_iff split_beta split: option.splits if_splits)
  have pos: "0 < hd (first_occurrences (map (layer_page E \<circ> snd) xs)) \<and> xs \<noteq> []"
    if "length (first_occurrences (map (layer_page E \<circ> snd) xs)) = 1" for xs :: "(string \<times> 'a) list"
    using assms(1) that by (cases xs) (auto simp: pages_positive_def)
  show ?thesis using pos [OF len(1)] pos [OF len(2)]
    unfolding glm5_bytes_per_block_def L by (intro add_pos_pos mult_pos_pos) simp_all
qed

lemma pool_bytes_pos:
  assumes "pages_positive E" "pool_bytes_per_block E groups = Ok b"
  shows "0 < b"
proof -
  obtain layout where l: "glm5_next_tensor_layout E groups = Ok layout"
    "(case layout of Some L \<Rightarrow> Ok (glm5_bytes_per_block L) | None \<Rightarrow> max_group_bytes E groups) = Ok b"
    using assms(2) by (auto simp: pool_bytes_per_block_def get_kv_cache_bytes_per_block_def bindE_eq_Inr_iff)
  show ?thesis
  proof (cases layout)
    case None
    then show ?thesis using l(2) by (auto simp: max_group_bytes_def bindE_eq_Inr_iff split: if_splits)
  next
    case (Some L)
    then show ?thesis using l glm5_layout_pages [OF assms(1)] by auto
  qed
qed

lemma max_memory_from_groups:
  assumes "max_memory_usage_bytes_from_groups E groups cfg = Ok v" "groups \<noteq> []"
  shows "\<exists>b. pool_bytes_per_block E groups = Ok b \<and> v = request_blocks E cfg groups * b"
proof -
  obtain layout where l: "glm5_next_tensor_layout E groups = Ok layout"
    using assms by (auto simp: max_memory_usage_bytes_from_groups_def bindE_eq_Inr_iff)
  show ?thesis using assms l
    by (cases layout)
      (auto simp: max_memory_usage_bytes_from_groups_def request_blocks_def pool_bytes_per_block_def
        get_kv_cache_bytes_per_block_def bindE_eq_Inr_iff mult.commute)
qed

lemma config_from_groups_blocks:
  assumes "get_kv_cache_config_from_groups E cfg groups available = Ok c" "groups \<noteq> []"
  shows "\<exists>b. pool_bytes_per_block E groups = Ok b \<and> num_blocks c = may_override_num_blocks cfg (available div b)"
    and "kv_cache_groups c = groups"
proof -
  obtain layout where l: "glm5_next_tensor_layout E groups = Ok layout"
    using assms by (auto simp: get_kv_cache_config_from_groups_def bindE_eq_Inr_iff)
  have "(\<exists>b. pool_bytes_per_block E groups = Ok b \<and> num_blocks c = may_override_num_blocks cfg (available div b)) \<and>
      kv_cache_groups c = groups"
  proof (cases layout)
    case None
    then show ?thesis using assms l
      by (auto simp: get_kv_cache_config_from_groups_def generic_config_def pool_bytes_per_block_def Let_def
          make_config_def bindE_eq_Inr_iff)
  next
    case (Some L)
    then show ?thesis using assms l
      by (auto simp: get_kv_cache_config_from_groups_def get_kv_cache_bytes_per_block_def pool_bytes_per_block_def
          Let_def make_config_def bindE_eq_Inr_iff split: if_splits)
  qed
  then show "\<exists>b. pool_bytes_per_block E groups = Ok b \<and> num_blocks c = may_override_num_blocks cfg (available div b)"
    and "kv_cache_groups c = groups" by blast+
qed

lemma planned_memory_worker:
  assumes "planned_memory E cfg projected available = Ok (avail, check)"
  shows "length avail = min (length projected) (length available)" "length check = length avail"
    and "i < length avail \<Longrightarrow> projected ! i \<noteq> [] \<Longrightarrow>
           \<exists>b. pool_bytes_per_block E (projected ! i) = Ok b \<and> check ! i = avail ! i - b \<and>
               avail ! i = (case num_gpu_blocks_override cfg of None \<Rightarrow> available ! i | Some n \<Rightarrow> n * b)"
proof -
  have a: "mapE (override_memory E (num_gpu_blocks_override cfg)) (zip projected available) = Ok avail"
    and c: "mapE (reserve_null_block E) (zip projected avail) = Ok check"
    using assms by (auto simp: planned_memory_def bindE_eq_Inr_iff)
  show len: "length avail = min (length projected) (length available)" "length check = length avail"
    using mapE_length [OF a] mapE_length [OF c] by simp_all
  assume i: "i < length avail" and ne: "projected ! i \<noteq> []"
  obtain b where "pool_bytes_per_block E (projected ! i) = Ok b" "avail ! i - b = check ! i"
    using mapE_nth [OF c, of i] i len ne by (auto simp: reserve_null_block_def bindE_eq_Inr_iff)
  moreover have "override_memory E (num_gpu_blocks_override cfg) (projected ! i, available ! i) = Ok (avail ! i)"
    using mapE_nth [OF a, of i] i len by simp
  ultimately show "\<exists>b. pool_bytes_per_block E (projected ! i) = Ok b \<and> check ! i = avail ! i - b \<and>
               avail ! i = (case num_gpu_blocks_override cfg of None \<Rightarrow> available ! i | Some n \<Rightarrow> n * b)"
    using ne by (auto simp: override_memory_def split: option.splits if_splits)
qed

lemma check_worker_ok:
  assumes "check_worker E (groups, m) cfg = Ok cfg'"
  shows "cfg' = cfg"
    and "groups \<noteq> [] \<Longrightarrow> 0 < m \<and> (\<exists>v. max_memory_usage_bytes_from_groups E groups cfg = Ok v \<and> v \<le> m)"
proof -
  let ?c = "check_enough_memory m (max_memory_usage_bytes_from_groups E groups) (estimate_max_model_len_from_groups E groups) cfg"
  have keeps: "snd ?c = cfg" using group_est.check_keeps_config [of m "(E, groups)" cfg] by simp
  then show "cfg' = cfg" using assms
    by (auto simp: check_worker_def bindE_eq_Inr_iff split_beta split: if_splits)
  assume "groups \<noteq> []"
  then obtain v where "fst ?c = Ok v" "verdict_result v = Ok ()" using assms
    by (auto simp: check_worker_def bindE_eq_Inr_iff split_beta)
  then have "fst ?c = Ok Enough" by (cases v) (auto simp: verdict_result_def)
  then show "0 < m \<and> (\<exists>v. max_memory_usage_bytes_from_groups E groups cfg = Ok v \<and> v \<le> m)"
    using group_est.check_enough_iff [of m "(E, groups)" cfg] by simp
qed

lemma check_all_workers:
  assumes "foldE (check_worker E) xs cfg = Ok cfg'"
  shows "cfg' = cfg" and "(groups, m) \<in> set xs \<Longrightarrow> groups \<noteq> [] \<Longrightarrow>
    0 < m \<and> (\<exists>v. max_memory_usage_bytes_from_groups E groups cfg = Ok v \<and> v \<le> m)"
proof -
  have "cfg' = cfg \<and> (\<forall>(groups, m) \<in> set xs. groups \<noteq> [] \<longrightarrow>
    0 < m \<and> (\<exists>v. max_memory_usage_bytes_from_groups E groups cfg = Ok v \<and> v \<le> m))"
    using assms
  proof (induction xs arbitrary: cfg)
    case (Cons x xs)
    obtain groups m where x: "x = (groups, m)" by (cases x)
    then obtain c where c: "check_worker E (groups, m) cfg = Ok c" "foldE (check_worker E) xs c = Ok cfg'"
      using Cons.prems by (auto simp: bindE_eq_Inr_iff)
    have "c = cfg" by (rule check_worker_ok(1) [OF c(1)])
    then show ?case using Cons.IH c(2) check_worker_ok(2) [OF c(1)] x by auto
  qed simp
  then show "cfg' = cfg" "(groups, m) \<in> set xs \<Longrightarrow> groups \<noteq> [] \<Longrightarrow>
    0 < m \<and> (\<exists>v. max_memory_usage_bytes_from_groups E groups cfg = Ok v \<and> v \<le> m)" by auto
qed

lemma auto_fit_loop_config: "snd (auto_fit_loop E workers m cfg) = cfg"
proof (induction workers arbitrary: m)
  case (Cons w workers)
  obtain groups a where w: "w = (groups, a)" by (cases w)
  have "snd (estimate_max_model_len_from_groups E groups a cfg) = cfg"
    using group_est.restores [of "(E, groups)" a cfg] by simp
  then show ?case using Cons.IH w
    by (cases "estimate_max_model_len_from_groups E groups a cfg") (auto split: sum.split)
qed simp

lemma auto_fit_config:
  "\<exists>n. snd (auto_fit_max_model_len E projected available cfg) = cfg\<lparr>max_model_len := n\<rparr>"
proof (cases "auto_fit_loop E (zip projected available) (max_model_len cfg) cfg")
  case (Pair r c)
  then have c: "c = cfg" using auto_fit_loop_config [of E "zip projected available" "max_model_len cfg" cfg] by simp
  have same: "\<exists>n. cfg = cfg\<lparr>max_model_len := n\<rparr>" by (rule exI [of _ "max_model_len cfg"]) simp
  then show ?thesis
    by (auto simp: auto_fit_max_model_len_def Let_def Pair c intro: same split: sum.split)
qed

text \<open>Every worker's blocks before and after shrinking, given the memory it planned with.\<close>

lemma worker_config_blocks:
  assumes "pages_positive E" "worker_config E cfg (groups, spec, a) = Ok c" "groups \<noteq> []"
    and "pool_bytes_per_block E groups = Ok b"
    and "\<And>n. num_gpu_blocks_override cfg = Some n \<Longrightarrow> a = n * b"
  shows "num_blocks c = a div b" "kv_cache_groups c = groups"
proof -
  have c: "get_kv_cache_config_from_groups E cfg groups a = Ok c"
    using assms(2) by (auto simp: worker_config_def bindE_eq_Inr_iff)
  have "0 < b" by (rule pool_bytes_pos [OF assms(1,4)])
  then show "num_blocks c = a div b"
    using config_from_groups_blocks(1) [OF c assms(3)] assms(4,5)
    by (cases "num_gpu_blocks_override cfg") (auto simp: may_override_num_blocks_def)
  show "kv_cache_groups c = groups" by (rule config_from_groups_blocks(2) [OF c assms(3)])
qed

lemma shrink_config_blocks:
  assumes "pages_positive E" "shrink_config E cfg n c = Ok c'" "kv_cache_groups c \<noteq> []"
    and "num_gpu_blocks_override cfg \<noteq> None \<Longrightarrow> num_gpu_blocks_override cfg = Some n"
  shows "num_blocks c' = n" "kv_cache_groups c' = kv_cache_groups c"
proof -
  have "num_blocks c' = n \<and> kv_cache_groups c' = kv_cache_groups c"
  proof (cases "num_blocks c = n")
    case True
    then show ?thesis using assms(2) by (auto simp: shrink_config_def)
  next
    case False
    then obtain b where b: "pool_bytes_per_block E (kv_cache_groups c) = Ok b"
      and c': "get_kv_cache_config_from_groups E cfg (kv_cache_groups c) (n * b) = Ok c'"
      using assms(2) by (auto simp: shrink_config_def bindE_eq_Inr_iff)
    have "0 < b" by (rule pool_bytes_pos [OF assms(1) b])
    then show ?thesis using config_from_groups_blocks [OF c' assms(3)] b assms(4)
      by (cases "num_gpu_blocks_override cfg") (auto simp: may_override_num_blocks_def)
  qed
  then show "num_blocks c' = n" "kv_cache_groups c' = kv_cache_groups c" by blast+
qed

lemma plan_workers_steps:
  assumes "plan_workers E cfg projected specs available = Ok (cfg', configs)"
  obtains avail check planned where
    "planned_memory E cfg projected available = Ok (avail, check)"
    "\<exists>n. cfg' = cfg\<lparr>max_model_len := n\<rparr>"
    "\<And>i. i < length avail \<Longrightarrow> projected ! i \<noteq> [] \<Longrightarrow>
       \<exists>v. max_memory_usage_bytes_from_groups E (projected ! i) cfg' = Ok v \<and> v \<le> check ! i"
    "mapE (worker_config E cfg') (zip projected (zip specs avail)) = Ok planned"
    "shrink_configs E cfg' planned = Ok configs"
proof -
  obtain avail check cfg1 where pm: "planned_memory E cfg projected available = Ok (avail, check)"
    and cfg1: "fit_model_len E projected check cfg = Ok cfg1"
    and chk: "foldE (check_worker E) (zip projected check) cfg1 = Ok cfg'"
    and rest: "bindE (mapE (worker_config E cfg') (zip projected (zip specs avail))) (\<lambda>configs.
       bindE (shrink_configs E cfg' configs) (\<lambda>shrunk. Ok (cfg', shrunk))) = Ok (cfg', configs)"
    using assms unfolding plan_workers_def by (auto simp: bindE_eq_Inr_iff split_beta)
  have "\<exists>n. cfg1 = cfg\<lparr>max_model_len := n\<rparr>"
    using cfg1 auto_fit_config [of E projected check cfg]
    by (cases "original_max_model_len cfg = - 1")
      (auto simp: fit_model_len_def split_beta bindE_eq_Inr_iff intro: exI [of _ "max_model_len cfg"])
  moreover have "cfg' = cfg1" by (rule check_all_workers(1) [OF chk])
  moreover have "\<exists>v. max_memory_usage_bytes_from_groups E (projected ! i) cfg1 = Ok v \<and> v \<le> check ! i"
    if i: "i < length avail" and ne: "projected ! i \<noteq> []" for i
  proof -
    have "(projected ! i, check ! i) \<in> set (zip projected check)"
      using i planned_memory_worker(1,2) [OF pm] by (auto simp: in_set_zip)
    then show ?thesis using check_all_workers(2) [OF chk] ne by blast
  qed
  ultimately show thesis using that [OF pm] rest by (auto simp: bindE_eq_Inr_iff)
qed

lemma project_length: "project_kv_cache_groups_to_worker groups spec = Ok gs \<Longrightarrow> length gs = length groups"
  unfolding project_kv_cache_groups_to_worker_def by (rule mapE_length)

text \<open>The plan of one worker \<open>i\<close>: its number of blocks is the quotient of its planned memory, and a
  request leaves one block over.\<close>

lemma planned_worker:
  assumes "pages_positive E" "planned_memory E cfg projected available = Ok (avail, check)"
    and cfg': "cfg' = cfg\<lparr>max_model_len := m\<rparr>"
    and "mapE (worker_config E cfg') (zip projected (zip specs avail)) = Ok planned"
    and i: "i < length planned" and ne: "projected ! i \<noteq> []"
    and "\<exists>v. max_memory_usage_bytes_from_groups E (projected ! i) cfg' = Ok v \<and> v \<le> check ! i"
  obtains b where "pool_bytes_per_block E (projected ! i) = Ok b" "0 < b"
    "num_blocks (planned ! i) = avail ! i div b" "kv_cache_groups (planned ! i) = projected ! i"
    "request_blocks E cfg' (projected ! i) + 1 \<le> num_blocks (planned ! i)"
    "avail ! i = (case num_gpu_blocks_override cfg of None \<Rightarrow> available ! i | Some n \<Rightarrow> n * b)"
proof -
  have len: "i < length projected" "i < length specs" "i < length avail"
    using mapE_length [OF assms(4)] i by auto
  obtain b where b: "pool_bytes_per_block E (projected ! i) = Ok b" "check ! i = avail ! i - b"
    "avail ! i = (case num_gpu_blocks_override cfg of None \<Rightarrow> available ! i | Some n \<Rightarrow> n * b)"
    using planned_memory_worker(3) [OF assms(2) len(3) ne] by blast
  have pos: "0 < b" by (rule pool_bytes_pos [OF assms(1) b(1)])
  have wc: "worker_config E cfg' (projected ! i, specs ! i, avail ! i) = Ok (planned ! i)"
    using mapE_nth [OF assms(4), of i] len by simp
  have over: "avail ! i = n * b" if "num_gpu_blocks_override cfg' = Some n" for n
    using that b(3) cfg' by simp
  note nb = worker_config_blocks [OF assms(1) wc ne b(1) over]
  have "request_blocks E cfg' (projected ! i) * b \<le> avail ! i - b"
    using assms(7) max_memory_from_groups [OF _ ne] b(1,2) by fastforce
  then have "(request_blocks E cfg' (projected ! i) + 1) * b \<le> avail ! i" by (simp add: distrib_right)
  then have "request_blocks E cfg' (projected ! i) + 1 \<le> avail ! i div b"
    using zdiv_mono1 [of _ "avail ! i" b] pos by fastforce
  then show thesis using that b(1,3) pos nb by simp
qed

text \<open>Without groups a worker gets the one block that holds the null block.\<close>

lemma empty_worker_config:
  assumes "worker_config E cfg ([], spec, a) = Ok c"
  shows "num_blocks c = 1" "kv_cache_groups c = []"
  using assms by (auto simp: worker_config_def get_kv_cache_config_from_groups_def make_config_def bindE_eq_Inr_iff)

lemma shrink_configs_steps:
  assumes "shrink_configs E cfg planned = Ok configs"
  obtains n where "\<And>i. i < length planned \<Longrightarrow> n \<le> num_blocks (planned ! i)" "\<exists>i < length planned. n = num_blocks (planned ! i)"
    "\<And>i. i < length planned \<Longrightarrow> shrink_config E cfg n (planned ! i) = Ok (configs ! i)" "length configs = length planned"
proof -
  let ?n = "foldr (min \<circ> num_blocks) planned (num_blocks (hd planned))"
  have ne: "planned \<noteq> []" and m: "mapE (shrink_config E cfg ?n) planned = Ok configs"
    using assms by (auto simp: shrink_configs_def split: if_splits)
  have "\<exists>i < length planned. ?n = num_blocks (planned ! i)"
    using foldr_min_hd [OF ne, of num_blocks] by (metis in_set_conv_nth)
  then show thesis
    using that [of ?n] foldr_min_le [of _ planned num_blocks] mapE_nth [OF m] mapE_length [OF m] by simp
qed

lemma plan_workers_agree:
  assumes "pages_positive E" "plan_workers E cfg projected specs available = Ok (cfg', configs)"
    and uniform: "\<forall>gs \<in> set projected. length gs = k"
  shows "\<exists>m n. cfg' = cfg\<lparr>max_model_len := m\<rparr> \<and> (\<forall>c \<in> set configs. num_blocks c = n) \<and> configs \<noteq> [] \<and>
    (\<forall>i < length configs. kv_cache_groups (configs ! i) \<noteq> [] \<longrightarrow>
       (\<exists>b. pool_bytes_per_block E (kv_cache_groups (configs ! i)) = Ok b \<and> 0 < b \<and>
            (num_gpu_blocks_override cfg = None \<longrightarrow> n * b \<le> available ! i))) \<and>
    (k = 0 \<and> kv_cache_groups (hd configs) = [] \<or>
     (\<exists>c \<in> set configs. request_blocks E cfg' (kv_cache_groups c) + 1 \<le> n))"
proof -
  obtain avail check planned where pm: "planned_memory E cfg projected available = Ok (avail, check)"
    and "\<exists>m. cfg' = cfg\<lparr>max_model_len := m\<rparr>"
    and fits: "\<And>i. i < length avail \<Longrightarrow> projected ! i \<noteq> [] \<Longrightarrow>
       \<exists>v. max_memory_usage_bytes_from_groups E (projected ! i) cfg' = Ok v \<and> v \<le> check ! i"
    and wc: "mapE (worker_config E cfg') (zip projected (zip specs avail)) = Ok planned"
    and sh: "shrink_configs E cfg' planned = Ok configs"
    using plan_workers_steps [OF assms(2)] by blast
  then obtain m where m: "cfg' = cfg\<lparr>max_model_len := m\<rparr>" by blast
  obtain n where n: "\<And>i. i < length planned \<Longrightarrow> n \<le> num_blocks (planned ! i)"
    "\<exists>i < length planned. n = num_blocks (planned ! i)"
    "\<And>i. i < length planned \<Longrightarrow> shrink_config E cfg' n (planned ! i) = Ok (configs ! i)"
    "length configs = length planned"
    using shrink_configs_steps [OF sh] by metis
  have len: "i < length projected \<and> i < length avail" if "i < length planned" for i
    using mapE_length [OF wc] that by auto
  have k: "length (projected ! i) = k" if "i < length planned" for i using uniform len that by simp
  show ?thesis
  proof (cases "k = 0")
    case True
    have c: "num_blocks (planned ! i) = 1 \<and> kv_cache_groups (planned ! i) = []" if "i < length planned" for i
    proof -
      have z: "i < length (zip projected (zip specs avail))" using mapE_length [OF wc] that by simp
      have "projected ! i = []" using k [OF that] True by simp
      then have "worker_config E cfg' ([], specs ! i, avail ! i) = Ok (planned ! i)"
        using mapE_nth [OF wc z] z by simp
      then show ?thesis using empty_worker_config by blast
    qed
    then have "n = 1" using n(2) by auto
    then have same: "configs ! i = planned ! i" if "i < length planned" for i
      using n(3) [OF that] c [OF that] by (simp add: shrink_config_def)
    have one: "num_blocks x = 1" if "x \<in> set configs" for x
      using that same c n(4) by (metis in_set_conv_nth)
    have none: "kv_cache_groups (configs ! i) = []" if "i < length configs" for i using that same c n(4) by simp
    have "configs \<noteq> []" using n(2,4) by auto
    moreover from this have "kv_cache_groups (hd configs) = []" using none [of 0] by (simp add: hd_conv_nth)
    ultimately show ?thesis
      by (rule_tac exI [of _ m], rule_tac exI [of _ 1], intro conjI m ballI allI impI disjI1)
        (simp_all add: one none True)
  next
    case False
    then have ne: "projected ! i \<noteq> []" if "i < length planned" for i using k [OF that] by auto
    have W: "\<exists>b. pool_bytes_per_block E (projected ! i) = Ok b \<and> 0 < b \<and>
        num_blocks (planned ! i) = avail ! i div b \<and> kv_cache_groups (planned ! i) = projected ! i \<and>
        request_blocks E cfg' (projected ! i) + 1 \<le> num_blocks (planned ! i) \<and>
        avail ! i = (case num_gpu_blocks_override cfg of None \<Rightarrow> available ! i | Some n \<Rightarrow> n * b)"
      if i: "i < length planned" for i
      using planned_worker [OF assms(1) pm m wc i ne [OF i] fits [OF _ ne [OF i]]] len [OF i] by metis
    obtain j where j: "j < length planned" "n = num_blocks (planned ! j)" using n(2) by blast
    have over: "num_gpu_blocks_override cfg' = Some n" if "num_gpu_blocks_override cfg' \<noteq> None"
      using W [OF j(1)] that m j(2) by auto
    have C: "num_blocks (configs ! i) = n" "kv_cache_groups (configs ! i) = projected ! i" if i: "i < length planned" for i
    proof -
      have g: "kv_cache_groups (planned ! i) = projected ! i" using W [OF i] by blast
      then have "kv_cache_groups (planned ! i) \<noteq> []" using ne [OF i] by simp
      from shrink_config_blocks [OF assms(1) n(3) [OF i] this over] g
      show "num_blocks (configs ! i) = n" "kv_cache_groups (configs ! i) = projected ! i" by simp_all
    qed
    have fit: "n * b \<le> available ! i"
      if i: "i < length planned" and none: "num_gpu_blocks_override cfg = None"
        and b: "pool_bytes_per_block E (projected ! i) = Ok b" for i b
    proof -
      have "n \<le> available ! i div b" "0 < b" using W [OF i] none b n(1) [OF i] by auto
      then have "n * b \<le> available ! i div b * b" by simp
      also have "\<dots> \<le> available ! i" using \<open>0 < b\<close> by (metis div_mult_mod_eq le_add_same_cancel1 pos_mod_sign)
      finally show ?thesis .
    qed
    have mem: "configs ! j \<in> set configs" "request_blocks E cfg' (kv_cache_groups (configs ! j)) + 1 \<le> n"
      using W [OF j(1)] j C(2) [OF j(1)] n(4) by auto
    have nb: "num_blocks c = n" if "c \<in> set configs" for c using that C(1) n(4) by (metis in_set_conv_nth)
    have mem2: "\<exists>b. pool_bytes_per_block E (kv_cache_groups (configs ! i)) = Ok b \<and> 0 < b \<and>
            (num_gpu_blocks_override cfg = None \<longrightarrow> n * b \<le> available ! i)" if i: "i < length configs" for i
      using W [of i] fit [of i] C(2) [of i] i n(4) by auto
    have "configs \<noteq> []" using mem(1) by auto
    moreover have "\<exists>c \<in> set configs. request_blocks E cfg' (kv_cache_groups c) + 1 \<le> n" using mem by blast
    ultimately show ?thesis
      by (rule_tac exI [of _ m], rule_tac exI [of _ n], intro conjI m ballI allI impI disjI2)
        (simp_all add: nb mem2)
  qed
qed

lemma configs_steps:
  assumes "get_kv_cache_configs E cfg specs available = Ok (cfg', configs)"
  obtains groups projected where "mapE (project_kv_cache_groups_to_worker groups) specs = Ok projected"
    "plan_workers E cfg projected specs available = Ok (cfg', configs)"
  using assms unfolding get_kv_cache_configs_def by (auto simp: bindE_eq_Inr_iff split_beta)

lemma projected_lengths:
  assumes "mapE (project_kv_cache_groups_to_worker groups) specs = Ok projected"
  shows "\<forall>gs \<in> set projected. length gs = length groups"
proof
  fix gs assume "gs \<in> set projected"
  then obtain i where "i < length projected" "gs = projected ! i" by (metis in_set_conv_nth)
  then show "length gs = length groups"
    using mapE_nth [OF assms, of i] mapE_length [OF assms] project_length by metis
qed

text \<open>C8: the configurations that \<open>get_kv_cache_configs\<close> returns, when every worker has a KV cache group and a
  request of the final context length needs the same number \<open>T\<close> of blocks on every worker.  All workers have
  the same number of blocks, so the scheduler's assertion on it holds; the configuration is changed at most
  in its context length; such a request fits with one block to spare for the null block; and, unless
  \<open>num_gpu_blocks_override\<close> is set, no worker's allocation exceeds the memory it reported.  (With an override
  the allocation is the user's number of blocks, whatever the memory.)\<close>

theorem kv_cache_configs_agree:
  assumes "pages_positive E" and "get_kv_cache_configs E cfg specs available = Ok (cfg', configs)"
    and "\<forall>c \<in> set configs. kv_cache_groups c \<noteq> []"
    and "\<forall>c \<in> set configs. request_blocks E cfg' (kv_cache_groups c) = T"
  shows "\<exists>m n. cfg' = cfg\<lparr>max_model_len := m\<rparr> \<and> (\<forall>c \<in> set configs. num_blocks c = n) \<and> T + 1 \<le> n \<and>
    generate_scheduler_kv_cache_config configs \<noteq> Err AssertionError \<and>
    (\<forall>i < length configs. \<exists>b. pool_bytes_per_block E (kv_cache_groups (configs ! i)) = Ok b \<and> 0 < b \<and>
       (num_gpu_blocks_override cfg = None \<longrightarrow> n * b \<le> available ! i))"
proof -
  obtain groups projected where p: "mapE (project_kv_cache_groups_to_worker groups) specs = Ok projected"
    and plan: "plan_workers E cfg projected specs available = Ok (cfg', configs)"
    using configs_steps [OF assms(2)] .
  obtain m n where m: "cfg' = cfg\<lparr>max_model_len := m\<rparr>" and n: "\<forall>c \<in> set configs. num_blocks c = n" "configs \<noteq> []"
    and mem: "\<forall>i < length configs. kv_cache_groups (configs ! i) \<noteq> [] \<longrightarrow>
       (\<exists>b. pool_bytes_per_block E (kv_cache_groups (configs ! i)) = Ok b \<and> 0 < b \<and>
            (num_gpu_blocks_override cfg = None \<longrightarrow> n * b \<le> available ! i))"
    and fit: "length groups = 0 \<and> kv_cache_groups (hd configs) = [] \<or>
       (\<exists>c \<in> set configs. request_blocks E cfg' (kv_cache_groups c) + 1 \<le> n)"
    using plan_workers_agree [OF assms(1) plan projected_lengths [OF p]] by blast
  have T: "T + 1 \<le> n" using fit assms(3,4) hd_in_set [OF n(2)] by auto
  have sched: "generate_scheduler_kv_cache_config configs \<noteq> Err AssertionError"
    using n hd_in_set [OF n(2)]
    by (auto simp: generate_scheduler_kv_cache_config_def list_all_iff bindE_eq_Inl_iff dest!: mapE_Err
        split: kv_spec.splits list.splits)
  have blocks: "\<exists>b. pool_bytes_per_block E (kv_cache_groups (configs ! i)) = Ok b \<and> 0 < b \<and>
       (num_gpu_blocks_override cfg = None \<longrightarrow> n * b \<le> available ! i)" if "i < length configs" for i
    using mem assms(3) that by simp
  show ?thesis
    by (rule exI [of _ m], rule exI [of _ n]) (intro conjI m n(1) T sched allI impI blocks)
qed

definition demo_workers :: "(string, demo_layer) dict list" where
  "demo_workers =
     [[(''f0'', demo_layer_of FullAttentionSpec 4 4), (''s0'', demo_layer_of SlidingWindowSpec 3 4)],
      [(''f1'', demo_layer_of FullAttentionSpec 4 4), (''s1'', demo_layer_of SlidingWindowSpec 3 4)]]"

lemma demo_pages: "pages_positive (demo_spec_env\<lparr>page_size_bytes := \<lambda>s. max 1 (page_size_bytes demo_spec_env s)\<rparr>)"
  by (auto simp: pages_positive_def less_max_iff_disj)

theorem kv_cache_configs_agree_witness:
  "\<exists>cfg' configs n. get_kv_cache_configs (demo_spec_env\<lparr>page_size_bytes := \<lambda>s. max 1 (page_size_bytes demo_spec_env s)\<rparr>)
       demo_config demo_workers [900, 800] = Ok (cfg', configs) \<and>
     (\<forall>c \<in> set configs. num_blocks c = n) \<and> 33 \<le> n"
proof -
  let ?E = "demo_spec_env\<lparr>page_size_bytes := \<lambda>s. max 1 (page_size_bytes demo_spec_env s)\<rparr>"
  let ?r = "get_kv_cache_configs ?E demo_config demo_workers [900, 800]"
  have "(case ?r of Inl e \<Rightarrow> False
    | Inr (cfg', configs) \<Rightarrow> list_all (\<lambda>c. kv_cache_groups c \<noteq> [] \<and> request_blocks ?E cfg' (kv_cache_groups c) = 32) configs)"
    by code_simp
  then obtain cfg' configs where r: "?r = Ok (cfg', configs)" "\<forall>c \<in> set configs. kv_cache_groups c \<noteq> []"
    "\<forall>c \<in> set configs. request_blocks ?E cfg' (kv_cache_groups c) = 32"
    by (auto simp: list_all_iff split: sum.splits prod.splits)
  show ?thesis using kv_cache_configs_agree [OF demo_pages r] r(1) by auto
qed

subsection \<open>The automatic context length\<close>

text \<open>A worker with groups whose memory grows with the length.\<close>

definition worker_grows ::
  "'l spec_env \<Rightarrow> ('l kv_group list \<Rightarrow> int \<Rightarrow> int) \<Rightarrow> vllm_config \<Rightarrow> 'l kv_group list \<times> int \<Rightarrow> bool" where
  "worker_grows E amount cfg w \<longleftrightarrow>
     (fst w = [] \<or> grows_with_len (max_memory_usage_bytes_from_groups E (fst w)) (amount (fst w)) cfg)"

definition fits_workers :: "('l kv_group list \<Rightarrow> int \<Rightarrow> int) \<Rightarrow> ('l kv_group list \<times> int) list \<Rightarrow> int \<Rightarrow> bool" where
  "fits_workers amount ws n \<longleftrightarrow> (\<forall>(gs, a) \<in> set ws. gs \<noteq> [] \<longrightarrow> amount gs n \<le> a)"

lemma worker_estimate:
  assumes "worker_grows E amount cfg (gs, a)" "gs \<noteq> []" "1 \<le> max_model_len cfg"
  obtains n where "estimate_max_model_len_from_groups E gs a cfg = (Ok n, cfg)" "0 \<le> n" "n \<le> max_model_len cfg"
    "\<And>k. 1 \<le> k \<Longrightarrow> k \<le> n \<Longrightarrow> amount gs k \<le> a" "\<And>k. n < k \<Longrightarrow> k \<le> max_model_len cfg \<Longrightarrow> a < amount gs k"
proof -
  let ?M = "max_model_len cfg"
  have g: "grows_with_len (max_memory_usage_bytes_from_groups E gs) (amount gs) cfg"
    using assms(1,2) by (simp add: worker_grows_def)
  have mono: "amount gs x \<le> amount gs y" if "1 \<le> x" "x \<le> y" "y \<le> ?M" for x y
    using g that by (auto simp: grows_with_len_def)
  have snd: "snd (estimate_max_model_len_from_groups E gs a cfg) = cfg"
    using group_est.restores [of "(E, gs)" a cfg] by simp
  show thesis
  proof (cases "amount gs 1 \<le> a")
    case True
    obtain n where n: "fst (estimate_max_model_len_from_groups E gs a cfg) = Ok n" "longest_fit (amount gs) a ?M n"
      using group_est.longest [of "(E, gs)" "amount gs" cfg a] g assms(3) True by auto
    have "amount gs k \<le> a" if "1 \<le> k" "k \<le> n" for k
      using n(2) that mono [of k n] by (auto simp: longest_fit_def)
    then show thesis using that [of n] n snd by (auto simp: longest_fit_def prod_eq_iff)
  next
    case False
    have "max_memory_usage_bytes_from_groups E gs (cfg\<lparr>max_model_len := 1\<rparr>) = Ok (amount gs 1)"
      using g assms(3) by (simp add: grows_with_len_def)
    then have "fst (estimate_max_model_len_from_groups E gs a cfg) = Ok 0"
      using group_est.none_fits [of "(E, gs)" cfg "amount gs 1" a] False by simp
    moreover have "a < amount gs k" if "0 < k" "k \<le> ?M" for k
      using False mono [of 1 k] that by simp
    ultimately show thesis using that [of 0] snd assms(3) by (auto simp: prod_eq_iff)
  qed
qed

lemma auto_fit_loop_longest:
  assumes "\<forall>w \<in> set ws. worker_grows E amount cfg w" "1 \<le> max_model_len cfg" "0 \<le> M" "M \<le> max_model_len cfg"
  shows "\<exists>r. auto_fit_loop E ws M cfg = (Ok r, cfg) \<and> 0 \<le> r \<and> r \<le> M \<and> (0 < r \<longrightarrow> fits_workers amount ws r) \<and>
           (\<forall>k \<in> {r<..M}. \<not> fits_workers amount ws k)"
  using assms(1,3,4)
proof (induction ws arbitrary: M)
  case (Cons w ws)
  obtain gs a where w: "w = (gs, a)" by (cases w)
  show ?case
  proof (cases "gs = []")
    case True
    then show ?thesis using Cons w by (simp add: fits_workers_def)
  next
    case False
    obtain n where n: "estimate_max_model_len_from_groups E gs a cfg = (Ok n, cfg)" "0 \<le> n" "n \<le> max_model_len cfg"
      "\<And>k. 1 \<le> k \<Longrightarrow> k \<le> n \<Longrightarrow> amount gs k \<le> a" "\<And>k. n < k \<Longrightarrow> k \<le> max_model_len cfg \<Longrightarrow> a < amount gs k"
      using worker_estimate [of E amount cfg gs a] Cons.prems(1) w False assms(2) by auto
    obtain r where r: "auto_fit_loop E ws (min M n) cfg = (Ok r, cfg)" "0 \<le> r" "r \<le> min M n"
      "0 < r \<longrightarrow> fits_workers amount ws r" "\<forall>k \<in> {r<..min M n}. \<not> fits_workers amount ws k"
      using Cons.IH [of "min M n"] Cons.prems n(2) min.coboundedI1 [OF Cons.prems(3), of n] by auto
    have "\<not> fits_workers amount (w # ws) k" if "k \<in> {r<..M}" for k
    proof (cases "k \<le> n")
      case True
      then have "\<not> fits_workers amount ws k" using that r(5) by auto
      then show ?thesis by (auto simp: fits_workers_def)
    next
      case k: False
      then have "a < amount gs k" using n(5) [of k] that Cons.prems(3) by auto
      then show ?thesis using False w by (auto simp: fits_workers_def)
    qed
    moreover have "fits_workers amount (w # ws) r" if "0 < r"
      using r(3,4) that n(4) [of r] w by (auto simp: fits_workers_def)
    ultimately show ?thesis using n(1) r w False by auto
  qed
qed (simp add: fits_workers_def)

text \<open>C21: \<open>_auto_fit_max_model_len\<close>.  When the memory of every worker grows with the length, it sets the
  context length to the largest one, up to the derived length, that fits on all workers at once, and
  changes nothing else; it raises only when not even one token fits somewhere.\<close>

theorem auto_fit_longest:
  assumes "\<forall>w \<in> set (zip projected available). worker_grows E amount cfg w"
    and "1 \<le> max_model_len cfg" and "\<exists>gs \<in> set projected. gs \<noteq> []" and "length available = length projected"
  shows "case auto_fit_max_model_len E projected available cfg of
      (Inr _, cfg') \<Rightarrow> (\<exists>n. cfg' = cfg\<lparr>max_model_len := n\<rparr> \<and> 1 \<le> n \<and> n \<le> max_model_len cfg \<and>
          fits_workers amount (zip projected available) n \<and>
          (\<forall>k \<in> {n<..max_model_len cfg}. \<not> fits_workers amount (zip projected available) k))
    | (Inl e, cfg') \<Rightarrow> e = ValueError \<and> cfg' = cfg \<and> \<not> fits_workers amount (zip projected available) 1"
proof -
  obtain r where r: "auto_fit_loop E (zip projected available) (max_model_len cfg) cfg = (Ok r, cfg)"
    "0 \<le> r" "r \<le> max_model_len cfg" "0 < r \<longrightarrow> fits_workers amount (zip projected available) r"
    "\<forall>k \<in> {r<..max_model_len cfg}. \<not> fits_workers amount (zip projected available) k"
    using auto_fit_loop_longest [OF assms(1,2), of "max_model_len cfg"] assms(2) by auto
  have ne: "\<not> list_all (\<lambda>gs. gs = []) projected" "available \<noteq> []"
    using assms(3,4) by (auto simp: list_all_iff)
  consider "r = 0" | "0 < r" "r = max_model_len cfg" | "0 < r" "r < max_model_len cfg" using r(2,3) by linarith
  then show ?thesis
  proof cases
    case 1
    then show ?thesis using ne r(1,5) assms(2) by (simp add: auto_fit_max_model_len_def Let_def)
  next
    case 2
    then have "auto_fit_max_model_len E projected available cfg = (Ok (), cfg\<lparr>max_model_len := r\<rparr>)"
      using ne r(1) by (simp add: auto_fit_max_model_len_def Let_def)
    then show ?thesis using 2 r(3-5) by (auto intro!: exI [of _ r])
  next
    case 3
    then have "auto_fit_max_model_len E projected available cfg = (Ok (), cfg\<lparr>max_model_len := r\<rparr>)"
      using ne r(1) by (simp add: auto_fit_max_model_len_def Let_def)
    then show ?thesis using 3 r(3-5) by (auto intro!: exI [of _ r])
  qed
qed

text \<open>Two workers with one full-attention group each; the second has less memory.\<close>

definition demo_fit_groups :: "demo_layer kv_group list list" where
  "demo_fit_groups = [[new_group [''f0''] (Layer (demo_layer_of FullAttentionSpec 4 4))],
                      [new_group [''f1''] (Layer (demo_layer_of FullAttentionSpec 4 4))]]"

lemma demo_fit_memory:
  assumes "gs \<in> set demo_fit_groups"
  shows "max_memory_usage_bytes_from_groups demo_spec_env gs cfg = Ok (16 * ((max_model_len cfg + 3) div 4))"
proof -
  have "glm5_next_tensor_layout demo_spec_env gs = Ok None" "pool_bytes_per_block demo_spec_env gs = Ok 16"
    using assms unfolding demo_fit_groups_def by (auto, code_simp+)
  moreover have "sum_list (map (group_blocks demo_spec_env cfg) gs) = (max_model_len cfg + 3) div 4"
    using assms by (auto simp: demo_fit_groups_def group_blocks_def demo_spec_env_def demo_blocks_def demo_page_def demo_layer_of_def)
  ultimately show ?thesis using assms
    by (auto simp: max_memory_usage_bytes_from_groups_def demo_fit_groups_def)
qed

theorem auto_fit_longest_witness:
  "snd (auto_fit_max_model_len demo_spec_env demo_fit_groups [400, 200] demo_config) = demo_config\<lparr>max_model_len := 48\<rparr> \<and>
   fits_workers (\<lambda>_ n. 16 * ((n + 3) div 4)) (zip demo_fit_groups [400, 200]) 48 \<and>
   \<not> fits_workers (\<lambda>_ n. 16 * ((n + 3) div 4)) (zip demo_fit_groups [400, 200]) 49"
proof -
  let ?am = "\<lambda>_ n. 16 * ((n + 3) div 4) :: int"
  let ?r = "auto_fit_max_model_len demo_spec_env demo_fit_groups [400, 200] demo_config"
  have "\<forall>w \<in> set (zip demo_fit_groups [400, 200]). worker_grows demo_spec_env ?am demo_config w"
    using demo_fit_memory by (auto simp: worker_grows_def grows_with_len_def zdiv_mono1 dest!: set_zip_leftD)
  moreover have "1 \<le> max_model_len demo_config" "\<exists>gs \<in> set demo_fit_groups. gs \<noteq> []"
    "length [400, 200 :: int] = length demo_fit_groups" by (simp_all add: demo_config_def demo_fit_groups_def)
  note auto_fit_longest [OF calculation this]
  moreover have run: "?r = (Ok (), demo_config\<lparr>max_model_len := 48\<rparr>)" by code_simp
  moreover have "max_model_len demo_config = 64" by (simp add: demo_config_def)
  ultimately have "\<exists>n. demo_config\<lparr>max_model_len := 48\<rparr> = demo_config\<lparr>max_model_len := n\<rparr> \<and>
      fits_workers ?am (zip demo_fit_groups [400, 200]) n \<and>
      (\<forall>k \<in> {n<..64}. \<not> fits_workers ?am (zip demo_fit_groups [400, 200]) k)" by auto
  then obtain n where n: "demo_config\<lparr>max_model_len := 48\<rparr> = demo_config\<lparr>max_model_len := n\<rparr>"
    "fits_workers ?am (zip demo_fit_groups [400, 200]) n"
    "\<forall>k \<in> {n<..64}. \<not> fits_workers ?am (zip demo_fit_groups [400, 200]) k" by blast
  have "n = 48" using arg_cong [OF n(1), of max_model_len] by simp
  then show ?thesis using n run by simp
qed

end
