(* ===== verification/KV_Pages.thy ===== *)
theory KV_Pages
  imports KV_Layout
begin

text \<open>
  The bytes of the shared KV cache allocation.  Every group places its layers from byte 0, so pages of
  different groups alias; block ids come from one pool, so a block belongs to one group at a time.  What
  makes this safe is proved here for \<open>get_kv_cache_config_from_groups\<close>: pages of different blocks never
  overlap, whatever the groups, and neither do pages of different layers of one group.
\<close>

subsection \<open>Where a page starts\<close>

definition layer_index :: "kv_cache_tensor \<Rightarrow> string \<Rightarrow> nat" where
  "layer_index t name = length (takeWhile (\<lambda>n. n \<noteq> name) (tensor_layers t))"

fun layer_start :: "kv_cache_tensor list \<Rightarrow> string \<Rightarrow> int \<Rightarrow> int option" where
  "layer_start [] name b = None"
| "layer_start (t # ts) name b =
     (if name \<in> set (tensor_layers t)
      then Some (tensor_offset t + int (layer_index t name) * layer_stride t + b * block_stride t)
      else layer_start ts name b)"

lemma layer_index_nth: "distinct (tensor_layers t) \<Longrightarrow> j < length (tensor_layers t) \<Longrightarrow> layer_index t (tensor_layers t ! j) = j"
proof -
  have "length (takeWhile (\<lambda>n. n \<noteq> xs ! j) xs) = j" if "distinct xs" "j < length xs" for xs :: "string list"
    using that
  proof (induction xs arbitrary: j)
    case (Cons x xs)
    then show ?case by (cases j) auto
  qed simp
  then show "distinct (tensor_layers t) \<Longrightarrow> j < length (tensor_layers t) \<Longrightarrow> layer_index t (tensor_layers t ! j) = j"
    by (simp add: layer_index_def)
qed

lemma layer_start_append:
  "layer_start (ts @ us) name b = (case layer_start ts name b of Some a \<Rightarrow> Some a | None \<Rightarrow> layer_start us name b)"
  by (induction ts) auto

lemma layer_start_None: "name \<notin> set (concat (map tensor_layers ts)) \<Longrightarrow> layer_start ts name b = None"
  by (induction ts) auto

text \<open>The strides the layout picture in the source documents: block-outermost layouts repeat one packing of
  the pages with the given stride, layer-outer layouts put the blocks of a layer next to each other.\<close>

definition strides_law :: "'l spec_env \<Rightarrow> kv_layout \<Rightarrow> bool" where
  "strides_law E layout \<longleftrightarrow>
     (\<forall>s nb n fixed. compute_layout_strides E s nb n layout fixed =
        (case fixed of Some S \<Rightarrow> (layer_page E s, S) | None \<Rightarrow> (layer_page E s * nb, layer_page E s)))"

definition place :: "int option \<Rightarrow> int \<Rightarrow> int \<Rightarrow> int \<Rightarrow> int \<Rightarrow> int" where
  "place fixed nb off page b = (case fixed of Some S \<Rightarrow> off + b * S | None \<Rightarrow> off * nb + b * page)"

text \<open>The layers of a group in the order of their tensors, with their pages.\<close>

definition flat_pages :: "'l spec_env \<Rightarrow> ('l, string list) dict \<Rightarrow> (string \<times> int) list" where
  "flat_pages E lbs = concat (map (\<lambda>(s, ns). map (\<lambda>n. (n, layer_page E s)) ns) lbs)"

definition bytes_before :: "(string \<times> int) list \<Rightarrow> nat \<Rightarrow> int" where
  "bytes_before fl k = sum_list (map snd (take k fl))"

lemma names_flat_pages: "map fst (flat_pages E lbs) = concat (map snd lbs)"
  unfolding flat_pages_def by (induction lbs) (auto simp: o_def)

lemma flat_pages_Cons: "flat_pages E ((s, ns) # lbs) = map (\<lambda>n. (n, layer_page E s)) ns @ flat_pages E lbs"
  by (simp add: flat_pages_def)

lemma group_tensors_layers:
  "group_tensors E layout fixed nb sz lbs off = Ok ts \<Longrightarrow> concat (map tensor_layers ts) = concat (map snd lbs)"
proof (induction lbs arbitrary: off ts)
  case (Cons x lbs)
  obtain s ns where x: "x = (s, ns)" by (cases x)
  then show ?case using Cons.prems Cons.IH
    by (auto simp: Let_def split_beta bindE_eq_Inr_iff split: if_splits)
qed simp

lemma group_tensors_start:
  assumes "strides_law E layout" "pages_positive E" "1 \<le> nb"
    and "group_tensors E layout fixed nb sz lbs off = Ok ts"
    and "distinct (concat (map snd lbs))" and "k < length (flat_pages E lbs)"
  shows "layer_start ts (fst (flat_pages E lbs ! k)) b =
           Some (place fixed nb (off + bytes_before (flat_pages E lbs) k) (snd (flat_pages E lbs ! k)) b)"
  using assms(4-)
proof (induction lbs arbitrary: off ts k)
  case Nil
  then show ?case by (simp add: flat_pages_def)
next
  case (Cons x lbs)
  obtain s ns where x: "x = (s, ns)" by (cases x)
  let ?p = "layer_page E s" and ?fl = "flat_pages E lbs"
  have p: "0 < ?p" using assms(2) by (simp add: pages_positive_def)
  let ?ls = "case fixed of Some S \<Rightarrow> ?p | None \<Rightarrow> ?p * nb" and ?bs = "case fixed of Some S \<Rightarrow> S | None \<Rightarrow> ?p"
  have st: "compute_layout_strides E s nb (length ns) layout fixed = (?ls, ?bs)"
    using assms(1) by (simp add: strides_law_def split: option.split)
  obtain us where us: "group_tensors E layout fixed nb sz lbs (off + int (length ns) * ?p) = Ok us"
    and ts: "ts = \<lparr>tensor_size = sz, tensor_layers = ns, layer_stride = ?ls, block_stride = ?bs,
                  tensor_offset = off * max ?ls ?p div ?p\<rparr> # us"
    using Cons.prems(1) x p st by (auto simp: Let_def bindE_eq_Inr_iff split: if_splits)
  have off: "off * max ?ls ?p div ?p = (case fixed of Some S \<Rightarrow> off | None \<Rightarrow> off * nb)"
  proof -
    have "?p * 1 \<le> ?p * nb" using assms(3) p by (intro mult_left_mono) auto
    then show ?thesis using p by (cases fixed) (auto simp: max_def mult.left_commute)
  qed
  have fl: "flat_pages E (x # lbs) = map (\<lambda>n. (n, ?p)) ns @ ?fl" by (simp add: x flat_pages_Cons)
  show ?case
  proof (cases "k < length ns")
    case True
    let ?t = "hd ts"
    have idx: "layer_index ?t (ns ! k) = k"
      using layer_index_nth [of ?t k] True Cons.prems(2) x by (simp add: ts)
    have "bytes_before (flat_pages E (x # lbs)) k = int k * ?p"
      using True by (simp add: bytes_before_def fl take_map sum_list_triv o_def)
    then show ?thesis using True idx off
      by (cases fixed) (simp_all add: ts fl nth_append place_def distrib_right algebra_simps)
  next
    case False
    let ?k = "k - length ns"
    have k: "?k < length ?fl" using Cons.prems(3) False by (simp add: fl)
    have "fst (?fl ! ?k) \<in> set (concat (map snd lbs))"
      using k names_flat_pages [of E lbs] by (metis nth_map length_map nth_mem)
    then have notin: "fst (?fl ! ?k) \<notin> set ns" using Cons.prems(2) x by auto
    have "bytes_before (flat_pages E (x # lbs)) k = int (length ns) * ?p + bytes_before ?fl ?k"
      using False by (simp add: bytes_before_def fl sum_list_triv o_def)
    moreover have "flat_pages E (x # lbs) ! k = ?fl ! ?k" using False by (simp add: fl nth_append)
    moreover have "distinct (concat (map snd lbs))" using Cons.prems(2) by simp
    ultimately show ?thesis
      using Cons.IH [OF us _ k] notin by (simp add: ts add.assoc)
  qed
qed

subsection \<open>The layers of well-formed groups\<close>

definition group_ok :: "'l kv_group \<Rightarrow> bool" where
  "group_ok g \<longleftrightarrow>
     (case kv_cache_spec g of
        Layer _ \<Rightarrow> True
      | UniformTypeKVCacheSpecs _ d \<Rightarrow> distinct (dict_keys d) \<and> list_all (\<lambda>n. n \<in> set (dict_keys d)) (layer_names g))"

definition groups_ok :: "'l kv_group list \<Rightarrow> bool" where
  "groups_ok groups \<longleftrightarrow> distinct (concat (map layer_names groups)) \<and> list_all group_ok groups"

lemma dict_append_member: "(k, vs) \<in> set (dict_append k' v' d) \<Longrightarrow> v \<in> set vs \<Longrightarrow>
    (k = k' \<and> v = v') \<or> (\<exists>ws. (k, ws) \<in> set d \<and> v \<in> set ws)"
  by (induction k' v' d rule: dict_append.induct) (auto split: if_splits)

lemma fold_dict_append_member:
  assumes "(k, vs) \<in> set (fold (\<lambda>(v, k). dict_append k v) d acc)" "v \<in> set vs"
  shows "(v, k) \<in> set d \<or> (\<exists>ws. (k, ws) \<in> set acc \<and> v \<in> set ws)"
  using assms
proof (induction d arbitrary: acc)
  case (Cons x d)
  obtain v' k' where x: "x = (v', k')" by (cases x)
  show ?case using Cons.IH [of "dict_append k' v' acc"] Cons.prems x dict_append_member by fastforce
qed auto

lemma group_layers_mset:
  assumes "group_ok g" "distinct (layer_names g)"
  shows "mset (concat (map snd (layers_by_spec g))) = mset (layer_names g)"
proof (cases "kv_cache_spec g")
  case (UniformTypeKVCacheSpecs b d)
  let ?d = "filter (\<lambda>(name, _). name \<in> set (layer_names g)) d"
  have keys: "distinct (dict_keys d)" "set (layer_names g) \<subseteq> set (dict_keys d)"
    using assms(1) UniformTypeKVCacheSpecs by (auto simp: group_ok_def list_all_iff)
  have "mset (concat (map snd (layers_by_spec g))) = mset (dict_keys ?d)"
    using mset_fold_dict_append [of "\<lambda>k. k" ?d "[]"] by (simp add: layers_by_spec_def UniformTypeKVCacheSpecs)
  moreover have "set (dict_keys ?d) = set (layer_names g)"
  proof
    show "set (layer_names g) \<subseteq> set (dict_keys ?d)"
      using keys(2) by (force simp: image_iff)
  qed auto
  moreover have "distinct (dict_keys ?d)" using keys(1) by (simp add: distinct_map_filter)
  ultimately show ?thesis using assms(2) set_eq_iff_mset_eq_distinct by metis
qed (simp add: layers_by_spec_def)

lemma flat_page_spec:
  assumes "group_ok g" "(n, p) \<in> set (flat_pages E (layers_by_spec g))"
  shows "\<exists>s. get_per_layer_spec g n = Ok s \<and> p = layer_page E s"
proof -
  obtain s ns where s: "(s, ns) \<in> set (layers_by_spec g)" "n \<in> set ns" "p = layer_page E s"
    using assms(2) by (auto simp: flat_pages_def)
  have "get_per_layer_spec g n = Ok s"
  proof (cases "kv_cache_spec g")
    case (UniformTypeKVCacheSpecs b d)
    have "(n, s) \<in> set d"
      using fold_dict_append_member [of s ns "filter (\<lambda>(name, _). name \<in> set (layer_names g)) d" "[]" n] s
      by (auto simp: layers_by_spec_def UniformTypeKVCacheSpecs)
    then show ?thesis using assms(1) UniformTypeKVCacheSpecs
      by (auto simp: get_per_layer_spec_def dict_item_def group_ok_def split: option.splits)
  next
    case (Layer s')
    then show ?thesis using s by (auto simp: layers_by_spec_def get_per_layer_spec_def split: if_splits)
  qed
  then show ?thesis using s(3) by blast
qed

text \<open>The page of a layer in its group, and the facts on the flat list that the placement needs.\<close>

definition page_in :: "'l spec_env \<Rightarrow> 'l kv_group \<Rightarrow> string \<Rightarrow> int" where
  "page_in E g n = (case get_per_layer_spec g n of Inr s \<Rightarrow> layer_page E s | Inl _ \<Rightarrow> 0)"

lemma flat_page: "group_ok g \<Longrightarrow> k < length (flat_pages E (layers_by_spec g)) \<Longrightarrow>
    snd (flat_pages E (layers_by_spec g) ! k) = page_in E g (fst (flat_pages E (layers_by_spec g) ! k))"
  using flat_page_spec [of g "fst (flat_pages E (layers_by_spec g) ! k)" "snd (flat_pages E (layers_by_spec g) ! k)" E]
  by (auto simp: page_in_def)

lemma flat_total:
  assumes "group_ok g" "distinct (layer_names g)" "group_bytes E g = Ok B"
  shows "sum_list (map snd (flat_pages E (layers_by_spec g))) = B"
proof -
  let ?fl = "flat_pages E (layers_by_spec g)"
  have "map snd ?fl = map (page_in E g) (map fst ?fl)"
    using flat_page [OF assms(1)] by (intro nth_equalityI) simp_all
  then have "sum_list (map snd ?fl) = sum_mset (image_mset (page_in E g) (mset (map fst ?fl)))"
    by (metis mset_map sum_mset_sum_list)
  also have "mset (map fst ?fl) = mset (layer_names g)"
    using group_layers_mset [OF assms(1,2)] by (simp add: names_flat_pages)
  also have "sum_mset (image_mset (page_in E g) (mset (layer_names g))) = sum_list (map (page_in E g) (layer_names g))"
    by (metis mset_map sum_mset_sum_list)
  also have "\<dots> = B"
  proof -
    obtain ps where ps: "mapE (\<lambda>n. bindE (get_per_layer_spec g n) (\<lambda>s. Ok (layer_page E s))) (layer_names g) = Ok ps"
      "B = sum_list ps" using assms(3) by (auto simp: group_bytes_def bindE_eq_Inr_iff)
    have "map (\<lambda>p. p) ps = map (page_in E g) (layer_names g)"
      by (rule mapE_related [OF ps(1)]) (auto simp: page_in_def bindE_eq_Inr_iff)
    then show ?thesis using ps(2) by simp
  qed
  finally show ?thesis .
qed

lemma flat_index:
  assumes "group_ok g" "distinct (layer_names g)" "n \<in> set (layer_names g)"
  obtains k where "k < length (flat_pages E (layers_by_spec g))" "fst (flat_pages E (layers_by_spec g) ! k) = n"
proof -
  have "n \<in> set (map fst (flat_pages E (layers_by_spec g)))"
    using assms(3) group_layers_mset [OF assms(1,2)] mset_eq_setD unfolding names_flat_pages by blast
  then show thesis using that by (auto simp: in_set_conv_nth)
qed

lemma bytes_before_mono:
  assumes "\<And>x. x \<in> set fl \<Longrightarrow> 0 < snd x" "k < k'" "k' \<le> length fl"
  shows "bytes_before fl k + snd (fl ! k) \<le> bytes_before fl k'"
proof -
  have "take k' fl = take k fl @ fl ! k # take (k' - Suc k) (drop (Suc k) fl)"
    using take_add [of "Suc k" "k' - Suc k" fl] assms(2,3) by (simp add: take_Suc_conv_app_nth)
  moreover have "0 \<le> sum_list (map snd (take (k' - Suc k) (drop (Suc k) fl)))"
    using assms(1) by (intro sum_list_nonneg) (force dest: in_set_takeD in_set_dropD)
  ultimately show ?thesis by (simp add: bytes_before_def)
qed

lemma bytes_before_nonneg: "(\<And>x. x \<in> set fl \<Longrightarrow> 0 < snd x) \<Longrightarrow> 0 \<le> bytes_before fl k"
  unfolding bytes_before_def by (intro sum_list_nonneg) (force dest: in_set_takeD)

lemma bytes_before_end:
  "(\<And>x. x \<in> set fl \<Longrightarrow> 0 < snd x) \<Longrightarrow> k < length fl \<Longrightarrow> bytes_before fl k + snd (fl ! k) \<le> sum_list (map snd fl)"
  using bytes_before_mono [of fl k "length fl"] by (simp add: bytes_before_def)

lemma bytes_before_uniform:
  "(\<And>x. x \<in> set fl \<Longrightarrow> snd x = P) \<Longrightarrow> k \<le> length fl \<Longrightarrow> bytes_before fl k = int k * P"
proof -
  assume a: "\<And>x. x \<in> set fl \<Longrightarrow> snd x = P" "k \<le> length fl"
  have "map snd (take k fl) = map (\<lambda>_. P) (take k fl)"
    using a(1) by (intro map_cong refl) (auto dest: in_set_takeD)
  then have "bytes_before fl k = sum_list (map (\<lambda>_. P) (take k fl))" by (simp only: bytes_before_def)
  then show ?thesis using a(2) by (simp add: sum_list_triv)
qed

subsection \<open>Pages of a configuration\<close>

definition disjoint_ranges :: "int \<Rightarrow> int \<Rightarrow> int \<Rightarrow> int \<Rightarrow> bool" where
  "disjoint_ranges a p a' p' \<longleftrightarrow> a + p \<le> a' \<or> a' + p' \<le> a"

lemma mult_step: "(x :: int) < y \<Longrightarrow> 0 \<le> P \<Longrightarrow> x * P + P \<le> y * P"
  using mult_right_mono [of "x + 1" y P] by (simp add: distrib_right)

lemma blocks_of_stride:
  assumes "0 \<le> off" "off + p \<le> S" "0 \<le> off'" "off' + p' \<le> S" "b \<noteq> b'" "0 \<le> S"
  shows "disjoint_ranges (off + b * S) p (off' + b' * S) p'"
  using assms mult_step [of b b' S] mult_step [of b' b S] unfolding disjoint_ranges_def by linarith

lemma layer_region:
  assumes "0 \<le> b" "b < nb" "0 \<le> p"
  shows "off * nb \<le> off * nb + b * p" and "off * nb + b * p + p \<le> (off + p) * (nb :: int)"
  using assms mult_step [of b nb p] mult_nonneg_nonneg [of b p] by (simp_all add: algebra_simps)

lemma uniform_blocks:
  fixes nb :: int
  assumes "0 \<le> b" "b < nb" "0 \<le> b'" "b' < nb" "b \<noteq> b'" "0 \<le> P"
  shows "disjoint_ranges (int k * P * nb + b * P) P (int k' * P * nb + b' * P) P"
proof -
  let ?x = "int k * nb + b" and ?y = "int k' * nb + b'"
  have "?x mod nb = b" "?y mod nb = b'" using assms by simp_all
  then have "?x \<noteq> ?y" using assms(5) by metis
  moreover have "int k * P * nb + b * P = ?x * P" "int k' * P * nb + b' * P = ?y * P"
    by (simp_all add: algebra_simps)
  ultimately show ?thesis
    using mult_step [of ?x ?y P] mult_step [of ?y ?x P] assms(6) unfolding disjoint_ranges_def by linarith
qed

lemma layer_start_group:
  assumes "mapE f groups = Ok tss" "distinct (concat (map layer_names groups))"
    and "\<And>g ts. g \<in> set groups \<Longrightarrow> f g = Ok ts \<Longrightarrow> set (concat (map tensor_layers ts)) = set (layer_names g)"
    and "\<And>g ts. g \<in> set groups \<Longrightarrow> f g = Ok ts \<Longrightarrow> n \<in> set (layer_names g) \<Longrightarrow> layer_start ts n b \<noteq> None"
    and "g \<in> set groups" "n \<in> set (layer_names g)"
  shows "\<exists>ts. f g = Ok ts \<and> layer_start (concat tss) n b = layer_start ts n b"
  using assms
proof (induction groups arbitrary: tss)
  case (Cons h groups)
  obtain ts tss' where t: "f h = Ok ts" "mapE f groups = Ok tss'" "tss = ts # tss'"
    using Cons.prems(1) by (auto simp: bindE_eq_Inr_iff)
  show ?case
  proof (cases "n \<in> set (layer_names h)")
    case True
    have "g = h" using True Cons.prems(2,5,6) by auto
    moreover have "layer_start ts n b \<noteq> None" using Cons.prems(4) [of h ts] t(1) True by simp
    ultimately show ?thesis using t by (auto simp: layer_start_append)
  next
    case False
    then have "layer_start ts n b = None" using Cons.prems(3) [of h ts] t(1) by (intro layer_start_None) simp
    moreover have "\<exists>ts. f g = Ok ts \<and> layer_start (concat tss') n b = layer_start ts n b"
    proof (rule Cons.IH [OF t(2)])
      show "set (concat (map tensor_layers us)) = set (layer_names h')" if "h' \<in> set groups" "f h' = Ok us" for h' us
        using Cons.prems(3) [of h' us] that by simp
      show "layer_start us n b \<noteq> None" if "h' \<in> set groups" "f h' = Ok us" "n \<in> set (layer_names h')" for h' us
        using Cons.prems(4) [of h' us] that by simp
    qed (use Cons.prems(2,5,6) False in auto)
    ultimately show ?thesis using t(3) by (auto simp: layer_start_append)
  qed
qed simp

text \<open>The parts of a configuration on the general path.\<close>

lemma generic_config_parts:
  assumes "get_kv_cache_config_from_groups E cfg groups available = Ok c" "groups \<noteq> []"
    and "glm5_next_tensor_layout E groups = Ok None"
  obtains B fixed tss where "pool_bytes_per_block E groups = Ok B" "max_group_bytes E groups = Ok B"
    "fixed = (if is_block_outermost (resolved_kv_cache_layout cfg) then Some B else None)"
    "mapE (\<lambda>g. group_tensors E (resolved_kv_cache_layout cfg) fixed (num_blocks c) (B * num_blocks c) (layers_by_spec g) 0) groups = Ok tss"
    "kv_cache_tensors c = concat tss" "validate_kv_cache_layout E (resolved_kv_cache_layout cfg) groups = Ok ()"
proof -
  have "generic_config E cfg groups available = Ok c"
    using assms by (simp add: get_kv_cache_config_from_groups_def)
  then show thesis using that assms(3)
    by (auto simp: generic_config_def get_kv_cache_bytes_per_block_def pool_bytes_per_block_def make_config_def
        Let_def bindE_eq_Inr_iff)
qed

lemma group_bytes_le:
  assumes "max_group_bytes E groups = Ok B" "g \<in> set groups"
  obtains G where "group_bytes E g = Ok G" "G \<le> B"
proof -
  obtain bs where bs: "mapE (group_bytes E) groups = Ok bs" "B = foldr max bs (hd bs)"
    using assms(1) by (auto simp: max_group_bytes_def bindE_eq_Inr_iff split: if_splits)
  obtain i where "i < length groups" "g = groups ! i" using assms(2) by (metis in_set_conv_nth)
  then show thesis
    using that mapE_nth [OF bs(1), of i] foldr_max_ge [of "bs ! i" bs] mapE_length [OF bs(1)] bs(2) by simp
qed

lemma config_slot:
  assumes "get_kv_cache_config_from_groups E cfg groups available = Ok c" "groups \<noteq> []"
    and "glm5_next_tensor_layout E groups = Ok None" and "groups_ok groups" "pages_positive E"
    and "strides_law E (resolved_kv_cache_layout cfg)" "1 \<le> num_blocks c"
    and "pool_bytes_per_block E groups = Ok B" "g \<in> set groups" "n \<in> set (layer_names g)"
  obtains k where "k < length (flat_pages E (layers_by_spec g))" "fst (flat_pages E (layers_by_spec g) ! k) = n"
    "\<And>b. layer_start (kv_cache_tensors c) n b =
       Some (place (if is_block_outermost (resolved_kv_cache_layout cfg) then Some B else None) (num_blocks c)
              (bytes_before (flat_pages E (layers_by_spec g)) k) (page_in E g n) b)"
    "bytes_before (flat_pages E (layers_by_spec g)) k + page_in E g n \<le> B"
proof -
  let ?L = "resolved_kv_cache_layout cfg" and ?nb = "num_blocks c"
  let ?fixed = "if is_block_outermost ?L then Some B else None"
  let ?f = "\<lambda>g. group_tensors E ?L ?fixed ?nb (B * ?nb) (layers_by_spec g) 0"
  obtain tss where max: "max_group_bytes E groups = Ok B" and tss: "mapE ?f groups = Ok tss" "kv_cache_tensors c = concat tss"
  proof -
    obtain B' fixed tss where p: "pool_bytes_per_block E groups = Ok B'" "max_group_bytes E groups = Ok B'"
      "fixed = (if is_block_outermost ?L then Some B' else None)"
      "mapE (\<lambda>g. group_tensors E ?L fixed ?nb (B' * ?nb) (layers_by_spec g) 0) groups = Ok tss"
      "kv_cache_tensors c = concat tss"
      by (rule generic_config_parts [OF assms(1-3)]) blast
    have "B' = B" using p(1) assms(8) by simp
    show thesis by (rule that [OF p(2,4,5) [unfolded p(3) \<open>B' = B\<close>]])
  qed
  have ok: "group_ok h" "distinct (layer_names h)" if "h \<in> set groups" for h
    using assms(4) that by (auto simp: groups_ok_def list_all_iff distinct_concat_iff)
  have names: "set (concat (map tensor_layers ts)) = set (layer_names h)"
    "distinct (concat (map snd (layers_by_spec h)))" if "h \<in> set groups" "?f h = Ok ts" for h ts
    using group_tensors_layers [OF that(2)] group_layers_mset [OF ok [OF that(1)]] ok(2) [OF that(1)]
      mset_eq_setD mset_eq_imp_distinct_iff by metis+
  have start: "\<exists>k. k < length (flat_pages E (layers_by_spec h)) \<and> fst (flat_pages E (layers_by_spec h) ! k) = n \<and>
      (\<forall>b. layer_start ts n b = Some (place ?fixed ?nb (bytes_before (flat_pages E (layers_by_spec h)) k) (page_in E h n) b))"
    if h: "h \<in> set groups" and ts: "?f h = Ok ts" and n: "n \<in> set (layer_names h)" for h ts
  proof -
    obtain k where k: "k < length (flat_pages E (layers_by_spec h))" "fst (flat_pages E (layers_by_spec h) ! k) = n"
      using flat_index [OF ok [OF h] n] by metis
    show ?thesis
      using group_tensors_start [OF assms(6,5,7) ts names(2) [OF h ts] k(1)] k flat_page [OF ok(1) [OF h] k(1)]
      by (intro exI [of _ k]) simp
  qed
  have some: "layer_start ts n b \<noteq> None" if "h \<in> set groups" "?f h = Ok ts" "n \<in> set (layer_names h)" for h ts b
    using start [OF that] by auto
  have dist: "distinct (concat (map layer_names groups))" using assms(4) by (simp add: groups_ok_def)
  have same: "\<exists>ts. ?f g = Ok ts \<and> layer_start (concat tss) n b = layer_start ts n b" for b
    by (rule layer_start_group [OF tss(1) dist names(1) some assms(9,10)])
  then obtain ts where ts: "?f g = Ok ts" by blast
  obtain k where k: "k < length (flat_pages E (layers_by_spec g))" "fst (flat_pages E (layers_by_spec g) ! k) = n"
    "\<forall>b. layer_start ts n b = Some (place ?fixed ?nb (bytes_before (flat_pages E (layers_by_spec g)) k) (page_in E g n) b)"
    using start [OF assms(9) ts assms(10)] by blast
  have starts: "layer_start (kv_cache_tensors c) n b =
       Some (place ?fixed ?nb (bytes_before (flat_pages E (layers_by_spec g)) k) (page_in E g n) b)" for b
    using same [of b] ts k(3) tss(2) by auto
  obtain G where G: "group_bytes E g = Ok G" "G \<le> B" using group_bytes_le [OF max assms(9)] .
  have "0 < snd x" if "x \<in> set (flat_pages E (layers_by_spec g))" for x
    using assms(5) that by (auto simp: flat_pages_def pages_positive_def)
  then have "bytes_before (flat_pages E (layers_by_spec g)) k + page_in E g n \<le> B"
    using bytes_before_end [OF _ k(1)] flat_total [OF ok [OF assms(9)] G(1)] G(2)
      flat_page [OF ok(1) [OF assms(9)] k(1)] k(2) by fastforce
  then show thesis using that [OF k(1,2) starts] by simp
qed

lemma flat_le_pool:
  assumes "get_kv_cache_config_from_groups E cfg groups available = Ok c" "groups \<noteq> []"
    and "glm5_next_tensor_layout E groups = Ok None" "pool_bytes_per_block E groups = Ok B"
    and "h \<in> set groups" "group_ok h" "distinct (layer_names h)"
  shows "sum_list (map snd (flat_pages E (layers_by_spec h))) \<le> B"
proof -
  have "max_group_bytes E groups = Ok B" using generic_config_parts [OF assms(1-3)] assms(4) by (metis Inr_inject)
  then obtain G where "group_bytes E h = Ok G" "G \<le> B" using group_bytes_le assms(5) by metis
  then show ?thesis using flat_total [OF assms(6,7)] by simp
qed

lemma validated_uniform:
  assumes "validate_kv_cache_layout E layout groups = Ok ()" "is_layer_compact layout" "length groups > 1"
    and "groups_ok groups"
  obtains P where "\<And>g n. g \<in> set groups \<Longrightarrow> n \<in> set (layer_names g) \<Longrightarrow> page_in E g n = P"
proof -
  obtain pages where pages:
    "mapE (\<lambda>g. mapE (\<lambda>n. bindE (get_per_layer_spec g n) (\<lambda>s. Ok (layer_page E s))) (layer_names g)) groups = Ok pages"
    "length (first_occurrences (concat pages)) = 1"
    using assms(1-3) by (auto simp: validate_kv_cache_layout_def bindE_eq_Inr_iff split: if_splits)
  obtain P where P: "first_occurrences (concat pages) = [P]"
    using pages(2) by (metis One_nat_def length_0_conv length_Suc_conv)
  have "page_in E g n = P" if g: "g \<in> set groups" and n: "n \<in> set (layer_names g)" for g n
  proof -
    obtain i where i: "i < length groups" "g = groups ! i" using g by (metis in_set_conv_nth)
    have ps: "mapE (\<lambda>n. bindE (get_per_layer_spec g n) (\<lambda>s. Ok (layer_page E s))) (layer_names g) = Ok (pages ! i)"
      using mapE_nth [OF pages(1), of i] i by simp
    obtain j where j: "j < length (layer_names g)" "n = layer_names g ! j" using n by (metis in_set_conv_nth)
    have "page_in E g n = pages ! i ! j"
      using mapE_nth [OF ps, of j] j by (auto simp: page_in_def bindE_eq_Inr_iff)
    moreover have "pages ! i ! j \<in> set (concat pages)"
      using i j mapE_length [OF ps] mapE_length [OF pages(1)] by (auto intro!: bexI [of _ "pages ! i"])
    ultimately show ?thesis using singleton_occurrences [OF P] by simp
  qed
  then show thesis using that by blast
qed

lemma uniform_flat:
  assumes "group_ok h" "distinct (layer_names h)" "\<And>n. n \<in> set (layer_names h) \<Longrightarrow> page_in E h n = P"
    and x: "x \<in> set (flat_pages E (layers_by_spec h))"
  shows "snd x = P"
proof -
  have "set (map fst (flat_pages E (layers_by_spec h))) = set (layer_names h)"
    unfolding names_flat_pages by (rule mset_eq_setD [OF group_layers_mset [OF assms(1,2)]])
  then have n: "fst x \<in> set (layer_names h)" using x by auto
  obtain s where "get_per_layer_spec h (fst x) = Ok s \<and> snd x = layer_page E s"
    using flat_page_spec [of h "fst x" "snd x" E] assms(1) x by auto
  then show ?thesis using assms(3) [OF n] by (simp add: page_in_def)
qed

text \<open>Within one group: the flat list places different layers, and different blocks of a layer, apart.\<close>

lemma same_group_disjoint:
  fixes nb :: int
  assumes "\<And>x. x \<in> set fl \<Longrightarrow> 0 < snd x" "k < length fl" "k' < length fl"
    and "0 \<le> b" "b < nb" "0 \<le> b'" "b' < nb" and "k \<noteq> k' \<or> b \<noteq> b'"
  shows "disjoint_ranges (bytes_before fl k * nb + b * snd (fl ! k)) (snd (fl ! k))
           (bytes_before fl k' * nb + b' * snd (fl ! k')) (snd (fl ! k'))"
proof -
  have pos: "0 \<le> snd (fl ! j)" if "j < length fl" for j using assms(1) that by (simp add: less_imp_le)
  have apart: "bytes_before fl i * nb + c * snd (fl ! i) + snd (fl ! i) \<le> bytes_before fl j * nb + d * snd (fl ! j)"
    if "i < j" "j < length fl" "0 \<le> c" "c < nb" "0 \<le> d" "d < nb" for i j c d
  proof -
    have "bytes_before fl i * nb + c * snd (fl ! i) + snd (fl ! i) \<le> (bytes_before fl i + snd (fl ! i)) * nb"
      using layer_region(2) [OF that(3,4) pos] that(1,2) by simp
    also have "\<dots> \<le> bytes_before fl j * nb"
      using bytes_before_mono [OF assms(1) that(1)] that by (intro mult_right_mono) auto
    also have "\<dots> \<le> bytes_before fl j * nb + d * snd (fl ! j)"
      using layer_region(1) [OF that(5,6) pos] that(2) by simp
    finally show ?thesis .
  qed
  consider "k < k'" | "k' < k" | "k = k'" "b < b'" | "k = k'" "b' < b" using assms(8) by linarith
  then show ?thesis
    using apart [of k k' b b'] apart [of k' k b' b] assms(2-7) pos [OF assms(2)]
      mult_step [of b b' "snd (fl ! k)"] mult_step [of b' b "snd (fl ! k)"]
    by cases (auto simp: disjoint_ranges_def)
qed

text \<open>Two pages, by position in the flat list of their groups, in either layout.\<close>

lemma page_bounds:
  assumes "0 \<le> off" "0 < p" "off + p \<le> B" "0 \<le> b" "b < nb"
  shows "0 \<le> place (if outer then Some B else None) nb off p b"
    and "place (if outer then Some B else None) nb off p b + p \<le> B * nb"
proof -
  have B: "0 \<le> B" using assms(1-3) by linarith
  have "0 \<le> b * B" "b * B + B \<le> nb * B" using assms(4,5) B mult_step by simp_all
  moreover note lr = layer_region [OF assms(4,5) less_imp_le [OF assms(2)], of off]
  moreover have "0 \<le> off * nb" "(off + p) * nb \<le> B * nb" using assms by (simp_all add: mult_right_mono)
  ultimately show "0 \<le> place (if outer then Some B else None) nb off p b"
    "place (if outer then Some B else None) nb off p b + p \<le> B * nb"
    using assms(1,3) by (cases outer; simp add: place_def mult.commute)+
qed

lemma block_outer_disjoint:
  assumes "\<And>x. x \<in> set fl \<Longrightarrow> 0 < snd x" "\<And>x. x \<in> set fl' \<Longrightarrow> 0 < snd x"
    and "k < length fl" "k' < length fl'" "sum_list (map snd fl) \<le> S" "sum_list (map snd fl') \<le> S"
    and "b \<noteq> b' \<or> fl = fl' \<and> k \<noteq> k'"
  shows "disjoint_ranges (bytes_before fl k + b * S) (snd (fl ! k)) (bytes_before fl' k' + b' * S) (snd (fl' ! k'))"
proof (cases "b = b'")
  case True
  then show ?thesis using bytes_before_mono [of fl k k'] bytes_before_mono [of fl k' k] assms(1,3,4,7)
    by (cases "k < k'") (auto simp: disjoint_ranges_def)
next
  case False
  have o: "0 \<le> bytes_before fl k" "0 \<le> bytes_before fl' k'" using bytes_before_nonneg assms(1,2) by blast+
  have e: "bytes_before fl k + snd (fl ! k) \<le> S" "bytes_before fl' k' + snd (fl' ! k') \<le> S"
    using bytes_before_end [OF assms(1,3)] bytes_before_end [OF assms(2,4)] assms(5,6) by simp_all
  have "0 \<le> S" using o(1) e(1) assms(1) [OF nth_mem [OF assms(3)]] by linarith
  then show ?thesis by (rule blocks_of_stride [OF o(1) e(1) o(2) e(2) False])
qed

lemma layer_outer_disjoint:
  fixes nb :: int
  assumes "\<And>x. x \<in> set fl \<Longrightarrow> 0 < snd x" "k < length fl" "k' < length fl'"
    and "0 \<le> b" "b < nb" "0 \<le> b'" "b' < nb"
    and "fl = fl' \<and> (k \<noteq> k' \<or> b \<noteq> b') \<or> b \<noteq> b' \<and> (\<forall>x \<in> set fl \<union> set fl'. snd x = P)"
  shows "disjoint_ranges (bytes_before fl k * nb + b * snd (fl ! k)) (snd (fl ! k))
           (bytes_before fl' k' * nb + b' * snd (fl' ! k')) (snd (fl' ! k'))"
proof (cases "fl = fl' \<and> (k \<noteq> k' \<or> b \<noteq> b')")
  case True
  then show ?thesis using same_group_disjoint [OF assms(1,2) _ assms(4-7), of k'] assms(3) by simp
next
  case False
  then have P: "\<forall>x \<in> set fl \<union> set fl'. snd x = P" "b \<noteq> b'" using assms(8) by blast+
  have "snd (fl ! k) = P" "snd (fl' ! k') = P" "bytes_before fl k = int k * P" "bytes_before fl' k' = int k' * P"
    using P assms(2,3) bytes_before_uniform [of fl P k] bytes_before_uniform [of fl' P k'] by simp_all
  moreover have "0 \<le> P" using assms(1) [OF nth_mem [OF assms(2)]] calculation(1) by simp
  ultimately show ?thesis using uniform_blocks [OF assms(4-7) P(2)] by simp
qed

text \<open>C5: the pages of a configuration made by \<open>get_kv_cache_config_from_groups\<close> on its general path, for
  a block-outermost layout and for a layer-outer one.  The page of every layer and block lies inside the
  allocation.  Pages of two different blocks never overlap, whichever groups the layers are in, and within
  one group pages of two different layers never overlap.  So blocks of one pool can be given to any group.\<close>

theorem kv_pages_disjoint:
  assumes "get_kv_cache_config_from_groups E cfg groups available = Ok c" "groups \<noteq> []"
    and "glm5_next_tensor_layout E groups = Ok None" and "groups_ok groups" "pages_positive E"
    and "strides_law E (resolved_kv_cache_layout cfg)"
    and "is_block_outermost (resolved_kv_cache_layout cfg) \<or> is_layer_compact (resolved_kv_cache_layout cfg)"
    and "pool_bytes_per_block E groups = Ok B"
    and "g \<in> set groups" "n \<in> set (layer_names g)" "0 \<le> b" "b < num_blocks c"
    and "g' \<in> set groups" "n' \<in> set (layer_names g')" "0 \<le> b'" "b' < num_blocks c"
    and "b \<noteq> b' \<or> g = g' \<and> n \<noteq> n'"
  shows "\<exists>a a'. layer_start (kv_cache_tensors c) n b = Some a \<and> layer_start (kv_cache_tensors c) n' b' = Some a' \<and>
           0 \<le> a \<and> a + page_in E g n \<le> B * num_blocks c \<and>
           disjoint_ranges a (page_in E g n) a' (page_in E g' n')"
proof -
  let ?nb = "num_blocks c" and ?fl = "\<lambda>g. flat_pages E (layers_by_spec g)"
  let ?outer = "is_block_outermost (resolved_kv_cache_layout cfg)"
  have nb: "1 \<le> ?nb" using assms(11,12) by linarith
  note slot = config_slot [OF assms(1-6) nb assms(8)]
  obtain k where k: "k < length (?fl g)" "fst (?fl g ! k) = n"
    "\<And>b. layer_start (kv_cache_tensors c) n b = Some (place (if ?outer then Some B else None) ?nb (bytes_before (?fl g) k) (page_in E g n) b)"
    "bytes_before (?fl g) k + page_in E g n \<le> B" using slot [OF assms(9,10)] by metis
  obtain k' where k': "k' < length (?fl g')" "fst (?fl g' ! k') = n'"
    "\<And>b. layer_start (kv_cache_tensors c) n' b = Some (place (if ?outer then Some B else None) ?nb (bytes_before (?fl g') k') (page_in E g' n') b)"
    using slot [OF assms(13,14)] by metis
  have pos: "0 < snd x" if "x \<in> set (?fl h)" for x h using assms(5) that by (auto simp: flat_pages_def pages_positive_def)
  have ok: "group_ok h" "distinct (layer_names h)" if "h \<in> set groups" for h
    using assms(4) that by (auto simp: groups_ok_def list_all_iff distinct_concat_iff)
  have pg: "page_in E g n = snd (?fl g ! k)" "page_in E g' n' = snd (?fl g' ! k')"
    using flat_page [OF ok(1) [OF assms(9)] k(1)] flat_page [OF ok(1) [OF assms(13)] k'(1)] k(2) k'(2) by simp_all
  have kk: "g = g' \<Longrightarrow> n \<noteq> n' \<Longrightarrow> k \<noteq> k'" using k(2) k'(2) by auto
  let ?a = "\<lambda>g k n. place (if ?outer then Some B else None) ?nb (bytes_before (?fl g) k) (page_in E g n)"
  have disj: "disjoint_ranges (?a g k n b) (page_in E g n) (?a g' k' n' b') (page_in E g' n')"
  proof (cases ?outer)
    case True
    have "sum_list (map snd (?fl h)) \<le> B" if "h \<in> set groups" for h
      by (rule flat_le_pool [OF assms(1-3,8) that ok [OF that]])
    then show ?thesis
      using block_outer_disjoint [OF pos [of _ g] pos [of _ g'] k(1) k'(1), of B b b'] assms(9,13,17) kk pg True
      by (auto simp: place_def)
  next
    case False
    have "\<exists>P. \<forall>x \<in> set (?fl g) \<union> set (?fl g'). snd x = P" if ne: "g \<noteq> g'"
    proof -
      have "validate_kv_cache_layout E (resolved_kv_cache_layout cfg) groups = Ok ()"
        using generic_config_parts [OF assms(1-3)] by metis
      moreover have "is_layer_compact (resolved_kv_cache_layout cfg)" using assms(7) False by simp
      moreover have "1 < length groups" using ne assms(9,13) by (cases groups; cases "tl groups") auto
      ultimately obtain P where P: "\<And>g n. g \<in> set groups \<Longrightarrow> n \<in> set (layer_names g) \<Longrightarrow> page_in E g n = P"
        using validated_uniform [OF _ _ _ assms(4)] by blast
      show ?thesis
        using uniform_flat [OF ok [OF assms(9)] P [OF assms(9)]] uniform_flat [OF ok [OF assms(13)] P [OF assms(13)]]
        by blast
    qed
    then obtain P where "?fl g = ?fl g' \<and> (k \<noteq> k' \<or> b \<noteq> b') \<or> b \<noteq> b' \<and> (\<forall>x \<in> set (?fl g) \<union> set (?fl g'). snd x = P)"
      using assms(17) kk by blast
    then show ?thesis
      using layer_outer_disjoint [OF pos [of _ g] k(1) k'(1) assms(11,12,15,16)] pg False by (simp add: place_def)
  qed
  have p: "0 < page_in E g n" using pos [OF nth_mem [OF k(1)]] pg by simp
  have o: "0 \<le> bytes_before (?fl g) k" by (rule bytes_before_nonneg) (rule pos)
  note bounds = page_bounds [OF o p k(4) assms(11,12), of ?outer]
  show ?thesis by (intro exI conjI) (rule k(3) k'(3) bounds disj)+
qed

definition demo_page_env :: "demo_layer spec_env" where
  "demo_page_env = demo_spec_env\<lparr>
     page_size_bytes := (\<lambda>s. max 1 (page_size_bytes demo_spec_env s)),
     compute_layout_strides := (\<lambda>l nb n layout fixed. case fixed of Some S \<Rightarrow> (max 1 (demo_page l), S)
                                  | None \<Rightarrow> (max 1 (demo_page l) * nb, max 1 (demo_page l)))\<rparr>"

lemma demo_page_env_laws: "pages_positive demo_page_env" "strides_law demo_page_env layout"
  by (auto simp: demo_page_env_def demo_spec_env_def pages_positive_def strides_law_def less_max_iff_disj split: option.split)

definition demo_two_groups :: "demo_layer kv_group list" where
  "demo_two_groups = [new_group [''f0''] (Layer (demo_layer_of FullAttentionSpec 4 4)),
                      new_group [''s0''] (Layer (demo_layer_of SlidingWindowSpec 3 4))]"

theorem kv_pages_disjoint_witness:
  "\<exists>c a a'. get_kv_cache_config_from_groups demo_page_env demo_config demo_two_groups 100 = Ok c \<and>
     layer_start (kv_cache_tensors c) ''f0'' 0 = Some a \<and> layer_start (kv_cache_tensors c) ''s0'' 1 = Some a' \<and>
     disjoint_ranges a 16 a' 12"
proof -
  let ?g = "hd demo_two_groups" and ?g' = "last demo_two_groups"
  have "case get_kv_cache_config_from_groups demo_page_env demo_config demo_two_groups 100 of
      Inl e \<Rightarrow> False | Inr c \<Rightarrow> 1 < num_blocks c" by code_simp
  then obtain c where c: "get_kv_cache_config_from_groups demo_page_env demo_config demo_two_groups 100 = Ok c"
    "0 < num_blocks c" "1 < num_blocks c" by (auto split: sum.splits)
  have g: "demo_two_groups \<noteq> []" "glm5_next_tensor_layout demo_page_env demo_two_groups = Ok None"
    "groups_ok demo_two_groups" "is_block_outermost (resolved_kv_cache_layout demo_config) \<or> is_layer_compact (resolved_kv_cache_layout demo_config)"
    "pool_bytes_per_block demo_page_env demo_two_groups = Ok 16"
    by code_simp+
  have m: "?g \<in> set demo_two_groups" "''f0'' \<in> set (layer_names ?g)" "?g' \<in> set demo_two_groups" "''s0'' \<in> set (layer_names ?g')"
    by (simp_all add: demo_two_groups_def)
  have p: "page_in demo_page_env ?g ''f0'' = 16" "page_in demo_page_env ?g' ''s0'' = 12" by code_simp+
  show ?thesis
    using kv_pages_disjoint [OF c(1) g(1-3) demo_page_env_laws g(4,5) m(1,2) order_refl c(2) m(3,4) zero_le_one c(3)] c(1) p
    by auto
qed

subsection \<open>The groups of every worker are well formed\<close>

lemma new_uniform_ok: "distinct (dict_keys u) \<Longrightarrow> set names \<subseteq> set (dict_keys u) \<Longrightarrow> group_ok (new_group names (UniformTypeKVCacheSpecs b u))"
  by (auto simp: group_ok_def list_all_iff)

lemma layer_group_ok: "kv_cache_spec g = Layer s \<Longrightarrow> group_ok g"
  by (simp add: group_ok_def)

lemma mapE_all: "mapE f xs = Ok ys \<Longrightarrow> (\<And>x y. x \<in> set xs \<Longrightarrow> f x = Ok y \<Longrightarrow> P y) \<Longrightarrow> \<forall>y \<in> set ys. P y"
  using mapE_nth [of f xs ys] mapE_length [of f xs ys] by (metis in_set_conv_nth)

lemma create_groups_ok: "create_kv_cache_group_specs E d grouped = Ok gs \<Longrightarrow> \<forall>g \<in> set gs. group_ok g"
  unfolding create_kv_cache_group_specs_def
  by (erule mapE_all) (auto simp: create_one_group_def bindE_eq_Inr_iff group_ok_def split: if_splits)

lemma named_specs_keys:
  "mapE (\<lambda>n. bindE (dict_item d n) (\<lambda>s. Ok (n, s))) names = Ok specs \<Longrightarrow> dict_keys specs = names"
  using mapE_related [of "\<lambda>n. bindE (dict_item d n) (\<lambda>s. Ok (n, s))" names specs fst "\<lambda>n. n"]
  by (auto simp: bindE_eq_Inr_iff)

text \<open>Projection to a worker keeps well-formed groups well formed, and keeps exactly the worker's layers.\<close>

lemma project_group_ok:
  assumes "project_group w g = Ok g'" "group_ok g" "distinct (layer_names g)"
  shows "group_ok g'" "layer_names g' = filter (\<lambda>n. n \<in> set (dict_keys w)) (layer_names g)"
proof -
  show names: "layer_names g' = filter (\<lambda>n. n \<in> set (dict_keys w)) (layer_names g)"
    using assms(1) by (auto simp: project_group_def Let_def bindE_eq_Inr_iff)
  show "group_ok g'"
  proof (cases "kv_cache_spec g")
    case (Layer s)
    then show ?thesis using assms(1) by (auto simp: project_group_def Let_def group_ok_def)
  next
    case (UniformTypeKVCacheSpecs b d)
    show ?thesis
    proof (cases "layer_names g' = []")
      case True
      then have "kv_cache_spec g' = kv_cache_spec g"
        using assms(1) names UniformTypeKVCacheSpecs
        by (auto simp: project_group_def Let_def bindE_eq_Inr_iff split: if_splits)
      then show ?thesis using assms(2) True by (auto simp: group_ok_def split: kv_spec.splits)
    next
      case False
      then obtain d' where d': "mapE (\<lambda>n. bindE (dict_item d n) (\<lambda>s. Ok (n, s))) (layer_names g') = Ok d'"
        "kv_cache_spec g' = UniformTypeKVCacheSpecs b d'"
        using assms(1) names UniformTypeKVCacheSpecs
        by (auto simp: project_group_def Let_def bindE_eq_Inr_iff split: if_splits)
      have "distinct (layer_names g')" using assms(3) names by simp
      then show ?thesis
        using named_specs_keys [OF d'(1)] d'(2) by (simp add: group_ok_def list_all_iff set_map [symmetric] del: set_map)
    qed
  qed
qed

lemma project_groups_ok:
  assumes "project_kv_cache_groups_to_worker groups w = Ok gs" "groups_ok groups"
  shows "groups_ok gs"
    and "concat (map layer_names gs) = filter (\<lambda>n. n \<in> set (dict_keys w)) (concat (map layer_names groups))"
proof -
  have ok: "group_ok g" "distinct (layer_names g)" if "g \<in> set groups" for g
    using assms(2) that by (auto simp: groups_ok_def list_all_iff distinct_concat_iff)
  have m: "mapE (project_group w) groups = Ok gs" using assms(1) by (simp add: project_kv_cache_groups_to_worker_def)
  have "map layer_names gs = map (\<lambda>g. filter (\<lambda>n. n \<in> set (dict_keys w)) (layer_names g)) groups"
    by (rule mapE_related [OF m]) (rule project_group_ok(2) [OF _ ok])
  then show names: "concat (map layer_names gs) = filter (\<lambda>n. n \<in> set (dict_keys w)) (concat (map layer_names groups))"
    by (simp add: filter_concat o_def)
  have "\<forall>g \<in> set gs. group_ok g" by (rule mapE_all [OF m]) (rule project_group_ok(1) [OF _ ok])
  then show "groups_ok gs" using names assms(2) by (auto simp: groups_ok_def list_all_iff)
qed

lemma uniform_type_ok:
  "spec_laws E \<Longrightarrow> distinct (dict_keys d) \<Longrightarrow> from_specs E d = Some u \<Longrightarrow> \<forall>g \<in> set (get_kv_cache_groups_uniform_type u). group_ok g"
  by (cases u) (auto simp: get_kv_cache_groups_uniform_type_def dest!: spec_lawsD(2) intro!: new_uniform_ok)

lemma glm5_groups_ok:
  assumes "spec_laws E" "distinct (dict_keys d)" "get_kv_cache_groups_glm5_next E cfg d = Ok (Some gs)"
  shows "\<forall>g \<in> set gs. group_ok g"
proof -
  let ?mamba = "filter (\<lambda>(_, s). isinstance E s MambaSpec) d"
  let ?tail = "filter (\<lambda>(_, s). isinstance E s KpoolTailSpec) d"
  let ?attn = "filter (\<lambda>(_, s). \<not> (isinstance E s MambaSpec \<or> isinstance E s KpoolTailSpec)) d"
  obtain b u tg mg p names q where gs: "gs = [new_group (dict_keys ?attn) (UniformTypeKVCacheSpecs b u)] @ tg @ mg"
    and u: "from_specs E ?attn = Some (b, u)" and tg: "glm5_tail_group E ?tail p = Ok tg"
    and mg: "glm5_mamba_groups E cfg ?mamba names q = Ok mg"
    using assms(3) unfolding get_kv_cache_groups_glm5_next_def Let_def
    by (auto simp: bindE_eq_Inr_iff split: if_splits option.splits)
  have dist: "distinct (dict_keys ?attn)" "distinct (dict_keys ?tail)"
    using assms(2) by (simp_all add: distinct_map_filter)
  have "\<forall>g \<in> set mg. group_ok g" using mg
    by (auto simp: glm5_mamba_groups_def Let_def bindE_eq_Inr_iff split: if_splits option.splits dest!: create_groups_ok)
  moreover have "\<forall>g \<in> set tg. group_ok g"
  proof (cases "?tail = []")
    case False
    let ?padded = "map (\<lambda>(n, s). (n, replace_page_size_padded E p s)) ?tail"
    obtain b' u' where t: "from_specs E ?padded = Some (b', u')" "tg = [new_group (dict_keys ?padded) (UniformTypeKVCacheSpecs b' u')]"
      using tg False by (auto simp: glm5_tail_group_def Let_def split: option.splits)
    have "dict_keys ?padded = dict_keys ?tail" by (simp add: split_beta o_def)
    then have "distinct (dict_keys ?padded)" using dist(2) by (simp only:)
    then show ?thesis
      unfolding t(2) spec_lawsD(2) [OF assms(1) t(1)] using new_uniform_ok [OF _ order_refl] by (metis empty_iff empty_set set_ConsD)
  qed (use tg in \<open>simp add: glm5_tail_group_def\<close>)
  moreover have "group_ok (new_group (dict_keys ?attn) (UniformTypeKVCacheSpecs b u))"
    using spec_lawsD(2) [OF assms(1) u] dist(1) by (intro new_uniform_ok) auto
  moreover have "\<forall>g \<in> set mg. group_ok g \<Longrightarrow> \<forall>g \<in> set tg. group_ok g \<Longrightarrow> group_ok h \<Longrightarrow>
      \<forall>g \<in> set ([h] @ tg @ mg). group_ok g" for h by auto
  ultimately show ?thesis unfolding gs by blast
qed

lemma annotate_ok [simp]:
  "(\<forall>g \<in> set (annotate_eagle_groups E cfg d fb gs). group_ok g) \<longleftrightarrow> (\<forall>g \<in> set gs. group_ok g)"
proof -
  have [simp]: "group_ok (g\<lparr>is_eagle_group := b\<rparr>) = group_ok g" for g :: "'a kv_group" and b
    by (cases "kv_cache_spec g") (simp_all add: group_ok_def)
  have "map group_ok (flag_first n hs) = map group_ok hs" for n and hs :: "'a kv_group list"
    by (induction n hs rule: flag_first.induct) auto
  then have "map group_ok (annotate_eagle_groups E cfg d fb gs) = map group_ok gs"
    by (auto simp: annotate_eagle_groups_def Let_def split: option.splits)
  moreover have "(\<forall>g \<in> set hs. group_ok g) \<longleftrightarrow> False \<notin> set (map group_ok hs)" for hs :: "'a kv_group list" by auto
  ultimately show ?thesis by metis
qed

lemma packed_groups_ok:
  assumes "spec_laws E" "distinct (dict_keys d)" "get_packed_kv_cache_groups E cfg d = Ok (Some gs)"
    and names: "distinct (concat (map layer_names gs))"
  shows "\<forall>g \<in> set gs. group_ok g"
proof -
  obtain bucketed repeats gss where entries: "mapE (bucket_entry E) (packed_buckets E d) = Ok bucketed"
    and gss: "mapE (split_bucket E repeats (anchor_bytes E repeats bucketed)) bucketed = Ok gss"
    and gs: "gs = annotate_eagle_groups E cfg d (is_deepseek_v4_eagle cfg) (concat gss)"
    using assms(3) by (auto simp: get_packed_kv_cache_groups_def Let_def bindE_eq_Inr_iff split: if_splits)
  have "mset (concat (map dict_keys (packed_buckets E d))) = mset (dict_keys d)"
    using packed_buckets_mset(1) [OF assms(2), of E] by (metis map_concat mset_map)
  then have "distinct (concat (map dict_keys (packed_buckets E d)))"
    using assms(2) mset_eq_imp_distinct_iff by blast
  then have each: "distinct (dict_keys u)" if "u \<in> set (packed_buckets E d)" for u
    using that by (simp add: distinct_concat_iff)
  have keys: "\<forall>x \<in> set bucketed. distinct (dict_keys (snd (fst x)))"
  proof (rule mapE_all [OF entries])
    fix u x assume "u \<in> set (packed_buckets E d)" "bucket_entry E u = Ok x"
    then show "distinct (dict_keys (snd (fst x)))"
      using each by (auto simp: bucket_entry_def split: option.splits dest!: spec_lawsD(2) [OF assms(1)])
  qed
  have ok: "group_ok g" if x: "x \<in> set bucketed" and hs: "split_bucket E repeats a x = Ok hs" "g \<in> set hs"
    and g: "distinct (layer_names g)" for x hs g a
  proof -
    obtain b u pages bal where xe: "x = ((b, u), pages, bal)" by (cases x) auto
    have "distinct (dict_keys u)" using keys x xe by auto
    moreover have "(\<exists>names. group_of_names E u names = Ok g) \<or> g = new_group (dict_keys u) (UniformTypeKVCacheSpecs b u)"
      using hs mapE_all [of _ _ hs "\<lambda>g. \<exists>names. group_of_names E u names = Ok g"]
      unfolding xe split_bucket_def prod.case Let_def by (fastforce split: if_splits)
    moreover have "group_ok g" if gn: "group_of_names E u names = Ok g" for names
    proof -
      obtain specs where s1: "mapE (\<lambda>name. bindE (dict_item u name) (\<lambda>s. Ok (name, s))) names = Ok specs"
        "(case from_specs E specs of None \<Rightarrow> Err AssertionError
          | Some (b, u') \<Rightarrow> Ok (new_group names (UniformTypeKVCacheSpecs b u'))) = Ok g"
        using gn unfolding group_of_names_def bindE_eq_Inr_iff by blast
      obtain b' where s: "mapE (\<lambda>name. bindE (dict_item u name) (\<lambda>s. Ok (name, s))) names = Ok specs"
        "g = new_group names (UniformTypeKVCacheSpecs b' specs)"
        using s1 spec_lawsD(2) [OF assms(1), of specs] by (cases "from_specs E specs") auto
      show ?thesis unfolding s(2) using named_specs_keys [OF s(1)] g s(2) by (intro new_uniform_ok) auto
    qed
    ultimately show ?thesis by (auto intro: new_uniform_ok)
  qed
  have "group_ok g" if g: "g \<in> set (concat gss)" for g
  proof -
    obtain hs where "hs \<in> set gss" "g \<in> set hs" using g by auto
    then obtain i where i: "i < length gss" "g \<in> set (gss ! i)" by (metis in_set_conv_nth)
    have "map layer_names (concat gss) = map layer_names gs" unfolding gs by simp
    then have "layer_names g \<in> set (map layer_names gs)" using g by (metis image_eqI list.set_map)
    then have "distinct (layer_names g)" using names by (simp only: distinct_concat_iff)
    then show ?thesis using ok mapE_nth [OF gss, of i] mapE_length [OF gss] i nth_mem by metis
  qed
  then show ?thesis by (simp add: gs)
qed

lemma hybrid_groups_ok:
  assumes "spec_laws E" "distinct (dict_keys d)" "hybrid_groups E cfg d = Ok gs" "distinct (concat (map layer_names gs))"
  shows "\<forall>g \<in> set gs. group_ok g"
proof -
  let ?hidden = "filter (\<lambda>(_, s). isinstance E s HiddenStateCacheSpec) d"
  let ?rest = "filter (\<lambda>(_, s). \<not> isinstance E s HiddenStateCacheSpec) d"
  have dist: "distinct (dict_keys ?rest)" using assms(2) by (simp add: distinct_map_filter)
  obtain pk where pk: "get_packed_kv_cache_groups E cfg ?rest = Ok pk"
    using assms(3) by (auto simp: hybrid_groups_def Let_def bindE_eq_Inr_iff)
  consider ps where "pk = Some ps" "gs = ps @ map (\<lambda>(name, s). new_group [name] (Layer s)) ?hidden"
    | "full_allocation_fallback E d = Ok (Some gs)"
    | u groups all_groups where "get_kv_cache_groups_uniform_page_size E u = Ok groups"
        "with_hidden_groups E ?hidden groups = Ok all_groups" "gs = annotate_eagle_groups E cfg d False all_groups"
    using hybrid_groups_cases [OF pk assms(3)] by blast
  then show ?thesis
  proof cases
    case 1
    have "\<forall>g \<in> set ps. group_ok g"
      using packed_groups_ok [OF assms(1) dist, of cfg ps] pk 1 assms(4) by simp
    then show ?thesis using 1(2) by (auto intro: layer_group_ok)
  next
    case 2
    then obtain d' u where p: "promote_local_kv_cache_specs E d = Ok d'" "from_specs E d' = Some u" "gs = get_kv_cache_groups_uniform_type u"
      unfolding full_allocation_fallback_def Let_def by (auto split: if_splits sum.splits option.splits)
    have "distinct (dict_keys d')" using promote_keys [OF p(1)] assms(2) by simp
    then show ?thesis using uniform_type_ok [OF assms(1) _ p(2)] p(3) by simp
  next
    case 3
    have "\<forall>g \<in> set groups. group_ok g"
      using 3(1) by (auto simp: get_kv_cache_groups_uniform_page_size_def bindE_eq_Inr_iff split: if_splits dest!: create_groups_ok)
    moreover have "\<forall>g \<in> set hs. group_ok g" if "mapE (hidden_group E p b) ?hidden = Ok hs" for p b hs
      using that by (rule mapE_all) (auto simp: hidden_group_def Let_def group_ok_def split: if_splits)
    ultimately have "\<forall>g \<in> set all_groups. group_ok g"
      using 3(2) by (auto simp: with_hidden_groups_def bindE_eq_Inr_iff split: if_splits)
    then show ?thesis using 3(3) by simp
  qed
qed

lemma get_kv_cache_groups_ok:
  assumes "spec_laws E" "distinct (dict_keys d)" "get_kv_cache_groups E cfg d = Ok (d', gs)"
    and "state_buckets_balanced E (filter (\<lambda>(_, s). \<not> isinstance E s HiddenStateCacheSpec) d')"
  shows "groups_ok gs"
proof -
  have gs: "groups_of_specs E cfg d' = Ok gs" and keys: "dict_keys d' = dict_keys d"
    using assms(3) unify_hybrid_keys by (auto simp: get_kv_cache_groups_def bindE_eq_Inr_iff split: if_splits)
  have dist: "distinct (dict_keys d')" using assms(2) keys by simp
  have "mset (concat (map layer_names gs)) = mset (dict_keys d')"
    using groups_of_specs_layers [OF assms(1) dist assms(4) gs] by (simp add: grouped_layers_def)
  then have names: "distinct (concat (map layer_names gs))" using dist mset_eq_imp_distinct_iff by blast
  consider "d' = []" "gs = []" | "create_kv_cache_group_specs E d' [dict_keys d'] = Ok gs"
    | u where "from_specs E d' = Some u" "gs = get_kv_cache_groups_uniform_type u"
    | "get_kv_cache_groups_glm5_next E cfg d' = Ok (Some gs)" | "hybrid_groups E cfg d' = Ok gs"
    using groups_of_specs_cases [OF gs] by blast
  then have "\<forall>g \<in> set gs. group_ok g"
    by cases (use create_groups_ok uniform_type_ok [OF assms(1) dist] glm5_groups_ok [OF assms(1) dist]
        hybrid_groups_ok [OF assms(1) dist _ names] in simp_all)
  then show ?thesis using names by (simp add: groups_ok_def list_all_iff)
qed

lemma merged_keys_distinct:
  assumes "merge_worker_specs specs = Ok d"
  shows "distinct (dict_keys d)"
proof -
  have step: "distinct (dict_keys m')" if "foldE merge_layer xs m = Ok m'" "distinct (dict_keys m)"
    for xs :: "(string, 'a) dict" and m m'
    by (rule foldE_invariant [where P = "\<lambda>d. distinct (dict_keys d)", OF that]) (auto simp: merge_layer_def bindE_eq_Inr_iff split: option.splits)
  show ?thesis
    using assms unfolding merge_worker_specs_def
    by (rule foldE_invariant [where P = "\<lambda>d. distinct (dict_keys d)"]) (simp, rule step)
qed

lemma config_groups: "get_kv_cache_config_from_groups E cfg gs a = Ok c \<Longrightarrow> kv_cache_groups c = gs"
  using config_from_groups_blocks(2) [of E cfg gs a c]
  by (cases "gs = []") (auto simp: get_kv_cache_config_from_groups_def make_config_def)

text \<open>Every configuration that \<open>get_kv_cache_configs\<close> returns was made from well-formed groups by
  \<open>get_kv_cache_config_from_groups\<close>, so its pages are placed as shown above.\<close>

theorem configured_groups_ok:
  assumes "spec_laws E" "get_kv_cache_configs E cfg specs available = Ok (cfg', configs)"
    and "\<And>d d' groups. get_kv_cache_groups E cfg d = Ok (d', groups) \<Longrightarrow>
           state_buckets_balanced E (filter (\<lambda>(_, s). \<not> isinstance E s HiddenStateCacheSpec) d')"
    and "c \<in> set configs"
  shows "groups_ok (kv_cache_groups c)" "\<exists>a. get_kv_cache_config_from_groups E cfg' (kv_cache_groups c) a = Ok c"
proof -
  obtain merged d' groups projected where merged: "merge_worker_specs specs = Ok merged"
    and g: "get_kv_cache_groups E cfg (tag_sliding_windows E cfg merged) = Ok (d', groups)"
    and p: "mapE (project_kv_cache_groups_to_worker groups) specs = Ok projected"
    and plan: "plan_workers E cfg projected specs available = Ok (cfg', configs)"
    using assms(2) unfolding get_kv_cache_configs_def by (auto simp: bindE_eq_Inr_iff split_beta)
  have "dict_keys (tag_sliding_windows E cfg merged) = dict_keys merged"
    by (simp add: tag_sliding_windows_def split_beta o_def)
  then have gok: "groups_ok groups"
    using get_kv_cache_groups_ok [OF assms(1) _ g assms(3) [OF g]] merged_keys_distinct [OF merged] by simp
  have ok: "\<forall>gs \<in> set projected. groups_ok gs"
    by (rule mapE_all [OF p]) (rule project_groups_ok(1) [OF _ gok])
  obtain avail planned where wc: "mapE (worker_config E cfg') (zip projected (zip specs avail)) = Ok planned"
    and sh: "shrink_configs E cfg' planned = Ok configs" using plan_workers_steps [OF plan] by blast
  have made: "\<forall>c \<in> set planned. groups_ok (kv_cache_groups c) \<and> (\<exists>a. get_kv_cache_config_from_groups E cfg' (kv_cache_groups c) a = Ok c)"
  proof (rule mapE_all [OF wc])
    fix x c assume x: "x \<in> set (zip projected (zip specs avail))" and c: "worker_config E cfg' x = Ok c"
    obtain gs spec a where xe: "x = (gs, spec, a)" by (cases x) auto
    have m: "get_kv_cache_config_from_groups E cfg' gs a = Ok c"
      using c xe by (auto simp: worker_config_def bindE_eq_Inr_iff)
    have "kv_cache_groups c = gs" by (rule config_groups [OF m])
    then show "groups_ok (kv_cache_groups c) \<and> (\<exists>a. get_kv_cache_config_from_groups E cfg' (kv_cache_groups c) a = Ok c)"
      using m ok x xe by (auto dest: set_zip_leftD)
  qed
  obtain n where "mapE (shrink_config E cfg' n) planned = Ok configs"
    using sh by (auto simp: shrink_configs_def split: if_splits)
  then have "\<forall>c \<in> set configs. groups_ok (kv_cache_groups c) \<and> (\<exists>a. get_kv_cache_config_from_groups E cfg' (kv_cache_groups c) a = Ok c)"
  proof (rule mapE_all)
    fix x c assume x: "x \<in> set planned" and c: "shrink_config E cfg' n x = Ok c"
    show "groups_ok (kv_cache_groups c) \<and> (\<exists>a. get_kv_cache_config_from_groups E cfg' (kv_cache_groups c) a = Ok c)"
    proof (cases "num_blocks x = n")
      case True
      then show ?thesis using c made x by (simp add: shrink_config_def)
    next
      case False
      then obtain a where m: "get_kv_cache_config_from_groups E cfg' (kv_cache_groups x) a = Ok c"
        using c by (auto simp: shrink_config_def bindE_eq_Inr_iff)
      have "kv_cache_groups c = kv_cache_groups x" by (rule config_groups [OF m])
      then show ?thesis using m made x by auto
    qed
  qed
  then show "groups_ok (kv_cache_groups c)" "\<exists>a. get_kv_cache_config_from_groups E cfg' (kv_cache_groups c) a = Ok c"
    using assms(4) by blast+
qed

end
