(* ===== verification/Spec2Isabelle.thy ===== *)
theory Spec2Isabelle
  imports Block_Queue Block_Hash PP_Shadow Chat_Encoding Cudagraph Sched_Reach Sched_Fence Sched_Chunk KV_Pages
begin

text \<open>
  A verification library for the serving overlay of DeepSeek-V4.1-Flash: a set of Python modules
  that replace modules of vLLM so that the model runs with pipeline parallelism on four small cards.

  \<^bold>\<open>The program and its parts.\<close>  A request arrives as chat messages, which the tokenizer module renders
  to a prompt.  The scheduler keeps the request in its queues, asks the KV cache manager for blocks
  (which come from the free block queue and are found again by block hashes), and sends batches to the
  workers.  A worker picks a captured CUDA graph for the batch, runs its slice of the layers and hands
  tensors to the next pipeline rank.  The output comes back to the scheduler, which appends tokens,
  frees blocks or preempts.

  \<^bold>\<open>Theories.\<close>
  \<^item> Prelude: Python exceptions as values (a sum type with bind, assertion, loops), strings, byte strings,
    slices, insertion-ordered dictionaries, and the lemmas on them every component uses.
  \<^item> Block_Queue (\<open>v1/core/kv_cache_utils.py\<close>: \<open>KVCacheBlock\<close>, \<open>FreeKVCacheBlockQueue\<close>): the intrusive
    doubly linked list on an explicit heap of blocks.  The locale \<open>free_queue\<close> states what a client
    relies on and is interpreted on the linked list; the properties say that free and held blocks
    partition the pool, that allocation takes the least recently freed blocks, and that an allocation
    can be undone.
  \<^item> Block_Hash (same file): hash keys, extra keys for images, adapters and salts, the chained hasher of a
    request, views with a coarser block size.  A resumed hasher continues the chain; under a
    collision-free hash, equal hashes mean equal prefixes; three defects of the extra keys are theorems.
  \<^item> PP_Shadow (\<open>overlay/hybrid/pp_shadow.py\<close>, \<open>models/deepseek_v4_1/nvidia/model.py\<close>): which layers a rank
    shadows, what it ships and receives, the exchange of intermediate tensors through the pipeline, and
    the renaming of shadow weights.  The layers of every rank run on the previous rank's hidden states, on its
    candidates, and after every shadow was run on the attention input of the layer it stands for.
  \<^item> Json, Chat_Encoding (\<open>tokenizers/deepseek_v41_encoding.py\<close>, \<open>tokenizers/deepseek_v41.py\<close>): merging, sorting
    and rendering of messages, tool calls, reasoning and images.  Encoding raises no error on
    a well-formed conversation and frames the prompt as the thinking mode asks; result blocks are sorted
    stably, image placeholders match the images, and tool arguments survive the encoding.
  \<^item> Cudagraph (\<open>v1/cudagraph_dispatcher.py\<close>): keys, padding table and dispatch.  A dispatched graph was
    captured and fits the batch; a captured family is found.
  \<^item> Scheduler, Sched_Output, Sched_Reach, Sched_Fence, Sched_Dispatch, Sched_Chunk (\<open>v1/core/sched/scheduler.py\<close>).
    Scheduler holds the state and the operations on it (\<open>add_request\<close>, \<open>finish_requests\<close>, \<open>_free_request\<close>,
    \<open>_preempt_request\<close>, sessions, counters) with the queue invariant.  Sched_Output holds
    \<open>update_from_output\<close> and what it calls, \<open>_update_after_schedule\<close>, KV transfers, failed loads and
    drafts.  Sched_Reach is a step relation over these operations, which takes a step of
    \<open>update_from_output\<close> only where \<open>expected_output\<close> holds of the scheduled requests: in every state it reaches
    each unfinished request is in exactly one queue that fits its status.  The step it leaves out, the stop of
    a streaming session preempted in the same step, is shown to lose the session.  Sched_Fence adds the steps in flight:
    no block a step may write is free, and every deferred release happens.  Sched_Dispatch is the
    token stream to pipeline workers.  Sched_Chunk is how many tokens of one request a step takes: a chunk
    only covers encoder inputs that are cached or scheduled with it, keeps the lookahead of the drafter, and
    with Mamba layers stops where a state can be cached, unless it finishes the prefill or a block is wider than
    the largest chunk.
  \<^item> KV_Spec, KV_Groups, KV_Layout, KV_Pages (\<open>v1/core/kv_cache_utils.py\<close>, the configuration of the cache before
    the engine starts).  KV_Spec holds the specs of the layers, the block sizes the scheduler and the
    hashes use, the memory check and the search for the longest model length that fits.  KV_Groups
    partitions the layers into groups on every path of \<open>get_kv_cache_groups\<close>.  KV_Layout gives each group
    its tensors, block count and strides, fits the model length, and makes the configurations of all
    workers and of the scheduler.  KV_Pages places the pages in the tensors.  The groups partition the
    layers, the workers agree on the number of blocks, the fitted length is the longest that fits, and
    the pages of two layers or two blocks never overlap.  The search is one locale, \<open>len_estimator\<close>,
    interpreted on the two estimates of the code.

  \<^bold>\<open>How the state corresponds.\<close>  Mutable objects live in a store under their identity: blocks under an
  address, requests under their id, because the code shares them between containers.  Dictionaries are
  association lists in insertion order, sets are sets, deques and queues are lists.  A raise or a failed
  assertion is a value of \<^typ>\<open>py_error\<close>; a loop over a list is a fold that stops at the first one.
  Integers are unbounded as in Python.  Loops that follow links are \<open>partial_function (option)\<close> and are
  proved to return, the search for a model length is a \<open>function\<close> with a measure.  Only the JSON decoder takes fuel, the
  bound on its recursion that \<open>json_loads\<close> sets above the length of the input: every nested call consumes a
  character, and the round trip of every plain value is proved with that fuel.

  \<^bold>\<open>Code outside the repository.\<close>  The hash function, the layer split, layer numerics, the KV cache
  manager, the request queue class, connectors, the grammar manager and \<open>check_stop\<close> are arguments
  (fields of the record \<open>env\<close> in the scheduler); so are the methods of the spec classes (record
  \<open>spec_env\<close>).  What is relied on is a named predicate, for instance \<open>queue_laws\<close>, \<open>request_laws\<close>,
  \<open>kv_laws\<close>, \<open>spec_laws\<close> and \<open>strides_law\<close>, and each is shown to hold of a concrete environment.

  \<^bold>\<open>Defects.\<close>  Theorems that exhibit a defect of the code: \<open>resumed_hash_ignores_earlier_image\<close>,
  \<open>view_negative_index\<close>, \<open>lora_name_salt_collision\<close>, \<open>context_loses_new_turn\<close>,
  \<open>dispatch_confuses_families\<close>, \<open>preempted_session_lost\<close>, \<open>packed_split_drops_layer\<close>.

  \<^bold>\<open>Not modelled.\<close>  The model runners, attention backends, quantization and layers act on device tensors
  through torch, Triton and CUDA; the configuration modules are declarative classes over third-party
  types; the row store and the expert kernel are C++ behind ctypes; tools, tests, launchers and patches
  have no state.  Of \<open>schedule()\<close> the queue moves, the length of a chunk and the end are modelled, not the
  two loops that spend the token budget and admit requests; of the scheduler's output processing statistics, log probabilities and routed
  experts are left out; of the cache configuration the reported capacity figures, which are floats.

  \<^bold>\<open>Plan.\<close>  The two loops of \<open>schedule()\<close>; the busy loop, pause and shutdown of \<open>v1/engine/core.py\<close>; block sizes of \<open>v1/worker/utils.py\<close>.
\<close>

end
